(* ===== verification/Byteview.thy ===== *)
theory Byteview
  imports Prelude
begin

text \<open>
  The immutable byte view of \<^verbatim>\<open>src/byteview.go\<close>, over an explicit heap of byte arrays so that
  the sharing of backing arrays between slices is visible. The lemmas show that a clone
  has the bytes of its original and shares no storage with it, in both directions. The other
  theories use a view through its bytes only.
\<close>

section \<open>Slices over a heap of arrays\<close>

type_synonym heap = "bytes list"

record slice =
  arr :: nat
  off :: nat
  slen :: nat

definition slice_ok :: "heap \<Rightarrow> slice \<Rightarrow> bool" where
  "slice_ok h s \<longleftrightarrow> arr s < length h \<and> off s + slen s \<le> length (h ! arr s)"

definition slice_bytes :: "heap \<Rightarrow> slice \<Rightarrow> bytes" where
  "slice_bytes h s = take (slen s) (drop (off s) (h ! arr s))"

text \<open>The built-in \<^verbatim>\<open>make([]byte, n)\<close>: a fresh zeroed array.\<close>

definition make_bytes :: "nat \<Rightarrow> heap \<Rightarrow> slice \<times> heap" where
  "make_bytes n h = (\<lparr>arr = length h, off = 0, slen = n\<rparr>, h @ [replicate n 0])"

text \<open>The built-in \<^verbatim>\<open>copy(dst, src)\<close>.\<close>

definition copy_bytes :: "slice \<Rightarrow> slice \<Rightarrow> heap \<Rightarrow> heap" where
  "copy_bytes dst src h =
     (let n = min (slen dst) (slen src); a = h ! arr dst
      in h[arr dst := take (off dst) a @ take n (slice_bytes h src) @ drop (off dst + n) a])"

text \<open>The assignment \<^verbatim>\<open>s[i] = w\<close>; out of range it panics (\<open>None\<close>).\<close>

definition write_byte :: "slice \<Rightarrow> nat \<Rightarrow> byte \<Rightarrow> heap \<Rightarrow> heap option" where
  "write_byte s i w h =
     (if i < slen s then Some (h[arr s := (h ! arr s)[off s + i := w]]) else None)"

section \<open>The view\<close>

definition cloneBytes :: "slice \<Rightarrow> heap \<Rightarrow> slice \<times> heap" where
  "cloneBytes b h = (let (c, h') = make_bytes (slen b) h in (c, copy_bytes c b h'))"

record ByteView =
  view_b :: slice

definition view_Len :: "ByteView \<Rightarrow> nat" where
  "view_Len v = slen (view_b v)"

definition view_String :: "ByteView \<Rightarrow> heap \<Rightarrow> string" where
  "view_String v h = string_of (slice_bytes h (view_b v))"

definition view_ByteSlice :: "ByteView \<Rightarrow> heap \<Rightarrow> slice \<times> heap" where
  "view_ByteSlice v h = cloneBytes (view_b v) h"

definition view_ByteSLice :: "ByteView \<Rightarrow> heap \<Rightarrow> slice \<times> heap" where
  "view_ByteSLice v h = view_ByteSlice v h"

section \<open>Independence of clones\<close>

lemma length_slice_bytes: "slice_ok h s \<Longrightarrow> length (slice_bytes h s) = slen s"
  by (auto simp: slice_ok_def slice_bytes_def)

lemma cloneBytes_eq:
  assumes "slice_ok h s"
  shows "cloneBytes s h = (\<lparr>arr = length h, off = 0, slen = slen s\<rparr>, h @ [slice_bytes h s])"
  using assms
  by (auto simp: cloneBytes_def make_bytes_def copy_bytes_def slice_ok_def slice_bytes_def
      nth_append Let_def)

lemma slice_bytes_append: "arr s < length h \<Longrightarrow> slice_bytes (h @ h') s = slice_bytes h s"
  by (simp add: slice_bytes_def nth_append)

lemma slice_bytes_write_other:
  "write_byte t i w h = Some h' \<Longrightarrow> arr t \<noteq> arr s \<Longrightarrow> slice_bytes h' s = slice_bytes h s"
  by (auto simp: write_byte_def slice_bytes_def split: if_splits)

lemma cloneBytes_bytes:
  assumes "slice_ok h s" "cloneBytes s h = (c, h')"
  shows "slice_bytes h' c = slice_bytes h s" "slice_bytes h' s = slice_bytes h s"
    "slice_ok h' c" "slice_ok h' s" "arr c \<noteq> arr s"
  using assms by (auto simp: cloneBytes_eq slice_bytes_append length_slice_bytes)
    (auto simp: slice_bytes_def slice_ok_def nth_append)

text \<open>C25. \<^verbatim>\<open>ByteSlice\<close> returns the view's bytes in storage of its own: whatever the caller then
  writes into the returned slice, the view reads as before.\<close>

theorem ByteSlice_defensive_copy:
  assumes ok: "slice_ok h (view_b v)" and slice: "view_ByteSlice v h = (c, h1)"
    and wr: "write_byte c i w h1 = Some h2"
  shows "slice_bytes h1 c = slice_bytes h (view_b v) \<and> view_String v h2 = view_String v h"
proof -
  note cl = cloneBytes_bytes [OF ok slice [unfolded view_ByteSlice_def]]
  from slice_bytes_write_other [OF wr cl(5)] cl show ?thesis
    by (simp add: view_String_def)
qed

theorem ByteSlice_defensive_copy_witness:
  "let h = [[7, 8, 9]]; v = \<lparr>view_b = \<lparr>arr = 0, off = 1, slen = 2\<rparr>\<rparr>; (c, h1) = view_ByteSlice v h in
     slice_bytes h1 c = [8, 9] \<and> (\<exists>h2. write_byte c 0 65 h1 = Some h2 \<and> view_String v h2 = view_String v h)"
  using ByteSlice_defensive_copy [of "[[7, 8, 9]]" "\<lparr>view_b = \<lparr>arr = 0, off = 1, slen = 2\<rparr>\<rparr>"
      "\<lparr>arr = 1, off = 0, slen = 2\<rparr>" "[[7, 8, 9], [8, 9]]" 0 65 "[[7, 8, 9], [65, 9]]"]
  by (simp add: view_ByteSlice_def cloneBytes_eq slice_ok_def slice_bytes_def write_byte_def)

end
