(* ===== verification/Store_Base.thy ===== *)
theory Store_Base
  imports Prelude
begin

text \<open>
  The vocabulary of package \<^verbatim>\<open>store\<close> (\<^verbatim>\<open>src/store/store.go\<close>): cached values, options, cache
  types, and the contract of the \<^verbatim>\<open>Store\<close> interface as a locale that both stores interpret.
\<close>

section \<open>Values and options\<close>

text \<open>
  A \<^verbatim>\<open>store.Value\<close> is anything with a \<^verbatim>\<open>Len\<close>. The cache stores byte views; any other dynamic
  type is known to the code through its length only.
\<close>

datatype Value = ByteViewV bytes | OtherV int

fun Value_Len :: "Value \<Rightarrow> int" where
  "Value_Len (ByteViewV bs) = int (length bs)"
| "Value_Len (OtherV n) = n"

type_synonym CacheType = string

definition LRU :: CacheType where
  "LRU = ''lru''"

definition ShardedLRU :: CacheType where
  "ShardedLRU = ''sharded-lru''"

text \<open>
  \<open>OnEvicted\<close> says whether a callback is installed; its calls are recorded in the store.
\<close>

record Options =
  MaxBytes :: int64
  ShardCount :: int64
  CleanupInterval :: duration
  OnEvicted :: bool

definition NewOptions :: Options where
  "NewOptions = \<lparr>MaxBytes = push_bit 20 8, ShardCount = 16, CleanupInterval = minute,
     OnEvicted = False\<rparr>"

section \<open>The contract of a store\<close>

text \<open>Whether an entry with an optional deadline may still be read.\<close>

fun alive :: "time \<Rightarrow> time option \<Rightarrow> bool" where
  "alive now None = True"
| "alive now (Some exp) = (now < exp)"

definition deadline :: "time \<Rightarrow> duration \<Rightarrow> time option" where
  "deadline now d = (if d > 0 then Some (now + d) else None)"

text \<open>
  What \<^verbatim>\<open>Store\<close> promises: \<open>content\<close> is the abstract state (value and deadline per key). A store may
  forget entries when it stores another (eviction), but it never invents or alters one, and it
  keeps a value that has \<open>room\<close>, which reads and removals never take away.
\<close>

locale store_contract =
  fixes inv :: "'s \<Rightarrow> bool"
    and content :: "'s \<Rightarrow> string \<Rightarrow> (Value \<times> time option) option"
    and room :: "'s \<Rightarrow> string \<Rightarrow> Value \<Rightarrow> bool"
    and get :: "time \<Rightarrow> string \<Rightarrow> 's \<Rightarrow> Value option \<times> 's"
    and put :: "time \<Rightarrow> time \<Rightarrow> string \<Rightarrow> Value option \<Rightarrow> duration \<Rightarrow> 's \<Rightarrow> 's"
    and del :: "string \<Rightarrow> 's \<Rightarrow> bool \<times> 's"
    and clear :: "'s \<Rightarrow> 's"
    and len :: "'s \<Rightarrow> nat"
  assumes get_result: "inv s \<Longrightarrow> fst (get now k s) =
      (case content s k of Some (v, x) \<Rightarrow> if alive now x then Some v else None | None \<Rightarrow> None)"
    and get_content: "inv s \<Longrightarrow> content (snd (get now k s)) k' =
      (if k' = k \<and> fst (get now k s) = None then None else content s k')"
    and put_other: "inv s \<Longrightarrow> k' \<noteq> k \<Longrightarrow>
      content (put now now' k (Some v) d s) k' \<in> {None, content s k'}"
    and put_same: "inv s \<Longrightarrow> content (put now now' k (Some v) d s) k \<in> {None, Some (v, deadline now d)}"
    and put_room: "inv s \<Longrightarrow> room s k v \<Longrightarrow> alive now' (deadline now d) \<Longrightarrow>
      content (put now now' k (Some v) d s) k = Some (v, deadline now d)"
    and put_nil: "put now now' k None d s = snd (del k s)"
    and del_result: "inv s \<Longrightarrow> fst (del k s) \<longleftrightarrow> content s k \<noteq> None"
    and del_content: "inv s \<Longrightarrow> content (snd (del k s)) = (content s)(k := None)"
    and clear_content: "inv s \<Longrightarrow> content (clear s) = Map.empty"
    and len_content: "inv s \<Longrightarrow> len s = card (dom (content s))"
    and inv_get: "inv s \<Longrightarrow> inv (snd (get now k s))"
    and inv_put: "inv s \<Longrightarrow> inv (put now now' k ov d s)"
    and inv_del: "inv s \<Longrightarrow> inv (snd (del k s))"
    and inv_clear: "inv s \<Longrightarrow> inv (clear s)"
    and room_get: "inv s \<Longrightarrow> room s k v \<Longrightarrow> room (snd (get now k' s)) k v"
    and room_del: "inv s \<Longrightarrow> room s k v \<Longrightarrow> room (snd (del k' s)) k v"
    and room_clear: "inv s \<Longrightarrow> room s k v \<Longrightarrow> room (clear s) k v"
begin

lemmas inv_ops = inv_get inv_put inv_del inv_clear

lemma get_after_put:
  assumes "inv s" "room s k v" "alive now' (deadline now d)" "alive t (deadline now d)"
  shows "fst (get t k (put now now' k (Some v) d s)) = Some v"
  using assms by (simp add: get_result inv_put put_room)

lemma get_after_put_sound:
  assumes "inv s" "fst (get t k (put now now' k (Some v) d s)) = Some v'"
  shows "v' = v"
  using assms put_same [of s now now' k v d]
  by (auto simp: get_result inv_put split: if_splits)

lemma get_after_del: "inv s \<Longrightarrow> fst (get t k (snd (del k s))) = None"
  by (simp add: get_result inv_del del_content)

lemma get_after_clear: "inv s \<Longrightarrow> fst (get t k (clear s)) = None"
  by (simp add: get_result inv_clear clear_content)

lemma get_other_after_put:
  assumes "inv s" "k' \<noteq> k" "fst (get t k' (put now now' k (Some v) d s)) = Some w"
  shows "fst (get t k' s) = Some w"
proof -
  from assms put_other [of s k' k now now' v d]
  have "content (put now now' k (Some v) d s) k' = content s k'"
    by (auto simp: get_result inv_put)
  with assms show ?thesis by (simp add: get_result inv_put)
qed

lemma get_keeps:
  assumes "inv s" "alive t x" "content s k' = Some (v, x)" "k' = k \<longrightarrow> alive now x"
  shows "content (snd (get now k s)) k' = Some (v, x)"
  using assms by (cases "k' = k") (simp_all add: get_content get_result)

end

end
