(* ===== verification/Lru.thy ===== *)
theory Lru
  imports Store_Base
begin

text \<open>
  The LRU cache of \<^verbatim>\<open>src/store/lru.go\<close>. The doubly linked list is a list of elements from
  front (oldest) to back (newest), each with an identity; \<open>items\<close> maps a key to the identity of
  its element, as the Go map holds pointers into the list. Operations run under the cache's
  mutex, so each is one step; every \<^verbatim>\<open>time.Now()\<close> is an argument.
\<close>

section \<open>State\<close>

record lruEntry =
  ekey :: string
  evalue :: Value

type_synonym element = "nat \<times> lruEntry"

record lruCache =
  elems :: "element list"
  items :: "(string, nat) gomap"
  expires :: "(string, time) gomap"
  maxBytes :: int64
  usedBytes :: int64
  onEvicted :: bool
  cleanupInterval :: duration
  cleanupTicker :: bool
  closedCh :: bool
  closeOnce :: bool
  nextElem :: nat
  evictLog :: "(string \<times> Value) list"

definition newLRUCacheInternal :: "Options \<Rightarrow> bool \<Rightarrow> lruCache" where
  "newLRUCacheInternal opts startCleanup =
     \<lparr>elems = [], items = [], expires = [],
      maxBytes = MaxBytes opts, usedBytes = 0, onEvicted = OnEvicted opts,
      cleanupInterval = (if CleanupInterval opts \<le> 0 then minute else CleanupInterval opts),
      cleanupTicker = startCleanup, closedCh = False, closeOnce = False,
      nextElem = 0, evictLog = []\<rparr>"

definition newLRUCache :: "Options \<Rightarrow> lruCache" where
  "newLRUCache opts = newLRUCacheInternal opts True"

section \<open>Operations\<close>

text \<open>\<^verbatim>\<open>list.MoveToBack\<close>.\<close>

definition moveToBack :: "nat \<Rightarrow> element list \<Rightarrow> element list" where
  "moveToBack i l =
     filter (\<lambda>p. fst p \<noteq> i) l @ (case map_of l i of Some e \<Rightarrow> [(i, e)] | None \<Rightarrow> [])"

text \<open>The size an entry is accounted with, \<^verbatim>\<open>len(key) + value.Len()\<close>.\<close>

definition entry_size :: "lruEntry \<Rightarrow> int" where
  "entry_size e = int (length (ekey e)) + Value_Len (evalue e)"

definition removeElement :: "nat \<Rightarrow> lruCache \<Rightarrow> lruCache" where
  "removeElement i c =
     (case map_of (elems c) i of
        None \<Rightarrow> c
      | Some entry \<Rightarrow>
          c\<lparr>elems := filter (\<lambda>p. fst p \<noteq> i) (elems c),
            items := gm_del (ekey entry) (items c),
            expires := gm_del (ekey entry) (expires c),
            usedBytes := usedBytes c - word_of_int (entry_size entry),
            evictLog := (if onEvicted c then evictLog c @ [(ekey entry, evalue entry)]
                         else evictLog c)\<rparr>)"

text \<open>
  \<^verbatim>\<open>evictLocked\<close>: first a sweep over the expiry map, then eviction from the front until the
  budget is met.
\<close>

fun expireSweep :: "time \<Rightarrow> (string \<times> time) list \<Rightarrow> lruCache \<Rightarrow> lruCache" where
  "expireSweep now [] c = c"
| "expireSweep now ((k, exp) # es) c =
     expireSweep now es
       (if \<not> now < exp
        then (case gm_get (items c) k of Some i \<Rightarrow> removeElement i c | None \<Rightarrow> c)
        else c)"

lemma length_filter_hd: "l \<noteq> [] \<Longrightarrow> length (filter (\<lambda>p. fst p \<noteq> fst (hd l)) l) < length l"
  by (cases l) (auto simp: le_imp_less_Suc)

lemma removeElement_hd_less:
  "elems c \<noteq> [] \<Longrightarrow> length (elems (removeElement (fst (hd (elems c))) c)) < length (elems c)"
  by (cases "elems c") (auto simp: removeElement_def length_filter_hd le_imp_less_Suc)

function evictLoop :: "lruCache \<Rightarrow> lruCache" where
  "evictLoop c =
     (if 0 < sint (maxBytes c) \<and> sint (maxBytes c) < sint (usedBytes c) \<and> elems c \<noteq> []
      then evictLoop (removeElement (fst (hd (elems c))) c)
      else c)"
  by pat_completeness auto
termination
  by (relation "measure (\<lambda>c. length (elems c))") (auto simp: removeElement_hd_less)

declare evictLoop.simps [simp del]

definition evictLocked :: "time \<Rightarrow> lruCache \<Rightarrow> lruCache" where
  "evictLocked now c = evictLoop (expireSweep now (expires c) c)"

definition lru_Get :: "time \<Rightarrow> string \<Rightarrow> lruCache \<Rightarrow> Value option \<times> lruCache" where
  "lru_Get now key c =
     (case gm_get (items c) key of
        None \<Rightarrow> (None, c)
      | Some i \<Rightarrow>
          (if (case gm_get (expires c) key of Some exp \<Rightarrow> \<not> now < exp | None \<Rightarrow> False)
           then (None, removeElement i c)
           else (map_option evalue (map_of (elems c) i), c\<lparr>elems := moveToBack i (elems c)\<rparr>)))"

definition lru_Delete :: "string \<Rightarrow> lruCache \<Rightarrow> bool \<times> lruCache" where
  "lru_Delete key c =
     (case gm_get (items c) key of
        Some i \<Rightarrow> (True, removeElement i c)
      | None \<Rightarrow> (False, c))"

text \<open>
  \<^verbatim>\<open>SetWithExpiration\<close> reads the clock once for the deadline (\<open>now\<close>) and once in
  \<^verbatim>\<open>evictLocked\<close> (\<open>now'\<close>). A nil value deletes. The Go method always returns a nil error.
\<close>

definition lru_SetWithExpiration ::
    "time \<Rightarrow> time \<Rightarrow> string \<Rightarrow> Value option \<Rightarrow> duration \<Rightarrow> lruCache \<Rightarrow> lruCache" where
  "lru_SetWithExpiration now now' key value expiration c =
     (case value of
        None \<Rightarrow> snd (lru_Delete key c)
      | Some v \<Rightarrow>
          (let c = c\<lparr>expires := (if expiration > 0 then gm_put key (now + expiration) (expires c)
                                else gm_del key (expires c))\<rparr>
           in case gm_get (items c) key of
                Some i \<Rightarrow>
                  (let old = map_option (Value_Len \<circ> evalue) (map_of (elems c) i);
                       c = c\<lparr>usedBytes := usedBytes c +
                               word_of_int (Value_Len v - (case old of Some n \<Rightarrow> n | None \<Rightarrow> 0)),
                             elems := moveToBack i
                               (map (\<lambda>(j, e). (j, if j = i then e\<lparr>evalue := v\<rparr> else e)) (elems c))\<rparr>
                   in evictLocked now' c)
              | None \<Rightarrow>
                  (let i = nextElem c;
                       entry = \<lparr>ekey = key, evalue = v\<rparr>;
                       c = c\<lparr>elems := elems c @ [(i, entry)],
                             nextElem := Suc i,
                             items := gm_put key i (items c),
                             usedBytes := usedBytes c + word_of_int (entry_size entry)\<rparr>
                   in evictLocked now' c)))"

definition lru_Set :: "time \<Rightarrow> time \<Rightarrow> string \<Rightarrow> Value option \<Rightarrow> lruCache \<Rightarrow> lruCache" where
  "lru_Set now now' key value c = lru_SetWithExpiration now now' key value 0 c"

definition lru_Clear :: "lruCache \<Rightarrow> lruCache" where
  "lru_Clear c =
     c\<lparr>evictLog := (if onEvicted c
          then evictLog c @ List.map_filter
                 (\<lambda>(k, i). map_option (\<lambda>e. (ekey e, evalue e)) (map_of (elems c) i)) (items c)
          else evictLog c),
       elems := [], items := [], expires := [], usedBytes := 0\<rparr>"

definition lru_Len :: "lruCache \<Rightarrow> nat" where
  "lru_Len c = length (elems c)"

definition lru_GetWithExpiration ::
    "time \<Rightarrow> string \<Rightarrow> lruCache \<Rightarrow> (Value \<times> duration) option \<times> lruCache" where
  "lru_GetWithExpiration now key c =
     (case gm_get (items c) key of
        None \<Rightarrow> (None, c)
      | Some i \<Rightarrow>
          (case gm_get (expires c) key of
             Some exp \<Rightarrow>
               (if \<not> now < exp then (None, removeElement i c)
                else (map_option (\<lambda>e. (evalue e, exp - now)) (map_of (elems c) i),
                      c\<lparr>elems := moveToBack i (elems c)\<rparr>))
           | None \<Rightarrow> (map_option (\<lambda>e. (evalue e, 0)) (map_of (elems c) i),
                      c\<lparr>elems := moveToBack i (elems c)\<rparr>)))"

section \<open>Background cleanup and shutdown\<close>

definition lru_cleanupExpired :: "time \<Rightarrow> lruCache \<Rightarrow> lruCache" where
  "lru_cleanupExpired now c = evictLocked now c"

text \<open>What the \<^verbatim>\<open>select\<close> of \<^verbatim>\<open>cleanupLoop\<close> receives: a tick of the timer or the close of the channel.\<close>

datatype signal = TickC time | CloseC

fun lru_cleanupLoop :: "signal list \<Rightarrow> lruCache \<Rightarrow> lruCache" where
  "lru_cleanupLoop [] c = c"
| "lru_cleanupLoop (TickC now # ss) c = lru_cleanupLoop ss (lru_cleanupExpired now c)"
| "lru_cleanupLoop (CloseC # ss) c = c"

definition lru_Close :: "lruCache \<Rightarrow> lruCache" where
  "lru_Close c =
     (if closeOnce c then c
      else c\<lparr>closeOnce := True, cleanupTicker := False, closedCh := True\<rparr>)"

end
