(* ===== verification/Lru_Correct.thy ===== *)
theory Lru_Correct
  imports Lru
begin

text \<open>
  Correctness of the LRU cache: the representation invariant that ties list, index, expiry map
  and byte counter together, its preservation by every operation, and the refinement of an
  abstract recency list by the concrete operations.
\<close>

section \<open>The representation invariant\<close>

definition index :: "element list \<Rightarrow> (string \<times> nat) list" where
  "index l = map (\<lambda>p. (ekey (snd p), fst p)) l"

definition keys :: "element list \<Rightarrow> string list" where
  "keys l = map (\<lambda>p. ekey (snd p)) l"

definition total :: "element list \<Rightarrow> int" where
  "total l = (\<Sum>p\<leftarrow>l. entry_size (snd p))"

text \<open>
  The expiry map may mention the key being stored (\<open>X\<close>) before its element exists.
\<close>

definition lru_wf :: "string set \<Rightarrow> lruCache \<Rightarrow> bool" where
  "lru_wf X c \<longleftrightarrow>
     distinct (map fst (elems c)) \<and> distinct (keys (elems c)) \<and>
     (\<forall>p\<in>set (elems c). fst p < nextElem c) \<and>
     gm_ok (items c) \<and> gm_ok (expires c) \<and>
     gm_get (items c) = map_of (index (elems c)) \<and>
     fst ` set (expires c) \<subseteq> set (keys (elems c)) \<union> X \<and>
     usedBytes c = word_of_int (total (elems c))"

abbreviation lru_inv :: "lruCache \<Rightarrow> bool" where
  "lru_inv \<equiv> lru_wf {}"

lemma keys_simps [simp]:
  "keys [] = []" "keys (p # l) = ekey (snd p) # keys l" "keys (l @ l') = keys l @ keys l'"
  by (simp_all add: keys_def)

lemma total_simps [simp]:
  "total [] = 0" "total (p # l) = entry_size (snd p) + total l" "total (l @ l') = total l + total l'"
  by (simp_all add: total_def)

lemma set_keys: "set (keys l) = (\<lambda>p. ekey (snd p)) ` set l"
  by (induction l) auto

lemma set_keys_filter [simp]:
  "set (keys (filter (\<lambda>p. ekey (snd p) \<notin> D) l)) = set (keys l) - D"
  "set (keys (filter (\<lambda>p. ekey (snd p) \<noteq> k) l)) = set (keys l) - {k}"
  by (auto simp: set_keys)

lemma keys_filter_distinct: "distinct (keys l) \<Longrightarrow> distinct (keys (filter P l))"
  by (induction l) (auto simp: set_keys)

lemma index_lookup:
  assumes "distinct (map fst l)" "distinct (keys l)"
  shows "map_of (index l) k = Some i \<longleftrightarrow> (\<exists>e. map_of l i = Some e \<and> ekey e = k)"
proof -
  have "map fst (index l) = keys l"
    by (simp add: index_def keys_def comp_def)
  with assms have "map_of (index l) k = Some i \<longleftrightarrow> (k, i) \<in> set (index l)"
    by simp
  also have "\<dots> \<longleftrightarrow> (\<exists>e. (i, e) \<in> set l \<and> ekey e = k)"
    by (force simp: index_def)
  finally show ?thesis using assms by simp
qed

lemma index_filter:
  assumes "distinct (keys l)"
  shows "map_of (index (filter (\<lambda>p. ekey (snd p) \<notin> D) l)) =
    (\<lambda>k. if k \<in> D then None else map_of (index l) k)"
  by (rule ext, induction l) (auto simp: index_def)

text \<open>Removing by identity is removing by key.\<close>

lemma filter_id_key:
  assumes "distinct (map fst l)" "distinct (keys l)" "map_of l i = Some e"
  shows "filter (\<lambda>p. fst p \<noteq> i) l = filter (\<lambda>p. ekey (snd p) \<notin> {ekey e}) l"
proof (rule filter_cong [OF refl])
  fix p assume p: "p \<in> set l"
  have "(i, e) \<in> set l" using assms(1,3) by simp
  moreover have "inj_on fst (set l)" "inj_on (\<lambda>p. ekey (snd p)) (set l)"
    using assms(1,2) by (auto simp: distinct_map keys_def)
  ultimately show "(fst p \<noteq> i) = (ekey (snd p) \<notin> {ekey e})"
    using p by (metis fst_conv inj_onD singleton_iff snd_conv)
qed

lemma total_filter_out:
  assumes "distinct (keys l)" "(i, e) \<in> set l"
  shows "total (filter (\<lambda>p. ekey (snd p) \<notin> {ekey e}) l) = total l - entry_size e"
  using assms
proof (induction l)
  case (Cons p l)
  show ?case
  proof (cases "p = (i, e)")
    case True
    with Cons.prems have "filter (\<lambda>p. ekey (snd p) \<notin> {ekey e}) l = l"
      by (intro filter_True) (auto simp: set_keys image_iff)
    with True show ?thesis by simp
  next
    case False
    with Cons show ?thesis by (auto simp: set_keys image_iff)
  qed
qed simp

section \<open>Removal\<close>

text \<open>The closed form of removing the elements of the keys in \<open>D\<close>, callbacks apart.\<close>

definition without :: "string set \<Rightarrow> lruCache \<Rightarrow> lruCache" where
  "without D c =
     c\<lparr>elems := filter (\<lambda>p. ekey (snd p) \<notin> D) (elems c),
       items := filter (\<lambda>p. fst p \<notin> D) (items c),
       expires := filter (\<lambda>p. fst p \<notin> D) (expires c),
       usedBytes := word_of_int (total (filter (\<lambda>p. ekey (snd p) \<notin> D) (elems c)))\<rparr>"

lemma gm_del_filter: "gm_del k m = filter (\<lambda>p. fst p \<notin> {k}) m"
  by (induction m) auto

lemma removeElement_without:
  assumes "lru_wf X c" "map_of (elems c) i = Some e"
  shows "removeElement i c = (without {ekey e} c)\<lparr>evictLog :=
    evictLog c @ (if onEvicted c then [(ekey e, evalue e)] else [])\<rparr>"
proof -
  from assms have "(i, e) \<in> set (elems c)" by (simp add: lru_wf_def)
  with assms have "usedBytes c - word_of_int (entry_size e) =
      word_of_int (total (filter (\<lambda>p. ekey (snd p) \<notin> {ekey e}) (elems c)))"
    by (subst total_filter_out) (auto simp: lru_wf_def)
  with assms filter_id_key [of "elems c" i e] show ?thesis
    by (simp add: removeElement_def without_def gm_del_filter lru_wf_def)
qed

lemma map_of_filter_key: "map_of (filter (\<lambda>p. fst p \<notin> D) m) = (\<lambda>k. if k \<in> D then None else map_of m k)"
  by (rule ext, induction m) auto

lemma without_wf:
  assumes "lru_wf X c"
  shows "lru_wf X (without D c)"
  using assms
  by (auto simp: lru_wf_def without_def keys_filter_distinct distinct_map_filter index_filter
      map_of_filter_key)

lemma without_without: "without D (without E c) = without (D \<union> E) c"
  by (simp add: without_def conj_commute conj_assoc Un_commute)

lemma lru_wf_evictLog [simp]: "lru_wf X (c\<lparr>evictLog := l\<rparr>) = lru_wf X c"
  by (simp add: lru_wf_def)

lemma removeElement_wf: "lru_wf X c \<Longrightarrow> lru_wf X (removeElement i c)"
proof (cases "map_of (elems c) i")
  case None
  moreover assume "lru_wf X c"
  ultimately show ?thesis by (simp add: removeElement_def)
next
  case (Some e)
  moreover assume "lru_wf X c"
  ultimately show ?thesis
    by (simp add: removeElement_without without_wf)
qed

lemma items_lookup:
  "lru_wf X c \<Longrightarrow> gm_get (items c) k = Some i \<longleftrightarrow> (\<exists>e. map_of (elems c) i = Some e \<and> ekey e = k)"
  by (simp add: lru_wf_def index_lookup)

lemma items_None: "lru_wf X c \<Longrightarrow> gm_get (items c) k = None \<longleftrightarrow> k \<notin> set (keys (elems c))"
  by (simp add: lru_wf_def map_of_eq_None_iff index_def keys_def image_image)

lemma removeElement_entry:
  assumes "lru_wf X c" "gm_get (items c) k = Some i"
  shows "\<exists>log. removeElement i c = (without {k} c)\<lparr>evictLog := log\<rparr>"
  using assms by (auto simp: items_lookup removeElement_without)

lemma filter_absent: "D \<inter> f ` set l = {} \<Longrightarrow> filter (\<lambda>p. f p \<notin> D) l = l"
  by (rule filter_True) blast

lemma without_absent:
  assumes "lru_inv c" "D \<inter> set (keys (elems c)) = {}"
  shows "without D c = c"
proof -
  have "fst ` set (items c) = set (keys (elems c))"
    using assms(1) items_None [of "{}" c] by (auto simp: map_of_eq_None_iff)
  with assms(2) have "filter (\<lambda>p. fst p \<notin> D) (items c) = items c"
    by (intro filter_absent) simp
  moreover have "filter (\<lambda>p. fst p \<notin> D) (expires c) = expires c"
    using assms by (intro filter_absent) (auto simp: lru_wf_def)
  moreover have "filter (\<lambda>p. ekey (snd p) \<notin> D) (elems c) = elems c"
    using assms(2) by (intro filter_absent) (simp add: set_keys)
  ultimately show ?thesis using assms(1) by (simp add: without_def lru_wf_def)
qed

lemma without_evictLog [simp]: "without D (c\<lparr>evictLog := l\<rparr>) = (without D c)\<lparr>evictLog := l\<rparr>"
  by (simp add: without_def)

section \<open>The expiry sweep\<close>

definition dead :: "time \<Rightarrow> (string \<times> time) list \<Rightarrow> string set" where
  "dead now es = {k. \<exists>exp. (k, exp) \<in> set es \<and> \<not> now < exp}"

lemma dead_Cons: "dead now ((k, exp) # es) = (if \<not> now < exp then {k} else {}) \<union> dead now es"
  by (auto simp: dead_def)

lemma expireSweep_without:
  "lru_inv c \<Longrightarrow> \<exists>log. expireSweep now es c = (without (dead now es) c)\<lparr>evictLog := log\<rparr>"
proof (induction now es c rule: expireSweep.induct)
  case (1 now c)
  then show ?case
    by (intro exI [of _ "evictLog c"]) (simp add: dead_def without_absent)
next
  case (2 now k exp es c)
  define c' where "c' = (if \<not> now < exp
    then (case gm_get (items c) k of Some i \<Rightarrow> removeElement i c | None \<Rightarrow> c) else c)"
  have "\<exists>log. c' = (without (if \<not> now < exp then {k} else {}) c)\<lparr>evictLog := log\<rparr>"
  proof (cases "\<not> now < exp \<and> gm_get (items c) k \<noteq> None")
    case True
    with 2 show ?thesis using removeElement_entry [of "{}" c k] by (auto simp: c'_def)
  next
    case False
    then have "c' = c" by (auto simp: c'_def)
    moreover have "without (if \<not> now < exp then {k} else {}) c = c"
      using False "2.prems" by (intro without_absent) (auto simp: items_None)
    ultimately show ?thesis by (intro exI [of _ "evictLog c"]) simp
  qed
  then obtain log where c': "c' = (without (if \<not> now < exp then {k} else {}) c)\<lparr>evictLog := log\<rparr>" ..
  have "lru_inv c'" unfolding c' using "2.prems" by (simp only: lru_wf_evictLog without_wf)
  then obtain log' where "expireSweep now es c' = (without (dead now es) c')\<lparr>evictLog := log'\<rparr>"
    using "2.IH" unfolding c'_def by blast
  then show ?case
    unfolding expireSweep.simps c'_def [symmetric] unfolding c'
    by (simp only: without_evictLog without_without dead_Cons Un_commute) auto
qed

text \<open>The order in which \<^verbatim>\<open>range\<close> visits the expiry map has no effect on what the sweep leaves.\<close>

lemma expireSweep_order:
  assumes "lru_inv c" "mset es = mset (expires c)"
  shows "(expireSweep now es c)\<lparr>evictLog := []\<rparr> = (expireSweep now (expires c) c)\<lparr>evictLog := []\<rparr>"
proof -
  have "set es = set (expires c)" by (rule mset_eq_setD [OF assms(2)])
  then have "dead now es = dead now (expires c)" by (simp add: dead_def)
  moreover obtain log log' where
    "expireSweep now es c = (without (dead now es) c)\<lparr>evictLog := log\<rparr>"
    "expireSweep now (expires c) c = (without (dead now (expires c)) c)\<lparr>evictLog := log'\<rparr>"
    using expireSweep_without [OF assms(1)] by blast
  ultimately show ?thesis by simp
qed

section \<open>The abstract recency list\<close>

type_synonym alru = "(string \<times> Value \<times> time option) list"

definition absl :: "lruCache \<Rightarrow> alru" where
  "absl c = map (\<lambda>p. (ekey (snd p), evalue (snd p), gm_get (expires c) (ekey (snd p)))) (elems c)"

fun live :: "time \<Rightarrow> string \<times> Value \<times> time option \<Rightarrow> bool" where
  "live now (k, v, None) = True"
| "live now (k, v, Some exp) = (now < exp)"

fun a_size :: "string \<times> Value \<times> time option \<Rightarrow> int" where
  "a_size (k, v, x) = int (length k) + Value_Len v"

definition a_total :: "alru \<Rightarrow> int" where
  "a_total l = (\<Sum>p\<leftarrow>l. a_size p)"

definition a_del :: "string \<Rightarrow> alru \<Rightarrow> alru" where
  "a_del k l = filter (\<lambda>p. fst p \<noteq> k) l"

text \<open>Eviction drops from the old end until the budget \<open>m\<close> is met; no positive budget is no limit.\<close>

fun a_trim :: "int \<Rightarrow> alru \<Rightarrow> alru" where
  "a_trim m [] = []"
| "a_trim m (p # l) = (if 0 < m \<and> m < a_total (p # l) then a_trim m l else p # l)"

definition a_evict :: "time \<Rightarrow> int \<Rightarrow> alru \<Rightarrow> alru" where
  "a_evict now m l = a_trim m (filter (live now) l)"

definition a_get :: "time \<Rightarrow> string \<Rightarrow> alru \<Rightarrow> Value option \<times> alru" where
  "a_get now k l =
     (case map_of l k of
        None \<Rightarrow> (None, l)
      | Some (v, x) \<Rightarrow> if live now (k, v, x) then (Some v, a_del k l @ [(k, v, x)]) else (None, a_del k l))"

definition a_put :: "time \<Rightarrow> string \<Rightarrow> Value \<Rightarrow> duration \<Rightarrow> alru \<Rightarrow> alru" where
  "a_put now k v d l = a_del k l @ [(k, v, if d > 0 then Some (now + d) else None)]"

definition a_set :: "time \<Rightarrow> time \<Rightarrow> int \<Rightarrow> string \<Rightarrow> Value \<Rightarrow> duration \<Rightarrow> alru \<Rightarrow> alru" where
  "a_set now now' m k v d l = a_evict now' m (a_put now k v d l)"

lemma absl_evictLog [simp]: "absl (c\<lparr>evictLog := l\<rparr>) = absl c"
  by (simp add: absl_def)

lemma absl_without: "absl (without D c) = filter (\<lambda>p. fst p \<notin> D) (absl c)"
  by (simp add: absl_def without_def filter_map comp_def map_of_filter_key)

lemma a_total_absl: "a_total (absl c) = total (elems c)"
  by (simp add: a_total_def absl_def total_def comp_def entry_size_def)

lemma absl_keys: "map fst (absl c) = keys (elems c)"
  by (simp add: absl_def keys_def)

lemma absl_expiry:
  assumes "lru_wf X c" "(k, v, x) \<in> set (absl c)"
  shows "x = gm_get (expires c) k"
  using assms(2) by (auto simp: absl_def)

lemma dead_iff:
  assumes "lru_wf X c" "p \<in> set (absl c)"
  shows "fst p \<notin> dead now (expires c) \<longleftrightarrow> live now p"
proof -
  obtain k v x where p: "p = (k, v, x)" by (cases p)
  have "gm_ok (expires c)" using assms(1) by (simp add: lru_wf_def)
  then have "k \<in> dead now (expires c) \<longleftrightarrow> (\<exists>exp. gm_get (expires c) k = Some exp \<and> \<not> now < exp)"
    by (simp add: dead_def)
  with absl_expiry [OF assms(1)] assms(2) show ?thesis
    unfolding p by (cases x) auto
qed

lemma absl_expireSweep:
  assumes "lru_inv c"
  shows "absl (expireSweep now (expires c) c) = filter (live now) (absl c)"
proof -
  have "filter (\<lambda>p. fst p \<notin> dead now (expires c)) (absl c) = filter (live now) (absl c)"
    using dead_iff [OF assms] by (rule filter_cong [OF refl])
  moreover obtain log where
    "expireSweep now (expires c) c = (without (dead now (expires c)) c)\<lparr>evictLog := log\<rparr>"
    using expireSweep_without [OF assms] by blast
  ultimately show ?thesis by (simp add: absl_without)
qed

section \<open>Eviction\<close>

text \<open>
  The byte counter is a 64-bit integer. It agrees with the sizes stored as long as these are
  non-negative and sum up to less than \<open>2 ^ 63\<close>, which memory enforces.
\<close>

definition sized :: "alru \<Rightarrow> bool" where
  "sized l \<longleftrightarrow> (\<forall>p\<in>set l. 0 \<le> a_size p) \<and> a_total l < 2 ^ 63"

lemma a_total_simps [simp]:
  "a_total [] = 0" "a_total (p # l) = a_size p + a_total l" "a_total (l @ l') = a_total l + a_total l'"
  by (simp_all add: a_total_def)

lemma a_total_nonneg: "(\<And>p. p \<in> set l \<Longrightarrow> 0 \<le> a_size p) \<Longrightarrow> 0 \<le> a_total l"
  by (induction l) auto

lemma sized_Cons: "sized (p # l) \<Longrightarrow> sized l"
  by (auto simp: sized_def)

lemma a_total_filter: "\<forall>p\<in>set l. 0 \<le> a_size p \<Longrightarrow> a_total (filter P l) \<le> a_total l"
  by (induction l) (simp_all del: a_size.simps)

lemma sized_filter: "sized l \<Longrightarrow> sized (filter P l)"
  using a_total_filter [of l P] by (auto simp: sized_def)

lemma sint_of_small: "0 \<le> t \<Longrightarrow> t < 2 ^ 63 \<Longrightarrow> sint (word_of_int t :: int64) = t"
  by (simp add: signed_of_int signed_take_bit_int_eq_self)

lemma usedBytes_total: "lru_wf X c \<Longrightarrow> sized (absl c) \<Longrightarrow> sint (usedBytes c) = a_total (absl c)"
  using a_total_nonneg [of "absl c"]
  by (simp add: lru_wf_def sized_def sint_of_small a_total_absl)

lemma removeElement_fields [simp]:
  "maxBytes (removeElement i c) = maxBytes c" "onEvicted (removeElement i c) = onEvicted c"
  "nextElem (removeElement i c) = nextElem c" "closedCh (removeElement i c) = closedCh c"
  by (simp_all add: removeElement_def split: option.split)

lemma absl_removeElement_hd:
  assumes "lru_wf X c" "elems c \<noteq> []"
  shows "absl (removeElement (fst (hd (elems c))) c) = tl (absl c)"
proof -
  obtain i e l where l: "elems c = (i, e) # l" using assms(2) by (cases "elems c") auto
  with assms(1) have "ekey e \<notin> set (keys l)" by (simp add: lru_wf_def)
  then have "filter (\<lambda>p. fst p \<notin> {ekey e}) (tl (absl c)) = tl (absl c)"
    by (intro filter_absent) (simp add: l absl_def set_keys image_image)
  with l show ?thesis
    by (simp add: removeElement_without [OF assms(1)] absl_without) (simp add: absl_def l)
qed

lemma evictLoop_wf: "lru_wf X c \<Longrightarrow> lru_wf X (evictLoop c)"
proof (induction c rule: evictLoop.induct)
  case (1 c)
  then show ?case by (subst evictLoop.simps) (auto simp: removeElement_wf)
qed

lemma absl_evictLoop:
  "lru_wf X c \<Longrightarrow> sized (absl c) \<Longrightarrow> absl (evictLoop c) = a_trim (sint (maxBytes c)) (absl c)"
proof (induction c rule: evictLoop.induct)
  case (1 c)
  show ?case
  proof (cases "absl c")
    case Nil
    then have "elems c = []" by (simp add: absl_def)
    with Nil show ?thesis by (simp add: evictLoop.simps [of c])
  next
    case (Cons p l)
    then have ne: "elems c \<noteq> []" by (auto simp: absl_def)
    note used = usedBytes_total [OF "1.prems"]
    note hd = absl_removeElement_hd [OF "1.prems"(1) ne]
    show ?thesis
    proof (cases "0 < sint (maxBytes c) \<and> sint (maxBytes c) < sint (usedBytes c)")
      case True
      with ne "1.IH" "1.prems" have "absl (evictLoop (removeElement (fst (hd (elems c))) c)) =
          a_trim (sint (maxBytes c)) l"
        using Cons hd sized_Cons by (simp add: removeElement_wf)
      with True ne Cons used show ?thesis by (simp add: evictLoop.simps [of c])
    next
      case False
      with Cons used show ?thesis by (auto simp: evictLoop.simps [of c])
    qed
  qed
qed

lemma expireSweep_fields:
  "maxBytes (expireSweep now es c) = maxBytes c" "onEvicted (expireSweep now es c) = onEvicted c"
  by (induction now es c rule: expireSweep.induct) (auto split: option.split)

lemma expireSweep_wf: "lru_inv c \<Longrightarrow> lru_inv (expireSweep now es c)"
  using expireSweep_without [of c now es] by (metis lru_wf_evictLog without_wf)

lemma evictLocked_wf: "lru_inv c \<Longrightarrow> lru_inv (evictLocked now c)"
  by (simp add: evictLocked_def evictLoop_wf expireSweep_wf)

lemma absl_evictLocked:
  "lru_inv c \<Longrightarrow> sized (absl c) \<Longrightarrow> absl (evictLocked now c) = a_evict now (sint (maxBytes c)) (absl c)"
  by (simp add: evictLocked_def a_evict_def absl_evictLoop [where X = "{}"] expireSweep_wf
      absl_expireSweep sized_filter expireSweep_fields)

lemma evictLoop_maxBytes [simp]: "maxBytes (evictLoop c) = maxBytes c"
proof (induction c rule: evictLoop.induct)
  case (1 c)
  then show ?case by (subst evictLoop.simps) simp
qed

lemma evictLocked_maxBytes [simp]: "maxBytes (evictLocked now c) = maxBytes c"
  by (simp add: evictLocked_def expireSweep_fields)

section \<open>Operations\<close>

lemma map_of_map_snd: "map_of (map (\<lambda>(j, e). (j, f j e)) l) i = map_option (f i) (map_of l i)"
  by (induction l) auto

lemma moveToBack_update:
  assumes "distinct (map fst l)" "distinct (keys l)" "map_of l i = Some e"
  shows "moveToBack i (map (\<lambda>(j, e'). (j, if j = i then e'\<lparr>evalue := v\<rparr> else e')) l) =
    filter (\<lambda>p. ekey (snd p) \<notin> {ekey e}) l @ [(i, e\<lparr>evalue := v\<rparr>)]"
proof -
  have "filter (\<lambda>p. fst p \<noteq> i) (map (\<lambda>(j, e'). (j, if j = i then e'\<lparr>evalue := v\<rparr> else e')) l) =
      filter (\<lambda>p. fst p \<noteq> i) l"
    by (induction l) auto
  with assms show ?thesis
    by (simp add: moveToBack_def map_of_map_snd [of "\<lambda>j e'. if j = i then e'\<lparr>evalue := v\<rparr> else e'"]
        filter_id_key)
qed

lemma moveToBack_key:
  assumes "distinct (map fst l)" "distinct (keys l)" "map_of l i = Some e"
  shows "moveToBack i l = filter (\<lambda>p. ekey (snd p) \<notin> {ekey e}) l @ [(i, e)]"
  using assms by (simp add: moveToBack_def filter_id_key)

lemma store_wf:
  assumes inv: "lru_inv c"
    and elems: "elems c' = filter (\<lambda>p. ekey (snd p) \<notin> {k}) (elems c) @ [(i, n)]" "ekey n = k"
    and ids: "i < nextElem c'" "nextElem c \<le> nextElem c'"
      "\<And>p. p \<in> set (elems c) \<Longrightarrow> fst p = i \<Longrightarrow> ekey (snd p) = k"
    and items: "gm_ok (items c')" "gm_get (items c') = (gm_get (items c))(k \<mapsto> i)"
    and expires: "gm_ok (expires c')" "fst ` set (expires c') \<subseteq> insert k (set (keys (elems c)))"
    and used: "usedBytes c' = word_of_int (total (elems c'))"
  shows "lru_inv c'"
proof -
  have "distinct (map fst (elems c'))"
    using inv ids(3) by (auto simp: elems lru_wf_def distinct_map_filter)
  moreover have "distinct (keys (elems c'))"
    using inv by (auto simp: elems lru_wf_def keys_filter_distinct set_keys)
  moreover have "gm_get (items c') = map_of (index (elems c'))"
  proof -
    have "index (elems c') = index (filter (\<lambda>p. ekey (snd p) \<notin> {k}) (elems c)) @ [(k, i)]"
      by (simp add: elems index_def)
    moreover have "map_of (index (filter (\<lambda>p. ekey (snd p) \<notin> {k}) (elems c))) =
        (map_of (index (elems c)))(k := None)"
      using inv by (subst index_filter) (auto simp: lru_wf_def)
    ultimately show ?thesis
      using inv by (auto simp: items(2) lru_wf_def map_add_def fun_eq_iff split: option.split)
  qed
  moreover have "fst p < nextElem c'" if "p \<in> set (elems c')" for p
    using that inv ids by (auto simp: elems lru_wf_def)
  ultimately show ?thesis
    using items expires used elems by (auto simp: lru_wf_def)
qed

text \<open>
  Storing a value puts the entry at the new end with its deadline, then evicts.
\<close>

lemma lru_Set_shape:
  assumes inv: "lru_inv c"
  obtains c' where "lru_SetWithExpiration now now' k (Some v) d c = evictLocked now' c'"
    "lru_inv c'" "absl c' = a_put now k v d (absl c)"
    "maxBytes c' = maxBytes c" "onEvicted c' = onEvicted c" "evictLog c' = evictLog c"
proof -
  define es where "es = (if d > 0 then gm_put k (now + d) (expires c) else gm_del k (expires c))"
  have es: "gm_ok es" "gm_get es = (gm_get (expires c))(k := if d > 0 then Some (now + d) else None)"
    "fst ` set es \<subseteq> insert k (set (keys (elems c)))"
    using inv by (auto simp: es_def gomap_simps lru_wf_def)
  have other: "map (\<lambda>p. (ekey (snd p), evalue (snd p), gm_get es (ekey (snd p))))
      (filter (\<lambda>p. ekey (snd p) \<notin> {k}) (elems c)) = a_del k (absl c)"
    by (simp add: a_del_def absl_def filter_map comp_def es(2))
  show thesis
  proof (cases "gm_get (items c) k")
    case (Some i)
    then obtain e where e: "map_of (elems c) i = Some e" "ekey e = k"
      using inv by (auto simp: items_lookup)
    let ?c = "c\<lparr>expires := es, usedBytes := usedBytes c + word_of_int (Value_Len v - Value_Len (evalue e)),
      elems := filter (\<lambda>p. ekey (snd p) \<notin> {k}) (elems c) @ [(i, e\<lparr>evalue := v\<rparr>)]\<rparr>"
    have mem: "(i, e) \<in> set (elems c)" using e inv by (simp add: lru_wf_def)
    have "lru_SetWithExpiration now now' k (Some v) d c = evictLocked now' ?c"
      using inv e Some moveToBack_update [of "elems c" i e v]
      by (simp add: lru_SetWithExpiration_def Let_def es_def lru_wf_def)
    moreover have "lru_inv ?c"
    proof (rule store_wf [OF inv, of _ k i "e\<lparr>evalue := v\<rparr>"])
      show "usedBytes ?c = word_of_int (total (elems ?c))"
        using inv total_filter_out [OF _ mem] e
        by (simp add: lru_wf_def entry_size_def algebra_simps flip: of_int_add)
      show "p \<in> set (elems c) \<Longrightarrow> fst p = i \<Longrightarrow> ekey (snd p) = k" for p
        using inv e map_of_eq_Some_iff [of "elems c" i "snd p"] by (cases p) (auto simp: lru_wf_def)
    qed (use inv e mem es Some in \<open>auto simp: lru_wf_def fun_upd_idem\<close>)
    ultimately show ?thesis
      using e other by (intro that [of ?c]) (auto simp: a_put_def absl_def es(2))
  next
    case None
    let ?c = "c\<lparr>expires := es, elems := elems c @ [(nextElem c, \<lparr>ekey = k, evalue = v\<rparr>)],
      nextElem := Suc (nextElem c), items := gm_put k (nextElem c) (items c),
      usedBytes := usedBytes c + word_of_int (entry_size \<lparr>ekey = k, evalue = v\<rparr>)\<rparr>"
    have nk: "k \<notin> set (keys (elems c))" using None inv by (simp add: items_None)
    have "lru_SetWithExpiration now now' k (Some v) d c = evictLocked now' ?c"
      using None by (simp add: lru_SetWithExpiration_def Let_def es_def)
    moreover have all: "filter (\<lambda>p. ekey (snd p) \<notin> {k}) (elems c) = elems c"
      using nk by (intro filter_absent) (simp add: set_keys)
    moreover have "lru_inv ?c"
      by (rule store_wf [OF inv, of _ k "nextElem c" "\<lparr>ekey = k, evalue = v\<rparr>"])
        (use inv es all in \<open>auto simp: lru_wf_def gomap_simps\<close>)
    ultimately show ?thesis
      using other by (intro that [of ?c]) (auto simp: a_put_def absl_def es(2))
  qed
qed

lemma map_of_absl:
  assumes "lru_wf X c"
  shows "map_of (absl c) k = (case gm_get (items c) k of None \<Rightarrow> None
    | Some i \<Rightarrow> map_option (\<lambda>e. (evalue e, gm_get (expires c) k)) (map_of (elems c) i))"
proof (cases "gm_get (items c) k")
  case None
  with assms have "k \<notin> set (map fst (absl c))"
    by (simp only: absl_keys) (simp add: items_None)
  then have "map_of (absl c) k = None"
    by (simp add: map_of_eq_None_iff)
  with None show ?thesis by simp
next
  case (Some i)
  then obtain e where e: "map_of (elems c) i = Some e" "ekey e = k"
    using assms by (auto simp: items_lookup)
  then have "(i, e) \<in> set (elems c)" using assms by (simp add: lru_wf_def)
  then have "(k, evalue e, gm_get (expires c) k) \<in> set (absl c)"
    using e by (force simp: absl_def)
  moreover have "distinct (map fst (absl c))"
    using assms by (simp add: absl_keys lru_wf_def)
  ultimately show ?thesis using Some e by simp
qed

lemma absl_moveToBack:
  assumes "lru_wf X c" "gm_get (items c) k = Some i" "map_of (absl c) k = Some (v, x)"
  shows "absl (c\<lparr>elems := moveToBack i (elems c)\<rparr>) = a_del k (absl c) @ [(k, v, x)]"
proof -
  obtain e where e: "map_of (elems c) i = Some e" "ekey e = k"
    using assms by (auto simp: items_lookup)
  with assms have vx: "v = evalue e" "x = gm_get (expires c) k" by (auto simp: map_of_absl)
  have "moveToBack i (elems c) = filter (\<lambda>p. ekey (snd p) \<notin> {k}) (elems c) @ [(i, e)]"
    using moveToBack_key assms(1) e by (simp add: lru_wf_def)
  then show ?thesis
    by (simp add: absl_def a_del_def filter_map comp_def vx e)
qed

lemma moveToBack_wf:
  assumes "lru_inv c" "gm_get (items c) k = Some i"
  shows "lru_inv (c\<lparr>elems := moveToBack i (elems c)\<rparr>)"
proof -
  obtain e where e: "map_of (elems c) i = Some e" "ekey e = k"
    using assms by (auto simp: items_lookup)
  have mem: "(i, e) \<in> set (elems c)" using assms e by (simp add: lru_wf_def)
  have mv: "moveToBack i (elems c) = filter (\<lambda>p. ekey (snd p) \<notin> {k}) (elems c) @ [(i, e)]"
    using moveToBack_key assms(1) e by (simp add: lru_wf_def)
  show ?thesis
  proof (rule store_wf [OF assms(1), of _ k i e])
    show "p \<in> set (elems c) \<Longrightarrow> fst p = i \<Longrightarrow> ekey (snd p) = k" for p
      using assms e map_of_eq_Some_iff [of "elems c" i "snd p"] by (cases p) (auto simp: lru_wf_def)
    show "usedBytes (c\<lparr>elems := moveToBack i (elems c)\<rparr>) =
        word_of_int (total (elems (c\<lparr>elems := moveToBack i (elems c)\<rparr>)))"
      using assms(1) total_filter_out [OF _ mem] e by (simp add: mv lru_wf_def)
  qed (use assms e mem mv in \<open>auto simp: lru_wf_def fun_upd_idem\<close>)
qed

lemma absl_removeElement:
  assumes "lru_wf X c" "gm_get (items c) k = Some i"
  shows "absl (removeElement i c) = a_del k (absl c)"
  using removeElement_entry [OF assms] by (auto simp: absl_without a_del_def)

lemma lru_Get_refines:
  assumes "lru_inv c"
  shows "fst (lru_Get now k c) = fst (a_get now k (absl c)) \<and>
    absl (snd (lru_Get now k c)) = snd (a_get now k (absl c))"
proof (cases "gm_get (items c) k")
  case None
  with map_of_absl [OF assms, of k] show ?thesis by (simp add: lru_Get_def a_get_def)
next
  case (Some i)
  then obtain e where e: "map_of (elems c) i = Some e" "ekey e = k"
    using assms by (auto simp: items_lookup)
  with Some map_of_absl [OF assms, of k]
  have "map_of (absl c) k = Some (evalue e, gm_get (expires c) k)" by simp
  then show ?thesis
    using Some e absl_moveToBack [OF assms Some] absl_removeElement [OF assms Some]
    by (auto simp: lru_Get_def a_get_def split: option.split)
qed

lemma lru_Get_wf: "lru_inv c \<Longrightarrow> lru_inv (snd (lru_Get now k c))"
  by (auto simp: lru_Get_def removeElement_wf moveToBack_wf split: option.split)

lemma lru_Delete_wf: "lru_inv c \<Longrightarrow> lru_inv (snd (lru_Delete k c))"
  by (auto simp: lru_Delete_def removeElement_wf split: option.split)

lemma lru_Delete_refines:
  assumes "lru_inv c"
  shows "fst (lru_Delete k c) = (map_of (absl c) k \<noteq> None)"
    "absl (snd (lru_Delete k c)) = a_del k (absl c)"
proof -
  show "fst (lru_Delete k c) = (map_of (absl c) k \<noteq> None)"
  proof (cases "gm_get (items c) k")
    case (Some i)
    then obtain e where "map_of (elems c) i = Some e" using items_lookup [OF assms] by blast
    with Some map_of_absl [OF assms, of k] show ?thesis by (simp add: lru_Delete_def)
  qed (simp add: lru_Delete_def map_of_absl [OF assms])
  show "absl (snd (lru_Delete k c)) = a_del k (absl c)"
  proof (cases "gm_get (items c) k")
    case None
    then have "map_of (absl c) k = None" using map_of_absl [OF assms, of k] by simp
    then have "filter (\<lambda>p. fst p \<noteq> k) (absl c) = absl c"
      by (intro filter_True) (auto simp: map_of_eq_None_iff)
    with None show ?thesis by (simp add: lru_Delete_def a_del_def)
  next
    case (Some i)
    then show ?thesis using absl_removeElement [OF assms Some] by (simp add: lru_Delete_def)
  qed
qed

lemma lru_Set_wf: "lru_inv c \<Longrightarrow> lru_inv (lru_SetWithExpiration now now' k v d c)"
proof (cases v)
  case None
  moreover assume "lru_inv c"
  ultimately show ?thesis by (simp add: lru_SetWithExpiration_def lru_Delete_wf)
next
  case (Some v')
  assume "lru_inv c"
  then obtain c' where "lru_SetWithExpiration now now' k (Some v') d c = evictLocked now' c'" "lru_inv c'"
    by (rule lru_Set_shape)
  then show ?thesis by (simp add: Some evictLocked_wf)
qed

lemma lru_Set_refines:
  assumes "lru_inv c" "sized (a_del k (absl c) @ [(k, v, None)])"
  shows "absl (lru_SetWithExpiration now now' k (Some v) d c) =
    a_set now now' (sint (maxBytes c)) k v d (absl c)"
proof -
  obtain c' where c': "lru_SetWithExpiration now now' k (Some v) d c = evictLocked now' c'" "lru_inv c'"
    "absl c' = a_put now k v d (absl c)" "maxBytes c' = maxBytes c"
    by (rule lru_Set_shape [OF assms(1)])
  moreover have "sized (absl c')" using assms(2) c'(3) by (auto simp: sized_def a_put_def)
  ultimately show ?thesis by (simp add: absl_evictLocked a_set_def)
qed

lemma lru_Clear_refines: "absl (lru_Clear c) = []" "lru_inv c \<Longrightarrow> lru_inv (lru_Clear c)"
  by (simp_all add: lru_Clear_def absl_def lru_wf_def index_def)

lemma lru_Len_refines: "lru_Len c = length (absl c)"
  by (simp add: lru_Len_def absl_def)

section \<open>What eviction keeps\<close>

text \<open>
  What survives is the longest suffix of the recency list that meets the budget.
\<close>

lemma a_trim_longest:
  assumes "0 < m"
  shows "\<exists>n. a_trim m l = drop n l \<and> a_total (drop n l) \<le> m \<and> (\<forall>j<n. m < a_total (drop j l))"
proof (induction l)
  case Nil
  with assms show ?case by (intro exI [of _ 0]) simp
next
  case (Cons p l)
  then obtain n where n: "a_trim m l = drop n l" "a_total (drop n l) \<le> m"
    "\<forall>j<n. m < a_total (drop j l)" by blast
  show ?case
  proof (cases "m < a_total (p # l)")
    case True
    with n assms show ?thesis
      by (intro exI [of _ "Suc n"]) (auto simp: less_Suc_eq_0_disj)
  next
    case False
    then show ?thesis by (intro exI [of _ 0]) simp
  qed
qed

lemma a_trim_unlimited: "\<not> 0 < m \<Longrightarrow> a_trim m l = l"
  by (cases l) auto

lemma a_trim_subset: "set (a_trim m l) \<subseteq> set l"
  using a_trim_longest [of m l] a_trim_unlimited [of m l] by (metis set_drop_subset order_refl)

lemma a_trim_distinct: "distinct (map fst l) \<Longrightarrow> distinct (map fst (a_trim m l))"
  by (induction m l rule: a_trim.induct) auto

lemma a_trim_last: "m \<le> 0 \<or> a_size q \<le> m \<Longrightarrow> q \<in> set (a_trim m (l @ [q]))"
  by (induction l) auto

lemma a_set_mem:
  assumes "m \<le> 0 \<or> int (length k) + Value_Len v \<le> m" "d \<le> 0 \<or> now' < now + d"
  shows "(k, v, if d > 0 then Some (now + d) else None) \<in> set (a_set now now' m k v d l)"
proof -
  let ?q = "(k, v, if d > 0 then Some (now + d) else None)"
  have "live now' ?q" using assms(2) by auto
  then have "filter (live now') (a_put now k v d l) = filter (live now') (a_del k l) @ [?q]" by (simp add: a_put_def)
  moreover have "?q \<in> set (a_trim m (filter (live now') (a_del k l) @ [?q]))"
    by (rule a_trim_last) (use assms(1) in simp)
  ultimately show ?thesis by (simp only: a_set_def a_evict_def)
qed

lemma absl_distinct: "lru_wf X c \<Longrightarrow> distinct (map fst (absl c))"
  by (simp add: absl_keys lru_wf_def)

lemma a_set_distinct: "distinct (map fst l) \<Longrightarrow> distinct (map fst (a_set now now' m k v d l))"
  unfolding a_set_def a_evict_def
  by (intro a_trim_distinct) (auto simp: a_put_def a_del_def distinct_map_filter)

text \<open>C7. Set refines the abstract store: the entry becomes the newest, expired entries go, and of the
  rest the longest newest part that meets the budget stays; without a budget all of it stays.\<close>

theorem lru_Set_keeps_newest:
  assumes "lru_inv c" "sized (a_del k (absl c) @ [(k, v, None)])"
  shows "\<exists>n. let l = filter (live now') (a_put now k v d (absl c)); m = sint (maxBytes c) in
    absl (lru_SetWithExpiration now now' k (Some v) d c) = drop n l \<and>
    (if 0 < m then a_total (drop n l) \<le> m \<and> (\<forall>j<n. m < a_total (drop j l)) else n = 0)"
proof -
  let ?l = "filter (live now') (a_put now k v d (absl c))" and ?m = "sint (maxBytes c)"
  have "absl (lru_SetWithExpiration now now' k (Some v) d c) = a_trim ?m ?l"
    using lru_Set_refines [OF assms] by (simp only: a_set_def a_evict_def)
  moreover have "\<exists>n. a_trim ?m ?l = drop n ?l \<and>
    (if 0 < ?m then a_total (drop n ?l) \<le> ?m \<and> (\<forall>j<n. ?m < a_total (drop j ?l)) else n = 0)"
    using a_trim_longest [of ?m ?l] a_trim_unlimited [of ?m ?l] by (cases "0 < ?m") auto
  ultimately show ?thesis unfolding Let_def by metis
qed

text \<open>A value stored is read back until its deadline, when it fits the budget by itself.\<close>

lemma lru_Set_Get:
  assumes inv: "lru_inv c" and sized: "sized (a_del k (absl c) @ [(k, v, None)])"
    and fits: "sint (maxBytes c) \<le> 0 \<or> int (length k) + Value_Len v \<le> sint (maxBytes c)"
    and times: "now' \<le> t" "d \<le> 0 \<or> t < now + d"
  shows "fst (lru_Get t k (lru_SetWithExpiration now now' k (Some v) d c)) = Some v"
proof -
  let ?c = "lru_SetWithExpiration now now' k (Some v) d c"
  let ?x = "if d > 0 then Some (now + d) else None"
  have "(k, v, ?x) \<in> set (absl ?c)"
    unfolding lru_Set_refines [OF inv sized] by (rule a_set_mem) (use fits times in auto)
  moreover have "distinct (map fst (absl ?c))"
    by (rule absl_distinct [OF lru_Set_wf [OF inv]])
  ultimately have "map_of (absl ?c) k = Some (v, ?x)" by simp
  moreover have "live t (k, v, ?x)" using times by auto
  ultimately show ?thesis
    using lru_Get_refines [OF lru_Set_wf [OF inv]] by (simp add: a_get_def)
qed

section \<open>Eviction callbacks\<close>

text \<open>
  Entries reported to the callback so far, together with the entries still held.
\<close>

definition ledger :: "lruCache \<Rightarrow> (string \<times> Value) multiset" where
  "ledger c = mset (evictLog c) + mset (map (\<lambda>p. (ekey (snd p), evalue (snd p))) (elems c))"

lemma mset_filter_id:
  assumes "distinct (map fst l)" "map_of l i = Some e"
  shows "mset l = add_mset (i, e) (mset (filter (\<lambda>p. fst p \<noteq> i) l))"
  using assms
proof (induction l)
  case (Cons p l)
  then show ?case
    using filter_absent [of "{i}" fst l] by (cases "fst p = i") (auto simp flip: mset_filter)
qed simp

lemma removeElement_ledger:
  assumes "lru_wf X c" "onEvicted c"
  shows "ledger (removeElement i c) = ledger c"
proof (cases "map_of (elems c) i")
  case (Some e)
  have "mset (map (\<lambda>p. (ekey (snd p), evalue (snd p))) (elems c)) =
      add_mset (ekey e, evalue e) (mset (map (\<lambda>p. (ekey (snd p), evalue (snd p)))
        (filter (\<lambda>p. fst p \<noteq> i) (elems c))))"
    using arg_cong [OF mset_filter_id [OF _ Some], of "image_mset (\<lambda>p. (ekey (snd p), evalue (snd p)))"]
      assms(1) by (simp add: lru_wf_def)
  with Some assms show ?thesis by (simp add: ledger_def removeElement_def)
qed (simp add: removeElement_def)

lemma expireSweep_ledger:
  "lru_inv c \<Longrightarrow> onEvicted c \<Longrightarrow> ledger (expireSweep now es c) = ledger c"
  by (induction now es c rule: expireSweep.induct)
    (auto simp: removeElement_wf removeElement_ledger split: option.split)

text \<open>
  C22. In whatever order \<^verbatim>\<open>range\<close> visits the expiry map, the sweep leaves the same cache. It keeps exactly the
  entries whose deadline lies ahead, in their order, and reports each of the others once.
\<close>

theorem expireSweep_range_order:
  assumes "lru_inv c" "mset es = mset (expires c)"
  shows "(expireSweep now es c)\<lparr>evictLog := []\<rparr> = (expireSweep now (expires c) c)\<lparr>evictLog := []\<rparr> \<and>
    absl (expireSweep now es c) = filter (live now) (absl c) \<and>
    (onEvicted c \<longrightarrow> mset (evictLog (expireSweep now es c)) =
      mset (evictLog c) + mset (map (\<lambda>(k, v, x). (k, v)) (filter (\<lambda>p. \<not> live now p) (absl c))))"
proof (intro conjI impI)
  let ?c = "expireSweep now es c" and ?kv = "\<lambda>(k, v, x :: time option). (k :: string, v :: Value)"
  show order: "?c\<lparr>evictLog := []\<rparr> = (expireSweep now (expires c) c)\<lparr>evictLog := []\<rparr>"
    using assms by (rule expireSweep_order)
  have log: "absl (d\<lparr>evictLog := []\<rparr>) = absl d" for d by (simp add: absl_def)
  from arg_cong [OF order, of absl] have "absl ?c = absl (expireSweep now (expires c) c)" unfolding log .
  then show kept: "absl ?c = filter (live now) (absl c)" using absl_expireSweep [OF assms(1)] by simp
  have kvs: "ledger d = mset (evictLog d) + image_mset ?kv (mset (absl d))" for d
    by (simp add: ledger_def absl_def image_mset.compositionality comp_def)
  assume "onEvicted c"
  then have "ledger ?c = ledger c" by (rule expireSweep_ledger [OF assms(1)])
  then have "mset (evictLog ?c) + image_mset ?kv (filter_mset (live now) (mset (absl c))) =
      mset (evictLog c) + image_mset ?kv (mset (absl c))" by (simp add: kvs kept)
  also have "image_mset ?kv (mset (absl c)) = image_mset ?kv (filter_mset (live now) (mset (absl c))) +
      image_mset ?kv (filter_mset (\<lambda>p. \<not> live now p) (mset (absl c)))"
    unfolding image_mset_union [symmetric] multiset_partition [symmetric] ..
  finally show "mset (evictLog ?c) = mset (evictLog c) + mset (map ?kv (filter (\<lambda>p. \<not> live now p) (absl c)))"
    by (simp add: ac_simps)
qed

lemma evictLoop_ledger: "lru_wf X c \<Longrightarrow> onEvicted c \<Longrightarrow> ledger (evictLoop c) = ledger c"
proof (induction c rule: evictLoop.induct)
  case (1 c)
  then show ?case by (subst evictLoop.simps) (auto simp: removeElement_wf removeElement_ledger)
qed

lemma evictLocked_ledger: "lru_inv c \<Longrightarrow> onEvicted c \<Longrightarrow> ledger (evictLocked now c) = ledger c"
  by (simp add: evictLocked_def expireSweep_ledger evictLoop_ledger [where X = "{}"] expireSweep_wf
      expireSweep_fields)

lemma mset_items:
  assumes "lru_inv c"
  shows "mset (items c) = mset (index (elems c))"
proof -
  have k: "distinct (map fst (index (elems c)))"
    using assms by (simp add: index_def lru_wf_def keys_def comp_def)
  have "set (items c) = set (index (elems c))"
    using assms k by (metis (no_types, lifting) lru_wf_def map_of_eq_Some_iff set_eqI surj_pair)
  moreover have "distinct (items c)" "distinct (index (elems c))"
    using assms k by (auto simp: lru_wf_def distinct_map)
  ultimately show ?thesis by (simp add: set_eq_iff_mset_eq_distinct)
qed

lemma map_filter_Some: "(\<And>x. x \<in> set l \<Longrightarrow> f x = Some (g x)) \<Longrightarrow> List.map_filter f l = map g l"
  by (induction l) (simp_all add: List.map_filter_simps)

lemma mset_map_filter: "mset l = mset l' \<Longrightarrow> mset (List.map_filter f l) = mset (List.map_filter f l')"
  unfolding List.map_filter_def mset_map mset_filter by simp

lemma lru_Clear_ledger:
  assumes "lru_inv c" "onEvicted c"
  shows "ledger (lru_Clear c) = ledger c"
proof -
  let ?f = "\<lambda>(k, i). map_option (\<lambda>e. (ekey e, evalue e)) (map_of (elems c) i)"
  have "mset (List.map_filter ?f (items c)) = mset (List.map_filter ?f (index (elems c)))"
    by (rule mset_map_filter [OF mset_items [OF assms(1)]])
  also have "List.map_filter ?f (index (elems c)) = List.map_filter (\<lambda>p. ?f (ekey (snd p), fst p)) (elems c)"
    by (simp add: index_def List.map_filter_def comp_def filter_map)
  also have "\<dots> = map (\<lambda>p. (ekey (snd p), evalue (snd p))) (elems c)"
    by (rule map_filter_Some) (use assms(1) in \<open>auto simp: lru_wf_def\<close>)
  finally show ?thesis using assms(2) by (simp add: ledger_def lru_Clear_def)
qed

section \<open>Runs\<close>

datatype lru_call =
    CGet time string
  | CSet time time string "Value option" duration
  | CDelete string
  | CClear
  | CCleanup time
  | CGetWithExpiration time string
  | CClose

fun lru_step :: "lru_call \<Rightarrow> lruCache \<Rightarrow> lruCache" where
  "lru_step (CGet now k) c = snd (lru_Get now k c)"
| "lru_step (CSet now now' k v d) c = lru_SetWithExpiration now now' k v d c"
| "lru_step (CDelete k) c = snd (lru_Delete k c)"
| "lru_step CClear c = lru_Clear c"
| "lru_step (CCleanup now) c = lru_cleanupExpired now c"
| "lru_step (CGetWithExpiration now k) c = snd (lru_GetWithExpiration now k c)"
| "lru_step CClose c = lru_Close c"

inductive lru_reachable :: "Options \<Rightarrow> lruCache \<Rightarrow> bool" for opts where
  new: "lru_reachable opts (newLRUCacheInternal opts start)"
| step: "lru_reachable opts c \<Longrightarrow> lru_reachable opts (lru_step call c)"

lemma lru_GetWithExpiration_snd: "snd (lru_GetWithExpiration now k c) = snd (lru_Get now k c)"
  by (simp add: lru_GetWithExpiration_def lru_Get_def split: option.split)

lemma lru_Close_wf: "lru_inv c \<Longrightarrow> lru_inv (lru_Close c)"
  by (simp add: lru_Close_def lru_wf_def)

lemma lru_step_wf: "lru_inv c \<Longrightarrow> lru_inv (lru_step call c)"
  by (cases call)
    (simp_all add: lru_Get_wf lru_Set_wf lru_Delete_wf lru_Clear_refines lru_cleanupExpired_def
      evictLocked_wf lru_GetWithExpiration_snd lru_Close_wf)

text \<open>C20. In every state the cache can reach, the index names exactly the elements of the list, no key
  is stored twice, every deadline belongs to a stored key, and the byte counter is the sum of the
  stored sizes modulo \<open>2 ^ 64\<close>.\<close>

theorem lru_reachable_inv:
  assumes "lru_reachable opts c"
  shows "lru_inv c"
  using assms
proof induction
  case (new start)
  show ?case by (simp add: newLRUCacheInternal_def lru_wf_def index_def)
next
  case (step c call)
  then show ?case by (simp add: lru_step_wf)
qed

lemma lru_Get_ledger: "lru_inv c \<Longrightarrow> onEvicted c \<Longrightarrow> ledger (snd (lru_Get now k c)) = ledger c"
proof -
  assume inv: "lru_inv c" and cb: "onEvicted c"
  have "mset (moveToBack i (elems c)) = mset (elems c)" if "gm_get (items c) k = Some i" for i
  proof -
    from that obtain e where "map_of (elems c) i = Some e" using items_lookup [OF inv] by blast
    moreover have "distinct (map fst (elems c))" using inv by (simp add: lru_wf_def)
    ultimately show ?thesis using mset_filter_id [of "elems c" i e] by (simp add: moveToBack_def)
  qed
  then have "ledger (c\<lparr>elems := moveToBack i (elems c)\<rparr>) = ledger c"
    if "gm_get (items c) k = Some i" for i
    using that by (simp add: ledger_def)
  then show ?thesis
    using inv cb by (auto simp: lru_Get_def removeElement_ledger split: option.split)
qed

lemma ledger_absl: "ledger c = mset (evictLog c) + mset (map (\<lambda>(k, v, x). (k, v)) (absl c))"
  by (simp add: ledger_def absl_def image_mset.compositionality comp_def)

lemma mset_a_del:
  assumes "distinct (map fst l)" "map_of l k = Some (v, x)"
  shows "mset l = add_mset (k, v, x) (mset (a_del k l))"
  using mset_filter_id [OF assms] by (simp add: a_del_def)

text \<open>What a call stores, and the entry a store overwrites in place.\<close>

fun stored :: "lru_call \<Rightarrow> (string \<times> Value) multiset" where
  "stored (CSet now now' k (Some v) d) = {#(k, v)#}"
| "stored _ = {#}"

fun overwritten :: "lru_call \<Rightarrow> lruCache \<Rightarrow> (string \<times> Value) multiset" where
  "overwritten (CSet now now' k (Some v) d) c =
     (case map_of (absl c) k of Some (v', x) \<Rightarrow> {#(k, v')#} | None \<Rightarrow> {#})"
| "overwritten _ c = {#}"

lemma lru_Set_ledger:
  assumes "lru_inv c" "onEvicted c"
  shows "ledger (lru_step (CSet now now' k (Some v) d) c) + overwritten (CSet now now' k (Some v) d) c =
    ledger c + {#(k, v)#}"
proof -
  obtain c' where c': "lru_SetWithExpiration now now' k (Some v) d c = evictLocked now' c'" "lru_inv c'"
    "absl c' = a_put now k v d (absl c)" "onEvicted c' = onEvicted c" "evictLog c' = evictLog c"
    by (rule lru_Set_shape [OF assms(1)])
  let ?f = "\<lambda>(k, v, x). (k, v)"
  have "mset (map ?f (a_del k (absl c))) + overwritten (CSet now now' k (Some v) d) c = mset (map ?f (absl c))"
  proof (cases "map_of (absl c) k")
    case None
    then have "a_del k (absl c) = absl c"
      unfolding a_del_def by (intro filter_True) (auto simp: map_of_eq_None_iff)
    with None show ?thesis by simp
  next
    case (Some p)
    then show ?thesis
      using mset_a_del [OF absl_distinct [OF assms(1)]] by (cases p) (simp add: mset_map)
  qed
  moreover have "ledger (lru_step (CSet now now' k (Some v) d) c) = ledger c'"
    using c' assms(2) by (simp add: evictLocked_ledger)
  ultimately show ?thesis
    using c' by (simp add: ledger_absl a_put_def)
qed

text \<open>C21. With a callback installed, every entry a call removes from the cache is reported to the
  callback exactly once, and nothing else is: the entries reported and held change by what the
  call stores, less the entry it overwrites in place.\<close>

theorem lru_callback_once:
  assumes "lru_inv c" "onEvicted c"
  shows "ledger (lru_step call c) + overwritten call c = ledger c + stored call"
proof -
  have del: "ledger (snd (lru_Delete k c)) = ledger c" for k
    using assms by (auto simp: lru_Delete_def removeElement_ledger split: option.split)
  show ?thesis
  proof (cases call)
    case (CSet now now' k v d)
    then show ?thesis
      using del lru_Set_ledger [OF assms]
      by (cases v) (simp add: lru_SetWithExpiration_def, simp only: stored.simps)
  next
    case CClose
    then show ?thesis by (simp add: lru_Close_def ledger_def)
  qed (use assms in \<open>simp_all add: lru_Get_ledger del lru_Clear_ledger lru_cleanupExpired_def
        evictLocked_ledger lru_GetWithExpiration_snd\<close>)
qed

section \<open>The LRU cache as a store\<close>

definition lru_content :: "lruCache \<Rightarrow> string \<Rightarrow> (Value \<times> time option) option" where
  "lru_content c = map_of (absl c)"

definition lru_room :: "lruCache \<Rightarrow> string \<Rightarrow> Value \<Rightarrow> bool" where
  "lru_room c k v \<longleftrightarrow> sized (a_del k (absl c) @ [(k, v, None)]) \<and>
     (sint (maxBytes c) \<le> 0 \<or> int (length k) + Value_Len v \<le> sint (maxBytes c))"

lemma live_alive: "live now (k, v, x) = alive now x"
  by (cases x) auto

lemma map_of_a_del: "map_of (a_del k l) = (map_of l)(k := None)"
  using map_of_filter_key [of "{k}" l] by (auto simp: a_del_def fun_eq_iff)

lemma evictLoop_without:
  "lru_inv c \<Longrightarrow> \<exists>D log. evictLoop c = (without D c)\<lparr>evictLog := log\<rparr>"
proof (induction c rule: evictLoop.induct)
  case (1 c)
  show ?case
  proof (cases "0 < sint (maxBytes c) \<and> sint (maxBytes c) < sint (usedBytes c) \<and> elems c \<noteq> []")
    case True
    let ?i = "fst (hd (elems c))"
    have "map_of (elems c) ?i = Some (snd (hd (elems c)))"
      using True by (cases "elems c") auto
    then obtain E log where E: "removeElement ?i c = (without E c)\<lparr>evictLog := log\<rparr>"
      using removeElement_without [OF "1.prems"] by blast
    moreover obtain D log' where "evictLoop (removeElement ?i c) = (without D (removeElement ?i c))\<lparr>evictLog := log'\<rparr>"
      using "1.IH" True removeElement_wf [OF "1.prems"] by blast
    ultimately have "evictLoop c = (without (D \<union> E) c)\<lparr>evictLog := log'\<rparr>"
      using True by (simp add: evictLoop.simps [of c] without_without)
    then show ?thesis by blast
  next
    case False
    then have "evictLoop c = (without {} c)\<lparr>evictLog := evictLog c\<rparr>"
      using "1.prems" by (subst evictLoop.simps) (auto simp: without_absent)
    then show ?thesis by blast
  qed
qed

lemma evictLocked_without:
  assumes "lru_inv c"
  obtains D log where "evictLocked now c = (without D c)\<lparr>evictLog := log\<rparr>"
proof -
  obtain log where s: "expireSweep now (expires c) c = (without (dead now (expires c)) c)\<lparr>evictLog := log\<rparr>"
    using expireSweep_without [OF assms] by blast
  obtain D log' where "evictLoop (expireSweep now (expires c) c) =
      (without D (expireSweep now (expires c) c))\<lparr>evictLog := log'\<rparr>"
    using evictLoop_without expireSweep_wf [OF assms] by blast
  with s have "evictLocked now c = (without (D \<union> dead now (expires c)) c)\<lparr>evictLog := log'\<rparr>"
    by (simp add: evictLocked_def without_without)
  then show thesis by (rule that)
qed

lemma lru_content_Set:
  assumes "lru_inv c"
  obtains D where "lru_content (lru_SetWithExpiration now now' k (Some v) d c) =
    (\<lambda>k'. if k' \<in> D then None else ((lru_content c)(k \<mapsto> (v, deadline now d))) k')"
proof -
  obtain c' where c': "lru_SetWithExpiration now now' k (Some v) d c = evictLocked now' c'" "lru_inv c'"
    "absl c' = a_put now k v d (absl c)"
    by (rule lru_Set_shape [OF assms])
  obtain D log where D: "evictLocked now' c' = (without D c')\<lparr>evictLog := log\<rparr>"
    by (rule evictLocked_without [OF c'(2)])
  have "map_of (a_put now k v d (absl c)) = (map_of (absl c))(k \<mapsto> (v, deadline now d))"
    by (auto simp: a_put_def map_add_def map_of_a_del deadline_def fun_eq_iff split: option.split)
  with D c' have "lru_content (lru_SetWithExpiration now now' k (Some v) d c) =
      (\<lambda>k'. if k' \<in> D then None else ((map_of (absl c))(k \<mapsto> (v, deadline now d))) k')"
    by (auto simp: lru_content_def absl_without map_of_filter_key fun_eq_iff)
  then show thesis by (intro that [of D]) (simp only: lru_content_def)
qed

lemma lru_content_Set_room:
  assumes "lru_inv c" "lru_room c k v" "alive now' (deadline now d)"
  shows "lru_content (lru_SetWithExpiration now now' k (Some v) d c) k = Some (v, deadline now d)"
proof -
  have "d \<le> 0 \<or> now' < now + d" using assms(3) by (auto simp: deadline_def split: if_splits)
  with assms(2) have "(k, v, deadline now d) \<in> set (absl (lru_SetWithExpiration now now' k (Some v) d c))"
    unfolding deadline_def using lru_Set_refines [OF assms(1)] a_set_mem by (auto simp: lru_room_def)
  with absl_distinct [OF lru_Set_wf [OF assms(1)]] show ?thesis
    by (simp add: lru_content_def)
qed

lemma lru_Get_content:
  assumes "lru_inv c"
  shows "lru_content (snd (lru_Get now k c)) k' =
    (if k' = k \<and> fst (lru_Get now k c) = None then None else lru_content c k')"
  using lru_Get_refines [OF assms, of now k]
  by (auto simp: lru_content_def a_get_def map_of_a_del map_add_def split: option.split if_splits)

lemma lru_Len_content:
  assumes "lru_inv c"
  shows "lru_Len c = card (dom (lru_content c))"
  using distinct_card [OF absl_distinct [OF assms]]
  by (simp add: lru_content_def dom_map_of_conv_image_fst lru_Len_refines)

lemma sized_subset:
  assumes "mset l' \<subseteq># mset l" "sized l"
  shows "sized l'"
proof -
  obtain X where X: "mset l = mset l' + mset X"
    using assms(1) by (metis ex_mset mset_subset_eq_exists_conv)
  have tot: "a_total xs = sum_mset (image_mset a_size (mset xs))" for xs
    by (simp add: a_total_def flip: sum_mset_sum_list)
  have "set l = set l' \<union> set X" using X by (metis set_mset_mset set_mset_union)
  moreover have "0 \<le> a_total X" by (rule a_total_nonneg) (use assms(2) calculation in \<open>auto simp: sized_def\<close>)
  ultimately show ?thesis using assms(2) by (simp add: sized_def tot X ball_Un)
qed

text \<open>A cache with the same budget and no entry of its own has room for what the other has.\<close>

lemma lru_room_shrink:
  assumes "lru_room c k v" "maxBytes c' = maxBytes c" "mset (absl c') \<subseteq># mset (absl c)"
  shows "lru_room c' k v"
proof -
  have "mset (a_del k (absl c') @ [(k, v, None)]) \<subseteq># mset (a_del k (absl c) @ [(k, v, None)])"
    using assms(3) by (simp add: a_del_def multiset_filter_mono)
  with assms sized_subset show ?thesis unfolding lru_room_def by metis
qed

lemma mset_a_del_subset: "mset (a_del k l) \<subseteq># mset l"
  by (simp add: a_del_def)

lemma mset_a_get: "mset (snd (a_get now k l)) \<subseteq># mset l"
proof (cases "map_of l k")
  case (Some vx)
  then have "(k, vx) \<in># filter_mset (\<lambda>p. fst p = k) (mset l)" by (simp add: map_of_SomeD)
  then have "{#(k, vx)#} \<subseteq># filter_mset (\<lambda>p. fst p = k) (mset l)" by simp
  then have "filter_mset (\<lambda>p. fst p \<noteq> k) (mset l) + {#(k, vx)#} \<subseteq># mset l"
    using multiset_partition [of "mset l" "\<lambda>p. fst p \<noteq> k"] by (metis (no_types, lifting) filter_mset_cong subset_mset.add_left_mono)
  with mset_a_del_subset [of k l] Some show ?thesis by (auto simp: a_get_def a_del_def split: prod.split)
qed (simp add: a_get_def)

lemma lru_ops_maxBytes:
  "maxBytes (snd (lru_Get now k c)) = maxBytes c" "maxBytes (snd (lru_Delete k c)) = maxBytes c"
  "maxBytes (lru_Clear c) = maxBytes c"
  by (auto simp: lru_Get_def lru_Delete_def lru_Clear_def split: option.split)

interpretation lru: store_contract lru_inv lru_content lru_room lru_Get lru_SetWithExpiration
  lru_Delete lru_Clear lru_Len
proof (unfold_locales, goal_cases)
  case (1 s now k)
  then show ?case using lru_Get_refines [OF 1, of now k]
    by (auto simp: a_get_def lru_content_def live_alive split: option.split)
next
  case (2 s now k k')
  then show ?case by (rule lru_Get_content)
next
  case (3 s k' k now now' v d)
  show ?case by (rule lru_content_Set [OF 3(1), of now now' k v d]) (use 3(2) in auto)
next
  case (4 s now now' k v d)
  show ?case by (rule lru_content_Set [OF 4, of now now' k v d]) auto
next
  case (5 s k v now' now d)
  then show ?case by (rule lru_content_Set_room)
next
  case (6 now now' k d s)
  show ?case by (simp add: lru_SetWithExpiration_def)
next
  case (7 s k)
  then show ?case by (simp add: lru_content_def lru_Delete_refines)
next
  case (8 s k)
  then show ?case by (simp add: lru_content_def lru_Delete_refines map_of_a_del)
next
  case (9 s)
  then show ?case by (simp add: lru_content_def lru_Clear_refines)
next
  case (10 s)
  then show ?case by (rule lru_Len_content)
next
  case (15 s k v now k')
  then show ?case
    using lru_Get_refines [OF 15(1), of now k'] by (intro lru_room_shrink [OF 15(2)]) (simp_all add: lru_ops_maxBytes mset_a_get)
next
  case (16 s k v k')
  then show ?case
    by (intro lru_room_shrink [OF 16(2)]) (simp_all add: lru_ops_maxBytes lru_Delete_refines mset_a_del_subset)
next
  case (17 s k v)
  then show ?case by (intro lru_room_shrink [OF 17(2)]) (simp_all add: lru_ops_maxBytes lru_Clear_refines)
qed (simp_all add: lru_Get_wf lru_Set_wf lru_Delete_wf lru_Clear_refines)

text \<open>C16. Get refines the abstract lookup: it answers with the live value of the key, makes the entry
  the most recent, and drops an expired one.\<close>

theorem lru_Get_refinement:
  assumes "lru_inv c"
  shows "fst (lru_Get now k c) = fst (a_get now k (absl c)) \<and>
    absl (snd (lru_Get now k c)) = snd (a_get now k (absl c))"
  by (rule lru_Get_refines [OF assms])

section \<open>Instances on a small cache\<close>

definition small_opts :: Options where
  "small_opts = \<lparr>MaxBytes = 8, ShardCount = 1, CleanupInterval = 0, OnEvicted = True\<rparr>"

text \<open>An 8-byte cache holding \<open>a\<close> with deadline 10 and \<open>b\<close> without one.\<close>

definition small_cache :: lruCache where
  "small_cache = lru_SetWithExpiration 1 1 ''b'' (Some (ByteViewV [3, 4])) 0
     (lru_SetWithExpiration 0 0 ''a'' (Some (ByteViewV [1, 2])) 10 (newLRUCache small_opts))"

lemma small_cache_inv: "lru_inv small_cache"
  unfolding small_cache_def newLRUCache_def
  by (intro lru_Set_wf) (simp add: lru_wf_def newLRUCacheInternal_def total_def index_def)

lemma small_cache_eq: "small_cache = \<lparr>elems = [(0, \<lparr>ekey = ''a'', evalue = ByteViewV [1, 2]\<rparr>), (1, \<lparr>ekey = ''b'', evalue = ByteViewV [3, 4]\<rparr>)],
  items = [(''a'', 0), (''b'', 1)], expires = [(''a'', 10)], maxBytes = 8, usedBytes = 6, onEvicted = True, cleanupInterval = 60000000000,
  cleanupTicker = True, closedCh = False, closeOnce = False, nextElem = 2, evictLog = []\<rparr>"
  by code_simp

lemma small_cache_absl: "absl small_cache = [(''a'', ByteViewV [1, 2], Some 10), (''b'', ByteViewV [3, 4], None)]"
  by (simp add: small_cache_eq absl_def)

text \<open>The same cache with a deadline for both entries, swept in the opposite order.\<close>

definition timed_cache :: lruCache where
  "timed_cache = lru_SetWithExpiration 1 1 ''b'' (Some (ByteViewV [3, 4])) 14 small_cache"

lemma timed_cache_inv: "lru_inv timed_cache"
  unfolding timed_cache_def by (rule lru_Set_wf [OF small_cache_inv])

lemma timed_cache_eq: "timed_cache = \<lparr>elems = [(0, \<lparr>ekey = ''a'', evalue = ByteViewV [1, 2]\<rparr>), (1, \<lparr>ekey = ''b'', evalue = ByteViewV [3, 4]\<rparr>)],
  items = [(''a'', 0), (''b'', 1)], expires = [(''a'', 10), (''b'', 15)], maxBytes = 8, usedBytes = 6, onEvicted = True, cleanupInterval = 60000000000,
  cleanupTicker = True, closedCh = False, closeOnce = False, nextElem = 2, evictLog = []\<rparr>"
  by code_simp

lemma timed_cache_evals:
  "expires timed_cache = [(''a'', 10), (''b'', 15)]" "onEvicted timed_cache" "evictLog timed_cache = []"
  "absl timed_cache = [(''a'', ByteViewV [1, 2], Some 10), (''b'', ByteViewV [3, 4], Some 15)]"
  "evictLog (expireSweep 20 [(''b'', 15), (''a'', 10)] timed_cache) = [(''b'', ByteViewV [3, 4]), (''a'', ByteViewV [1, 2])]"
  "evictLog (expireSweep 20 [(''a'', 10), (''b'', 15)] timed_cache) = [(''a'', ByteViewV [1, 2]), (''b'', ByteViewV [3, 4])]"
  by (simp_all add: timed_cache_eq absl_def removeElement_def)

theorem expireSweep_range_order_witness:
  "expires timed_cache = [(''a'', 10), (''b'', 15)] \<and>
   (expireSweep 20 [(''b'', 15), (''a'', 10)] timed_cache)\<lparr>evictLog := []\<rparr> =
     (expireSweep 20 (expires timed_cache) timed_cache)\<lparr>evictLog := []\<rparr> \<and>
   evictLog (expireSweep 20 [(''b'', 15), (''a'', 10)] timed_cache) \<noteq> evictLog (expireSweep 20 (expires timed_cache) timed_cache) \<and>
   absl (expireSweep 20 [(''b'', 15), (''a'', 10)] timed_cache) = [] \<and>
   absl (expireSweep 12 [(''b'', 15), (''a'', 10)] timed_cache) = [(''b'', ByteViewV [3, 4], Some 15)] \<and>
   mset (evictLog (expireSweep 12 [(''b'', 15), (''a'', 10)] timed_cache)) = {#(''a'', ByteViewV [1, 2])#}"
proof -
  have "mset [(''b'', 15), (''a'', 10)] = mset (expires timed_cache)" by (simp add: timed_cache_evals(1))
  note at = expireSweep_range_order [OF timed_cache_inv this]
  from at [of 20] at [of 12] show ?thesis by (simp add: timed_cache_evals del: expireSweep.simps)
qed

theorem lru_Get_refinement_witness:
  "fst (lru_Get 5 ''a'' small_cache) = Some (ByteViewV [1, 2]) \<and>
   absl (snd (lru_Get 5 ''a'' small_cache)) = [(''b'', ByteViewV [3, 4], None), (''a'', ByteViewV [1, 2], Some 10)] \<and>
   fst (lru_Get 10 ''a'' small_cache) = None"
  using lru_Get_refinement [of small_cache 5 "''a''"] lru_Get_refinement [of small_cache 10 "''a''"]
  by (simp add: small_cache_inv small_cache_absl a_get_def a_del_def)

theorem lru_Set_keeps_newest_witness:
  "absl (lru_SetWithExpiration 2 2 ''c'' (Some (ByteViewV [5, 6])) 0 small_cache) =
     [(''b'', ByteViewV [3, 4], None), (''c'', ByteViewV [5, 6], None)]"
proof -
  define l where "l = [(''a'', ByteViewV [1, 2], Some 10), (''b'', ByteViewV [3, 4], None),
    (''c'', ByteViewV [5, 6], None :: time option)]"
  have "filter (live 2) (a_put 2 ''c'' (ByteViewV [5, 6]) 0 (absl small_cache)) = l"
    by (simp add: l_def small_cache_absl a_put_def a_del_def)
  moreover have "sized (a_del ''c'' (absl small_cache) @ [(''c'', ByteViewV [5, 6], None)])"
    by (simp add: small_cache_absl a_del_def sized_def)
  moreover have "sint (maxBytes small_cache) = 8" by (simp add: small_cache_eq)
  ultimately obtain n where
    n: "absl (lru_SetWithExpiration 2 2 ''c'' (Some (ByteViewV [5, 6])) 0 small_cache) = drop n l"
      "a_total (drop n l) \<le> 8" "\<forall>j<n. 8 < a_total (drop j l)"
    using lru_Set_keeps_newest [OF small_cache_inv, of "''c''" "ByteViewV [5, 6]" 2 2 0]
    by (auto simp: Let_def)
  have "n \<noteq> 0" using n(2) by (cases n) (simp_all add: l_def)
  moreover have "\<not> 1 < n" using n(3) by (auto simp: l_def)
  ultimately have "n = 1" by simp
  then show ?thesis using n(1) by (simp add: l_def)
qed

lemma small_cache_Set_Get:
  "fst (lru_Get 9 ''b'' (lru_SetWithExpiration 2 3 ''b'' (Some (ByteViewV [5, 6, 7])) 10 small_cache)) =
     Some (ByteViewV [5, 6, 7])"
  using lru_Set_Get [of small_cache "''b''" "ByteViewV [5, 6, 7]" 3 9 10 2]
  by (simp add: small_cache_inv small_cache_absl a_del_def sized_def)
    (simp add: small_cache_eq)

theorem lru_reachable_inv_witness:
  "lru_inv (lru_step (CSet 0 0 ''a'' (Some (ByteViewV [1, 2])) 10) (newLRUCacheInternal small_opts True))"
  by (rule lru_reachable_inv [where opts = small_opts])
    (intro lru_reachable.step lru_reachable.new)

theorem lru_callback_once_witness:
  "ledger (lru_step (CSet 2 2 ''c'' (Some (ByteViewV [5, 6])) 0) small_cache) =
   ledger small_cache + {#(''c'', ByteViewV [5, 6])#} \<and>
   evictLog (lru_step (CSet 2 2 ''c'' (Some (ByteViewV [5, 6])) 0) small_cache) = [(''a'', ByteViewV [1, 2])]"
proof -
  have "evictLog (lru_step (CSet 2 2 ''c'' (Some (ByteViewV [5, 6])) 0) small_cache) = [(''a'', ByteViewV [1, 2])]"
    by code_simp
  then show ?thesis
    using lru_callback_once [of small_cache "CSet 2 2 ''c'' (Some (ByteViewV [5, 6])) 0"]
    by (simp add: small_cache_inv small_cache_absl) (simp add: small_cache_eq)
qed

end
