(* ===== verification/Sharded_Lru.thy ===== *)
theory Sharded_Lru
  imports Lru_Correct
begin

text \<open>
  The sharded store of \<^verbatim>\<open>src/store/sharded_lru.go\<close>: construction (shard count, budgets), routing
  of a key by its FNV-1a hash, and the operations, each under the lock of one shard. Machine
  integers are 64-bit words read as signed where Go's \<^verbatim>\<open>int\<close> and \<^verbatim>\<open>int64\<close> are.
\<close>

unbundle bit_operations_syntax

section \<open>Shard count\<close>

partial_function (option) doubleUntil :: "int64 \<Rightarrow> int64 \<Rightarrow> int64 option" where
  "doubleUntil n p = (if sint p < sint n then doubleUntil n (push_bit 1 p) else Some p)"

definition nextPowerOfTwo :: "int64 \<Rightarrow> int64 option" where
  "nextPowerOfTwo n = (if sint n \<le> 1 then Some 1 else doubleUntil n 1)"

lemma sint_half: "sint (signed_drop_bit 1 (w :: int64)) = sint w div 2"
  by (simp add: sint_signed_drop_bit_eq drop_bit_eq_div)

text \<open>The loop that keeps at least 1 KiB of budget per shard.\<close>

function shrinkCount :: "int64 \<Rightarrow> int64 \<Rightarrow> int64" where
  "shrinkCount maxB cnt =
     (if 1 < sint cnt \<and> sint maxB div sint cnt < 1024
      then shrinkCount maxB (signed_drop_bit 1 cnt) else cnt)"
  by pat_completeness auto
termination
  by (relation "measure (\<lambda>(maxB, cnt). nat (sint cnt))") (auto simp: sint_half simp del: One_nat_def)

declare shrinkCount.simps [simp del]

section \<open>Construction\<close>

record shardedLRU =
  shards :: "lruCache list"
  cleanupTick :: bool
  s_closedCh :: bool
  s_closeOnce :: bool

definition shardMaxBytes :: "int64 \<Rightarrow> int64 \<Rightarrow> nat \<Rightarrow> int64" where
  "shardMaxBytes maxB cnt i =
     (let base = word_of_int (sint maxB div sint cnt);
          remainder = word_of_int (sint maxB mod sint cnt) :: int64
      in if int i < sint remainder then base + 1 else base)"

text \<open>\<open>None\<close> when \<^verbatim>\<open>nextPowerOfTwo\<close> does not return.\<close>

definition newShardedLRU :: "Options \<Rightarrow> shardedLRU option" where
  "newShardedLRU opts =
     (let cnt = (if sint (ShardCount opts) \<le> 0 then 16 else ShardCount opts)
      in case nextPowerOfTwo cnt of
           None \<Rightarrow> None
         | Some cnt \<Rightarrow>
             (let cnt = (if 0 < sint (MaxBytes opts) then shrinkCount (MaxBytes opts) cnt else cnt)
              in Some
                \<lparr>shards = map (\<lambda>i. newLRUCacheInternal
                    (if 0 < sint (MaxBytes opts)
                     then opts\<lparr>MaxBytes := shardMaxBytes (MaxBytes opts) cnt i\<rparr> else opts) False)
                    [0..<nat (sint cnt)],
                 cleanupTick = True, s_closedCh = False, s_closeOnce = False\<rparr>))"

section \<open>Routing\<close>

text \<open>\<^verbatim>\<open>hash/fnv\<close>: the 32-bit FNV-1a hash.\<close>

definition fnv32a :: "bytes \<Rightarrow> uint32" where
  "fnv32a bs = foldl (\<lambda>h b. (h XOR ucast b) * 16777619) 2166136261 bs"

definition shardIndex :: "string \<Rightarrow> nat \<Rightarrow> nat" where
  "shardIndex key n = unat ((ucast (fnv32a (bytes_of key)) :: int64) AND (of_nat n - 1))"

definition shard :: "string \<Rightarrow> shardedLRU \<Rightarrow> lruCache" where
  "shard key s = shards s ! shardIndex key (length (shards s))"

definition setShard :: "string \<Rightarrow> lruCache \<Rightarrow> shardedLRU \<Rightarrow> shardedLRU" where
  "setShard key c s = s\<lparr>shards := (shards s)[shardIndex key (length (shards s)) := c]\<rparr>"

section \<open>Operations\<close>

definition sharded_Get :: "time \<Rightarrow> string \<Rightarrow> shardedLRU \<Rightarrow> Value option \<times> shardedLRU" where
  "sharded_Get now key s = (let (r, c) = lru_Get now key (shard key s) in (r, setShard key c s))"

definition sharded_SetWithExpiration ::
    "time \<Rightarrow> time \<Rightarrow> string \<Rightarrow> Value option \<Rightarrow> duration \<Rightarrow> shardedLRU \<Rightarrow> shardedLRU" where
  "sharded_SetWithExpiration now now' key value expiration s =
     setShard key (lru_SetWithExpiration now now' key value expiration (shard key s)) s"

definition sharded_Set :: "time \<Rightarrow> time \<Rightarrow> string \<Rightarrow> Value option \<Rightarrow> shardedLRU \<Rightarrow> shardedLRU" where
  "sharded_Set now now' key value s = setShard key (lru_Set now now' key value (shard key s)) s"

definition sharded_Delete :: "string \<Rightarrow> shardedLRU \<Rightarrow> bool \<times> shardedLRU" where
  "sharded_Delete key s = (let (r, c) = lru_Delete key (shard key s) in (r, setShard key c s))"

definition sharded_Clear :: "shardedLRU \<Rightarrow> shardedLRU" where
  "sharded_Clear s = s\<lparr>shards := map lru_Clear (shards s)\<rparr>"

definition sharded_Len :: "shardedLRU \<Rightarrow> nat" where
  "sharded_Len s = foldl (\<lambda>total c. total + lru_Len c) 0 (shards s)"

fun sharded_cleanupLoop :: "signal list \<Rightarrow> shardedLRU \<Rightarrow> shardedLRU" where
  "sharded_cleanupLoop [] s = s"
| "sharded_cleanupLoop (TickC now # ss) s =
     sharded_cleanupLoop ss (s\<lparr>shards := map (lru_cleanupExpired now) (shards s)\<rparr>)"
| "sharded_cleanupLoop (CloseC # ss) s = s"

definition sharded_Close :: "shardedLRU \<Rightarrow> shardedLRU" where
  "sharded_Close s =
     (if s_closeOnce s then s
      else s\<lparr>s_closeOnce := True, cleanupTick := False, s_closedCh := True,
             shards := map lru_Close (shards s)\<rparr>)"

section \<open>Shard count: correctness\<close>

lemma sint_power2: "k \<le> 62 \<Longrightarrow> sint (2 ^ k :: int64) = 2 ^ k"
proof -
  assume "k \<le> 62"
  then have "(2 :: int) ^ k \<le> 2 ^ 62" by (intro power_increasing) auto
  then have "sint (word_of_int (2 ^ k) :: int64) = 2 ^ k" by (intro sint_of_small) auto
  then show ?thesis by simp
qed

lemma push_bit_power2: "push_bit 1 (2 ^ k :: int64) = 2 ^ Suc k"
  by (simp add: push_bit_eq_mult)

lemma doubleUntil_power2:
  "k \<le> 62 \<Longrightarrow> doubleUntil n (2 ^ k) = (if 2 ^ k < sint n then doubleUntil n (2 ^ Suc k) else Some (2 ^ k))"
  by (subst doubleUntil.simps) (simp only: sint_power2 push_bit_power2)

lemma doubleUntil_returns:
  assumes "sint n \<le> 2 ^ 62" "k \<le> 62" "k = 0 \<or> 2 ^ (k - 1) < sint n"
  shows "\<exists>j. j \<le> 62 \<and> doubleUntil n (2 ^ k) = Some (2 ^ j) \<and> sint n \<le> 2 ^ j \<and>
    (j = 0 \<or> 2 ^ (j - 1) < sint n)"
  using assms
proof (induction "62 - k" arbitrary: k)
  case 0
  then have k: "k = 62" by simp
  have "doubleUntil n (2 ^ k) = Some (2 ^ k)"
    using 0 by (simp only: doubleUntil_power2 k) simp
  with 0 show ?case unfolding k by blast
next
  case (Suc d)
  show ?case
  proof (cases "2 ^ k < sint n")
    case True
    have "d = 62 - Suc k" "Suc k \<le> 62" using Suc.hyps(2) by auto
    note IH = Suc.hyps(1) [OF this(1) Suc.prems(1) this(2)]
    from True have "Suc k = 0 \<or> 2 ^ (Suc k - 1) < sint n" by (simp only: diff_Suc_1 simp_thms)
    from IH [OF this] show ?thesis
      using Suc.prems(2) True by (simp only: doubleUntil_power2 if_True)
  next
    case False
    then have "doubleUntil n (2 ^ k) = Some (2 ^ k)"
      using Suc.prems(2) by (simp only: doubleUntil_power2 if_False)
    with False Suc.prems show ?thesis by (intro exI [of _ k]) (simp only: not_less simp_thms)
  qed
qed

lemma nextPowerOfTwo_power:
  assumes "sint n \<le> 2 ^ 62"
  shows "\<exists>j. j \<le> 62 \<and> nextPowerOfTwo n = Some (2 ^ j) \<and> sint (2 ^ j :: int64) = 2 ^ j \<and>
    sint n \<le> 2 ^ j \<and> (\<forall>i. sint n \<le> 2 ^ i \<longrightarrow> j \<le> i)"
proof (cases "sint n \<le> 1")
  case True
  then show ?thesis by (intro exI [of _ 0]) (simp add: nextPowerOfTwo_def)
next
  case False
  obtain j where j: "j \<le> 62" "doubleUntil n (2 ^ 0) = Some (2 ^ j)" "sint n \<le> 2 ^ j"
    "j = 0 \<or> 2 ^ (j - 1) < sint n"
    using doubleUntil_returns [OF assms, of 0] by auto
  have "j \<le> i" if "sint n \<le> 2 ^ i" for i
  proof (rule ccontr)
    assume "\<not> j \<le> i"
    then have "(2 :: int) ^ i \<le> 2 ^ (j - 1)" by (intro power_increasing) auto
    with that j(4) \<open>\<not> j \<le> i\<close> show False by (auto simp del: power_increasing_iff)
  qed
  with j False show ?thesis
    by (intro exI [of _ j]) (simp add: nextPowerOfTwo_def sint_power2)
qed

definition doubled :: "int64 \<Rightarrow> bool" where
  "doubled p \<longleftrightarrow> p = 0 \<or> (\<exists>k\<le>63. p = 2 ^ k)"

lemma doubled_cases:
  assumes "doubled p"
  obtains "p = 0" | "p = 2 ^ 63" | k where "k \<le> 62" "p = 2 ^ k"
proof -
  have "k = 63 \<or> k \<le> 62" if "k \<le> 63" for k :: nat using that by linarith
  with assms that show thesis unfolding doubled_def by metis
qed

lemma doubled_small: "doubled p \<Longrightarrow> sint p \<le> 2 ^ 62"
proof (erule doubled_cases)
  show "p = 0 \<Longrightarrow> sint p \<le> 2 ^ 62" "p = 2 ^ 63 \<Longrightarrow> sint p \<le> 2 ^ 62" by simp_all
  show "sint p \<le> 2 ^ 62" if "k \<le> 62" "p = 2 ^ k" for k
    unfolding that(2) sint_power2 [OF that(1)] by (rule power_increasing [OF that(1)]) simp
qed

lemma doubled_push_bit: "doubled p \<Longrightarrow> doubled (push_bit 1 p)"
proof (erule doubled_cases)
  show "p = 0 \<Longrightarrow> doubled (push_bit 1 p)" by (simp add: doubled_def)
  show "p = 2 ^ 63 \<Longrightarrow> doubled (push_bit 1 p)" by (simp add: doubled_def)
  show "doubled (push_bit 1 p)" if "k \<le> 62" "p = 2 ^ k" for k
    unfolding that(2) push_bit_power2 doubled_def using that(1) by (intro disjI2 exI [of _ "Suc k"]) simp
qed

lemma doubleUntil_overflow:
  assumes n: "2 ^ 62 < sint n" and ret: "doubleUntil n p = Some r"
  shows "\<not> doubled p"
proof -
  have "n = n \<longrightarrow> \<not> doubled p"
  proof (rule doubleUntil.raw_induct [where P = "\<lambda>m p r. m = n \<longrightarrow> \<not> doubled p", OF _ ret])
    fix f m p r
    assume IH: "\<And>m p r. f m p = Some r \<Longrightarrow> m = n \<longrightarrow> \<not> doubled p"
      and eq: "(if sint p < sint m then f m (push_bit 1 p) else Some p) = Some r"
    show "m = n \<longrightarrow> \<not> doubled p"
    proof (intro impI notI)
      assume m: "m = n" and "doubled p"
      then have "sint p < sint m" using doubled_small n by (meson le_less_trans)
      with eq have "f m (push_bit 1 p) = Some r" by simp
      with IH m \<open>doubled p\<close> doubled_push_bit show False by blast
    qed
  qed
  then show ?thesis by simp
qed

text \<open>Above \<open>2 ^ 62\<close> the doubling overflows to a negative number and then to zero, and
  \<^verbatim>\<open>nextPowerOfTwo\<close> never returns.\<close>

lemma nextPowerOfTwo_overflow:
  assumes "2 ^ 62 < sint n"
  shows "nextPowerOfTwo n = None"
proof -
  have "doubled 1" unfolding doubled_def by (intro disjI2 exI [of _ 0]) simp
  then have "doubleUntil n 1 \<noteq> Some r" for r
    using doubleUntil_overflow [OF assms, of 1 r] by blast
  then have "doubleUntil n 1 = None" by (cases "doubleUntil n 1") auto
  with assms show ?thesis by (simp add: nextPowerOfTwo_def)
qed

lemma shrinkCount_power2:
  assumes "k \<le> 62" "0 < sint m"
  shows "\<exists>j\<le>k. shrinkCount m (2 ^ k) = 2 ^ j \<and> (j = 0 \<or> 1024 \<le> sint m div 2 ^ j)"
  using assms(1)
proof (induction k)
  case 0
  then show ?case by (subst shrinkCount.simps) simp
next
  case (Suc k)
  have half: "signed_drop_bit 1 (2 ^ Suc k :: int64) = 2 ^ k"
  proof (rule signed_word_eqI)
    show "sint (signed_drop_bit 1 (2 ^ Suc k :: int64)) = sint (2 ^ k :: int64)"
      using Suc.prems by (simp only: sint_half sint_power2 Suc_leD) simp
  qed
  have rec: "shrinkCount m (2 ^ Suc k) = (if sint m div 2 ^ Suc k < 1024 then shrinkCount m (2 ^ k) else 2 ^ Suc k)"
  proof -
    have "(1 :: int) < 2 ^ Suc k" by (rule one_less_power) auto
    then show ?thesis
      using Suc.prems by (subst shrinkCount.simps) (simp only: sint_power2 half simp_thms)
  qed
  show ?case
  proof (cases "sint m div 2 ^ Suc k < 1024")
    case True
    obtain j where "j \<le> k" "shrinkCount m (2 ^ k) = 2 ^ j" "j = 0 \<or> 1024 \<le> sint m div 2 ^ j"
      using Suc by auto
    with True rec show ?thesis by (intro exI [of _ j]) (simp only: if_True le_SucI simp_thms)
  next
    case False
    with rec show ?thesis by (intro exI [of _ "Suc k"]) (simp only: not_less simp_thms order_refl if_False)
  qed
qed

section \<open>Budgets\<close>

lemma int64_bounds: "- (2 ^ 63) \<le> sint (w :: int64)" "sint (w :: int64) < 2 ^ 63"
  using sint_ge [of w] sint_lt [of w] by auto

lemma sint_shardMaxBytes:
  assumes "0 < sint m" "0 < sint cnt"
  shows "sint (shardMaxBytes m cnt i) =
    sint m div sint cnt + (if int i < sint m mod sint cnt then 1 else 0)"
proof -
  let ?q = "sint m div sint cnt" and ?r = "sint m mod sint cnt"
  have q: "0 \<le> ?q" "0 \<le> ?r" "?r < sint cnt" using assms by (auto simp: pos_imp_zdiv_nonneg_iff)
  have m: "sint m = sint cnt * ?q + ?r" by simp
  moreover have "?q \<le> sint cnt * ?q" using assms(2) q(1) by (simp add: mult_le_cancel_right1)
  ultimately have "?q + ?r \<le> sint m" by linarith
  with int64_bounds(2) [of m] have b: "?q + ?r < 2 ^ 63" by linarith
  then have "sint (word_of_int ?r :: int64) = ?r" using q by (intro sint_of_small) auto
  moreover have "sint (word_of_int ?q :: int64) = ?q" using q b by (intro sint_of_small) auto
  moreover have "sint (word_of_int ?q + 1 :: int64) = ?q + 1" if "int i < ?r"
  proof -
    have "sint (word_of_int (?q + 1) :: int64) = ?q + 1"
      using that q b by (intro sint_of_small) linarith+
    then show ?thesis by simp
  qed
  ultimately show ?thesis by (auto simp: shardMaxBytes_def Let_def)
qed

lemma sum_indicator: "0 \<le> r \<Longrightarrow> (\<Sum>i\<leftarrow>[0..<n]. if int i < r then 1 else 0) = min (int n) r"
  by (induction n) auto

lemma sum_shares:
  assumes "0 \<le> r" "r < int n"
  shows "(\<Sum>i\<leftarrow>[0..<n]. b + (if int i < r then 1 else (0 :: int))) = int n * b + r"
proof -
  have "(\<Sum>i\<leftarrow>[0..<n]. b + (if int i < r then 1 else (0 :: int))) =
      (\<Sum>i\<leftarrow>[0..<n]. b) + (\<Sum>i\<leftarrow>[0..<n]. if int i < r then 1 else 0)"
    by (rule sum_list_addf)
  also have "\<dots> = int n * b + r" using assms by (simp add: sum_indicator sum_list_triv)
  finally show ?thesis .
qed

lemma newShardedLRU_shards:
  assumes "newShardedLRU opts = Some s" "sint (ShardCount opts) \<le> 2 ^ 62"
  obtains j where "j \<le> 62" "length (shards s) = 2 ^ j"
    "\<And>i. i < 2 ^ j \<Longrightarrow> shards s ! i = newLRUCacheInternal
       (if 0 < sint (MaxBytes opts) then opts\<lparr>MaxBytes := shardMaxBytes (MaxBytes opts) (2 ^ j) i\<rparr> else opts) False"
    "0 < sint (MaxBytes opts) \<Longrightarrow> j = 0 \<or> 1024 \<le> sint (MaxBytes opts) div 2 ^ j"
proof -
  let ?n = "if sint (ShardCount opts) \<le> 0 then 16 else ShardCount opts"
  have "sint ?n \<le> 2 ^ 62" using assms(2) by simp
  then obtain k where k: "k \<le> 62" "nextPowerOfTwo ?n = Some (2 ^ k)"
    using nextPowerOfTwo_power by blast
  obtain j where j: "j \<le> 62"
    "(if 0 < sint (MaxBytes opts) then shrinkCount (MaxBytes opts) (2 ^ k) else 2 ^ k) = (2 ^ j :: int64)"
    "0 < sint (MaxBytes opts) \<Longrightarrow> j = 0 \<or> 1024 \<le> sint (MaxBytes opts) div 2 ^ j"
  proof (cases "0 < sint (MaxBytes opts)")
    case True
    with shrinkCount_power2 [OF k(1) True] k(1) that show thesis by (metis le_trans)
  next
    case False
    with k(1) that show thesis by metis
  qed
  have "nat (2 ^ j) = 2 ^ j" by (simp add: nat_power_eq)
  with assms(1) k(2) j(2) have "shards s = map (\<lambda>i. newLRUCacheInternal
      (if 0 < sint (MaxBytes opts) then opts\<lparr>MaxBytes := shardMaxBytes (MaxBytes opts) (2 ^ j) i\<rparr> else opts) False)
      [0..<2 ^ j]"
    unfolding newShardedLRU_def Let_def by (auto simp: sint_power2 [OF j(1)])
  with j show thesis by (intro that [of j]) auto
qed

text \<open>C23. The budgets of the shards add up to the configured budget exactly, the shard count is a
  power of two, and each shard has at least 1 KiB unless there is a single one.\<close>

theorem newShardedLRU_budget:
  assumes "newShardedLRU opts = Some s" "sint (ShardCount opts) \<le> 2 ^ 62" "0 < sint (MaxBytes opts)"
  shows "(\<Sum>c\<leftarrow>shards s. sint (maxBytes c)) = sint (MaxBytes opts) \<and>
    (\<exists>j. length (shards s) = 2 ^ j) \<and>
    (length (shards s) = 1 \<or> (\<forall>c\<in>set (shards s). 1024 \<le> sint (maxBytes c)))"
proof -
  obtain j where j: "j \<le> 62" "length (shards s) = 2 ^ j"
    "\<And>i. i < 2 ^ j \<Longrightarrow> shards s ! i = newLRUCacheInternal
       (opts\<lparr>MaxBytes := shardMaxBytes (MaxBytes opts) (2 ^ j) i\<rparr>) False"
    "j = 0 \<or> 1024 \<le> sint (MaxBytes opts) div 2 ^ j"
    using newShardedLRU_shards [OF assms(1,2)] assms(3) by (smt (verit))
  let ?m = "sint (MaxBytes opts)"
  let ?b = "?m div 2 ^ j" and ?r = "?m mod 2 ^ j"
  have max: "sint (maxBytes (shards s ! i)) = ?b + (if int i < ?r then 1 else 0)" if "i < 2 ^ j" for i
    using j(3) [OF that] assms(3) sint_shardMaxBytes [of "MaxBytes opts" "2 ^ j" i]
    by (simp add: newLRUCacheInternal_def sint_power2 [OF j(1)])
  have "map (\<lambda>c. sint (maxBytes c)) (shards s) = map (\<lambda>i. ?b + (if int i < ?r then 1 else 0)) [0..<2 ^ j]"
    by (rule nth_equalityI) (use j(2) max in auto)
  then have "(\<Sum>c\<leftarrow>shards s. sint (maxBytes c)) = int (2 ^ j) * ?b + ?r"
    by (simp only:) (rule sum_shares, auto)
  moreover have "1024 \<le> sint (maxBytes c)" if "c \<in> set (shards s)" "j \<noteq> 0" for c
  proof -
    obtain i where "i < 2 ^ j" "c = shards s ! i" using \<open>c \<in> set (shards s)\<close> j(2) by (auto simp: in_set_conv_nth)
    with max j(4) \<open>j \<noteq> 0\<close> show ?thesis by auto
  qed
  ultimately show ?thesis using j(2) by auto
qed

section \<open>Routing: correctness\<close>

lemma shardIndex_less:
  assumes "0 < n" "n < 2 ^ 63"
  shows "shardIndex k n < n"
proof -
  have "(of_nat n - 1 :: int64) = of_nat (n - 1)" using assms(1) by (simp add: of_nat_diff)
  moreover have "n - 1 < 2 ^ 64" using assms(2) by simp
  then have "unat (of_nat (n - 1) :: int64) = n - 1" by (simp only: unat_of_nat len_num0 len_num1 len_bit0 mult_1_right) simp
  ultimately have "unat (of_nat n - 1 :: int64) = n - 1" by (simp only:)
  moreover have "(ucast (fnv32a (bytes_of k)) :: int64) AND (of_nat n - 1) \<le> of_nat n - 1"
    by (rule word_and_le1)
  ultimately have "shardIndex k n \<le> n - 1"
    unfolding shardIndex_def by (metis word_le_nat_alt)
  with assms(1) show ?thesis by simp
qed

text \<open>With \<open>2 ^ j\<close> shards the mask selects the hash modulo the shard count, so every key has one
  shard and every shard can be selected.\<close>

lemma shardIndex_mod:
  assumes "j \<le> 62"
  shows "shardIndex k (2 ^ j) = unat (fnv32a (bytes_of k)) mod 2 ^ j"
proof -
  have "(of_nat (2 ^ j) - 1 :: int64) = mask j" by (simp add: mask_eq_exp_minus_1)
  then have "(ucast (fnv32a (bytes_of k)) :: int64) AND (of_nat (2 ^ j) - 1) =
      take_bit j (ucast (fnv32a (bytes_of k)))"
    by (simp only: take_bit_eq_mask)
  then show ?thesis
    using assms
    by (simp add: shardIndex_def unsigned_take_bit_eq unsigned_ucast_eq min_absorb1 flip: take_bit_eq_mod)
qed

section \<open>The sharded store as a store\<close>

definition sharded_inv :: "shardedLRU \<Rightarrow> bool" where
  "sharded_inv s \<longleftrightarrow> shards s \<noteq> [] \<and> length (shards s) < 2 ^ 63 \<and>
     (\<forall>i<length (shards s). lru_inv (shards s ! i) \<and>
        (\<forall>k. lru_content (shards s ! i) k \<noteq> None \<longrightarrow> shardIndex k (length (shards s)) = i))"

definition sharded_content :: "shardedLRU \<Rightarrow> string \<Rightarrow> (Value \<times> time option) option" where
  "sharded_content s k = lru_content (shard k s) k"

definition sharded_room :: "shardedLRU \<Rightarrow> string \<Rightarrow> Value \<Rightarrow> bool" where
  "sharded_room s k v = lru_room (shard k s) k v"

lemma sharded_index: "sharded_inv s \<Longrightarrow> shardIndex k (length (shards s)) < length (shards s)"
  by (simp add: sharded_inv_def shardIndex_less)

lemma sharded_shard_inv: "sharded_inv s \<Longrightarrow> lru_inv (shard k s)"
  using sharded_index [of s k] by (simp add: sharded_inv_def shard_def)

lemma shard_setShard:
  assumes "sharded_inv s"
  shows "shard k' (setShard k c s) =
    (if shardIndex k' (length (shards s)) = shardIndex k (length (shards s)) then c else shard k' s)"
  using sharded_index [OF assms] by (simp add: shard_def setShard_def)

text \<open>A step on the shard of \<open>k\<close> that adds no key but \<open>k\<close> keeps the invariant.\<close>

lemma sharded_inv_setShard:
  assumes "sharded_inv s" "lru_inv c" "\<And>k'. k' \<noteq> k \<Longrightarrow> lru_content c k' \<in> {None, lru_content (shard k s) k'}"
  shows "sharded_inv (setShard k c s)"
proof -
  let ?n = "length (shards s)"
  have "shardIndex k' ?n = shardIndex k ?n" if "lru_content c k' \<noteq> None" for k'
  proof (cases "k' = k")
    case False
    with assms(3) that have "lru_content (shard k s) k' \<noteq> None" by (metis insertE singletonD)
    with assms(1) sharded_index [OF assms(1), of k] show ?thesis by (simp add: sharded_inv_def shard_def)
  qed simp
  with assms(1,2) sharded_index [OF assms(1), of k] show ?thesis
    by (auto simp: sharded_inv_def setShard_def nth_list_update)
qed

lemma sharded_content_setShard:
  assumes "sharded_inv s" "\<And>k'. k' \<noteq> k \<Longrightarrow> lru_content c k' = lru_content (shard k s) k'"
  shows "sharded_content (setShard k c s) = (sharded_content s)(k := lru_content c k)"
  using assms by (auto simp: sharded_content_def shard_setShard fun_eq_iff) (simp_all add: shard_def)

lemma sharded_Len_sum: "sharded_Len s = (\<Sum>i<length (shards s). lru_Len (shards s ! i))"
proof -
  have "foldl (\<lambda>total c. total + lru_Len c) a l = a + (\<Sum>c\<leftarrow>l. lru_Len c)" for a l
    by (induction l arbitrary: a) auto
  then show ?thesis by (simp add: sharded_Len_def sum_list_sum_nth atLeast0LessThan)
qed

lemma sharded_Len_content:
  assumes "sharded_inv s"
  shows "sharded_Len s = card (dom (sharded_content s))"
proof -
  let ?D = "\<lambda>i. dom (lru_content (shards s ! i))"
  have "dom (sharded_content s) = (\<Union>i<length (shards s). ?D i)"
    using assms sharded_index [OF assms]
    by (fastforce simp: sharded_content_def shard_def sharded_inv_def dom_def)
  moreover have "card (\<Union>i<length (shards s). ?D i) = (\<Sum>i<length (shards s). card (?D i))"
  proof (rule card_UN_disjoint)
    show "\<forall>i\<in>{..<length (shards s)}. \<forall>j\<in>{..<length (shards s)}. i \<noteq> j \<longrightarrow> ?D i \<inter> ?D j = {}"
      using assms unfolding sharded_inv_def dom_def by blast
  qed (simp_all add: lru_content_def finite_dom_map_of)
  ultimately show ?thesis
    using assms by (simp add: sharded_Len_sum sharded_inv_def lru_Len_content)
qed

lemma sharded_Clear_contract:
  assumes "sharded_inv s"
  shows "sharded_content (sharded_Clear s) = Map.empty" "sharded_inv (sharded_Clear s)"
proof -
  have "shard k (sharded_Clear s) = lru_Clear (shard k s)" for k
    using sharded_index [OF assms, of k] by (simp add: shard_def sharded_Clear_def)
  then show "sharded_content (sharded_Clear s) = Map.empty"
    using lru.clear_content sharded_shard_inv [OF assms] by (simp add: sharded_content_def fun_eq_iff)
  show "sharded_inv (sharded_Clear s)"
    using assms by (simp add: sharded_inv_def sharded_Clear_def lru.inv_clear lru.clear_content)
qed

lemmas sharded_op_defs = sharded_Get_def sharded_SetWithExpiration_def sharded_Delete_def case_prod_beta Let_def

interpretation sharded: store_contract sharded_inv sharded_content sharded_room sharded_Get
  sharded_SetWithExpiration sharded_Delete sharded_Clear sharded_Len
proof (unfold_locales, goal_cases)
  case (1 s now k)
  then show ?case
    by (simp add: sharded_op_defs sharded_content_def lru.get_result sharded_shard_inv)
next
  case (2 s now k k')
  then have "sharded_content (snd (sharded_Get now k s)) =
      (sharded_content s)(k := lru_content (snd (lru_Get now k (shard k s))) k)"
    unfolding sharded_op_defs snd_conv
    by (intro sharded_content_setShard) (simp_all add: lru.get_content sharded_shard_inv)
  with 2 show ?case
    by (simp add: sharded_op_defs lru.get_content sharded_shard_inv sharded_content_def)
next
  case (3 s k' k now now' v d)
  have "lru_content (lru_SetWithExpiration now now' k (Some v) d (shard k s)) k' \<in> {None, lru_content (shard k s) k'}"
    using 3 by (intro lru.put_other) (simp_all add: sharded_shard_inv)
  with 3 show ?case
    by (auto simp: sharded_op_defs sharded_content_def shard_setShard) (simp_all add: shard_def)
next
  case (4 s now now' k v d)
  with lru.put_same [OF sharded_shard_inv [OF 4, of k]] show ?case
    by (simp add: sharded_op_defs sharded_content_def shard_setShard)
next
  case (5 s k v now' now d)
  then show ?case
    by (simp add: sharded_op_defs sharded_content_def shard_setShard sharded_room_def
        lru.put_room sharded_shard_inv)
next
  case (6 now now' k d s)
  show ?case by (simp add: sharded_op_defs lru.put_nil)
next
  case (7 s k)
  then show ?case by (simp add: sharded_op_defs sharded_content_def lru.del_result sharded_shard_inv)
next
  case (8 s k)
  then have "sharded_content (snd (sharded_Delete k s)) =
      (sharded_content s)(k := lru_content (snd (lru_Delete k (shard k s))) k)"
    unfolding sharded_op_defs snd_conv
    by (intro sharded_content_setShard) (simp_all add: lru.del_content sharded_shard_inv)
  with 8 show ?case by (simp add: lru.del_content sharded_shard_inv)
next
  case (9 s)
  then show ?case by (rule sharded_Clear_contract)
next
  case (10 s)
  then show ?case by (rule sharded_Len_content)
next
  case (11 s now k)
  then show ?case
    unfolding sharded_op_defs snd_conv
    by (intro sharded_inv_setShard) (auto simp: lru.inv_get lru.get_content sharded_shard_inv)
next
  case (12 s now now' k ov d)
  have "lru_content (lru_SetWithExpiration now now' k ov d (shard k s)) k' \<in> {None, lru_content (shard k s) k'}"
    if "k' \<noteq> k" for k'
    using that 12 lru.put_other [OF sharded_shard_inv [OF 12] that]
    by (cases ov) (simp_all add: lru.put_nil lru.del_content sharded_shard_inv)
  with 12 show ?case
    unfolding sharded_op_defs by (intro sharded_inv_setShard) (simp_all add: lru.inv_put sharded_shard_inv)
next
  case (13 s k)
  then show ?case
    unfolding sharded_op_defs snd_conv
    by (intro sharded_inv_setShard) (simp_all add: lru.inv_del lru.del_content sharded_shard_inv)
next
  case (14 s)
  then show ?case by (rule sharded_Clear_contract)
next
  case (15 s k v now k')
  then show ?case
    by (auto simp: sharded_op_defs sharded_room_def shard_setShard) (simp add: shard_def lru.room_get [OF sharded_shard_inv, unfolded shard_def])
next
  case (16 s k v k')
  then show ?case
    by (auto simp: sharded_op_defs sharded_room_def shard_setShard) (simp add: shard_def lru.room_del [OF sharded_shard_inv, unfolded shard_def])
next
  case (17 s k v)
  have "shard k (sharded_Clear s) = lru_Clear (shard k s)"
    using sharded_index [OF 17(1), of k] by (simp add: shard_def sharded_Clear_def)
  with 17 show ?case by (simp add: sharded_room_def lru.room_clear sharded_shard_inv)
qed

lemma newLRU_inv: "lru_inv (newLRUCacheInternal opts b)"
  by (simp add: newLRUCacheInternal_def lru_wf_def index_def)

lemma newLRU_content: "lru_content (newLRUCacheInternal opts b) = Map.empty"
  by (simp add: newLRUCacheInternal_def lru_content_def absl_def)

lemma newShardedLRU_inv:
  assumes "newShardedLRU opts = Some s" "sint (ShardCount opts) \<le> 2 ^ 62"
  shows "sharded_inv s" "sharded_content s = Map.empty"
proof -
  obtain j where j: "j \<le> 62" "length (shards s) = 2 ^ j"
    "\<And>i. i < 2 ^ j \<Longrightarrow> \<exists>o'. shards s ! i = newLRUCacheInternal o' False"
    using newShardedLRU_shards [OF assms] by metis
  have "(2 :: nat) ^ j \<le> 2 ^ 62" using j(1) by (intro power_increasing) auto
  moreover have "shards s \<noteq> []" using j(2) by auto
  moreover have "lru_inv (shards s ! i)" "lru_content (shards s ! i) = Map.empty" if "i < 2 ^ j" for i
    using j(3) [OF that] newLRU_inv newLRU_content by metis+
  ultimately show inv: "sharded_inv s"
    using j(2) by (simp add: sharded_inv_def)
  show "sharded_content s = Map.empty"
    using sharded_index [OF inv] j(2) \<open>\<And>i. i < 2 ^ j \<Longrightarrow> lru_content (shards s ! i) = Map.empty\<close>
    by (simp add: sharded_content_def shard_def fun_eq_iff)
qed

lemma newShardedLRU_returns:
  assumes "sint (ShardCount opts) \<le> 2 ^ 62"
  shows "\<exists>s. newShardedLRU opts = Some s"
proof -
  let ?n = "if sint (ShardCount opts) \<le> 0 then 16 else ShardCount opts"
  have "sint ?n \<le> 2 ^ 62" using assms by simp
  then obtain k where "nextPowerOfTwo ?n = Some (2 ^ k)" using nextPowerOfTwo_power by blast
  then show ?thesis by (simp add: newShardedLRU_def Let_def)
qed

text \<open>C24. For every shard count up to \<open>2 ^ 62\<close>, \<^verbatim>\<open>nextPowerOfTwo\<close> returns the least power of two
  that is not smaller. Above it the doubling overflows and \<^verbatim>\<open>nextPowerOfTwo\<close> never returns.\<close>

theorem nextPowerOfTwo_least:
  "if sint n \<le> 2 ^ 62
   then \<exists>j. j \<le> 62 \<and> nextPowerOfTwo n = Some (2 ^ j) \<and> sint (2 ^ j :: int64) = 2 ^ j \<and>
     sint n \<le> 2 ^ j \<and> (\<forall>i. sint n \<le> 2 ^ i \<longrightarrow> j \<le> i)
   else nextPowerOfTwo n = None"
  using nextPowerOfTwo_power [of n] nextPowerOfTwo_overflow [of n] by auto

section \<open>Instances\<close>

theorem nextPowerOfTwo_least_witness:
  "(\<exists>j. nextPowerOfTwo 5 = Some (2 ^ j) \<and> 5 \<le> (2 :: int) ^ j \<and> j \<le> 3) \<and> nextPowerOfTwo 4611686018427387905 = None"
proof -
  obtain j where j: "nextPowerOfTwo 5 = Some (2 ^ j)" "sint (5 :: int64) \<le> 2 ^ j"
    "\<And>i. sint (5 :: int64) \<le> 2 ^ i \<Longrightarrow> j \<le> i"
    using nextPowerOfTwo_least [of 5] by auto
  moreover have "j \<le> 3" by (rule j(3)) simp
  moreover have "nextPowerOfTwo 4611686018427387905 = None" using nextPowerOfTwo_least [of 4611686018427387905] by simp
  ultimately show ?thesis by auto
qed

lemma nextPowerOfTwo_4: "nextPowerOfTwo 4 = Some 4"
  by (simp add: nextPowerOfTwo_def doubleUntil.simps)

theorem newShardedLRU_budget_witness:
  "let opts = \<lparr>MaxBytes = 3001, ShardCount = 4, CleanupInterval = 0, OnEvicted = False\<rparr> in
   map_option (\<lambda>s. \<Sum>c\<leftarrow>shards s. sint (maxBytes c)) (newShardedLRU opts) = Some 3001 \<and>
   map_option (\<lambda>s. map (\<lambda>c. sint (maxBytes c)) (shards s)) (newShardedLRU opts) = Some [1501, 1500]"
proof -
  let ?opts = "\<lparr>MaxBytes = 3001, ShardCount = 4, CleanupInterval = 0, OnEvicted = False\<rparr>"
  obtain s where s: "newShardedLRU ?opts = Some s" "map (\<lambda>c. sint (maxBytes c)) (shards s) = [1501, 1500]"
    by (auto simp: newShardedLRU_def nextPowerOfTwo_4 shrinkCount.simps sint_half shardMaxBytes_def
        newLRUCacheInternal_def upt_rec)
  with newShardedLRU_budget [of ?opts s] show ?thesis by simp
qed

lemma shardIndex_16: "shardIndex ''a'' (2 ^ 4) = 12"
proof -
  have "fnv32a (bytes_of ''a'') = 3826002220" by code_simp
  then show ?thesis using shardIndex_mod [of 4 "''a''"] by simp
qed

end
