(* ===== verification/Store.thy ===== *)
theory Store
  imports Sharded_Lru
begin

text \<open>
  The \<^verbatim>\<open>Store\<close> interface of \<^verbatim>\<open>src/store/store.go\<close> as the sum of its two implementations, with the
  dynamic dispatch of each method, and the factory \<^verbatim>\<open>NewStore\<close>.
\<close>

datatype Store = LRUStore lruCache | ShardedStore shardedLRU

definition NewStore :: "CacheType \<Rightarrow> Options \<Rightarrow> Store option" where
  "NewStore cacheType opts =
     (if cacheType = LRU then Some (LRUStore (newLRUCache opts))
      else if cacheType = ShardedLRU then map_option ShardedStore (newShardedLRU opts)
      else map_option ShardedStore (newShardedLRU opts))"

fun store_Get :: "time \<Rightarrow> string \<Rightarrow> Store \<Rightarrow> Value option \<times> Store" where
  "store_Get now k (LRUStore c) = map_prod id LRUStore (lru_Get now k c)"
| "store_Get now k (ShardedStore s) = map_prod id ShardedStore (sharded_Get now k s)"

fun store_SetWithExpiration ::
    "time \<Rightarrow> time \<Rightarrow> string \<Rightarrow> Value option \<Rightarrow> duration \<Rightarrow> Store \<Rightarrow> Store" where
  "store_SetWithExpiration now now' k v d (LRUStore c) =
     LRUStore (lru_SetWithExpiration now now' k v d c)"
| "store_SetWithExpiration now now' k v d (ShardedStore s) =
     ShardedStore (sharded_SetWithExpiration now now' k v d s)"

fun store_Set :: "time \<Rightarrow> time \<Rightarrow> string \<Rightarrow> Value option \<Rightarrow> Store \<Rightarrow> Store" where
  "store_Set now now' k v (LRUStore c) = LRUStore (lru_Set now now' k v c)"
| "store_Set now now' k v (ShardedStore s) = ShardedStore (sharded_Set now now' k v s)"

fun store_Delete :: "string \<Rightarrow> Store \<Rightarrow> bool \<times> Store" where
  "store_Delete k (LRUStore c) = map_prod id LRUStore (lru_Delete k c)"
| "store_Delete k (ShardedStore s) = map_prod id ShardedStore (sharded_Delete k s)"

fun store_Clear :: "Store \<Rightarrow> Store" where
  "store_Clear (LRUStore c) = LRUStore (lru_Clear c)"
| "store_Clear (ShardedStore s) = ShardedStore (sharded_Clear s)"

fun store_Len :: "Store \<Rightarrow> nat" where
  "store_Len (LRUStore c) = lru_Len c"
| "store_Len (ShardedStore s) = sharded_Len s"

fun store_Close :: "Store \<Rightarrow> Store" where
  "store_Close (LRUStore c) = LRUStore (lru_Close c)"
| "store_Close (ShardedStore s) = ShardedStore (sharded_Close s)"

text \<open>The goroutine that sweeps the store in the background.\<close>

fun store_cleanupLoop :: "signal list \<Rightarrow> Store \<Rightarrow> Store" where
  "store_cleanupLoop ss (LRUStore c) = LRUStore (lru_cleanupLoop ss c)"
| "store_cleanupLoop ss (ShardedStore s) = ShardedStore (sharded_cleanupLoop ss s)"

section \<open>The contract\<close>

fun store_inv :: "Store \<Rightarrow> bool" where
  "store_inv (LRUStore c) = lru_inv c"
| "store_inv (ShardedStore s) = sharded_inv s"

fun store_content :: "Store \<Rightarrow> string \<Rightarrow> (Value \<times> time option) option" where
  "store_content (LRUStore c) = lru_content c"
| "store_content (ShardedStore s) = sharded_content s"

fun store_room :: "Store \<Rightarrow> string \<Rightarrow> Value \<Rightarrow> bool" where
  "store_room (LRUStore c) = lru_room c"
| "store_room (ShardedStore s) = sharded_room s"

lemma store_Set_eq: "store_Set now now' k v s = store_SetWithExpiration now now' k v 0 s"
  by (cases s) (simp_all add: lru_Set_def sharded_Set_def sharded_SetWithExpiration_def)

interpretation st: store_contract store_inv store_content store_room store_Get
  store_SetWithExpiration store_Delete store_Clear store_Len
proof (unfold_locales, goal_cases)
  case (1 s now k) then show ?case by (cases s) (simp_all add: lru.get_result sharded.get_result)
next
  case (2 s now k k') then show ?case by (cases s) (simp_all add: lru.get_content sharded.get_content)
next
  case (3 s k' k now now' v d) then show ?case
    using lru.put_other sharded.put_other by (cases s) simp_all
next
  case (4 s now now' k v d) then show ?case
    using lru.put_same sharded.put_same by (cases s) simp_all
next
  case (5 s k v now' now d) then show ?case by (cases s) (simp_all add: lru.put_room sharded.put_room)
next
  case (6 now now' k d s) then show ?case by (cases s) (simp_all add: lru.put_nil sharded.put_nil)
next
  case (7 s k) then show ?case by (cases s) (simp_all add: lru.del_result sharded.del_result)
next
  case (8 s k) then show ?case by (cases s) (simp_all add: lru.del_content sharded.del_content)
next
  case (9 s) then show ?case by (cases s) (simp_all add: lru.clear_content sharded.clear_content)
next
  case (10 s) then show ?case by (cases s) (simp_all add: lru.len_content sharded.len_content)
next
  case (11 s now k) then show ?case by (cases s) (simp_all add: lru.inv_get sharded.inv_get)
next
  case (12 s now now' k ov d) then show ?case by (cases s) (simp_all add: lru.inv_put sharded.inv_put)
next
  case (13 s k) then show ?case by (cases s) (simp_all add: lru.inv_del sharded.inv_del)
next
  case (14 s) then show ?case by (cases s) (simp_all add: lru.inv_clear sharded.inv_clear)
next
  case (15 s k v now k') then show ?case by (cases s) (simp_all add: lru.room_get sharded.room_get)
next
  case (16 s k v k') then show ?case by (cases s) (simp_all add: lru.room_del sharded.room_del)
next
  case (17 s k v) then show ?case by (cases s) (simp_all add: lru.room_clear sharded.room_clear)
qed

lemma sharded_Close_inv: "sharded_inv s \<Longrightarrow> sharded_inv (sharded_Close s)"
proof -
  assume inv: "sharded_inv s"
  have "lru_content (lru_Close c) = lru_content c" for c
    by (simp add: lru_content_def absl_def lru_Close_def)
  with inv show ?thesis by (simp add: sharded_inv_def sharded_Close_def lru_Close_wf)
qed

lemma store_Close_inv: "store_inv s \<Longrightarrow> store_inv (store_Close s)"
  by (cases s) (simp_all add: lru_Close_wf sharded_Close_inv)

text \<open>The sweep only drops entries; deadlines stay as they are.\<close>

lemma lru_cleanupExpired_content:
  assumes "lru_inv c"
  shows "lru_inv (lru_cleanupExpired now c)" "lru_content (lru_cleanupExpired now c) k \<in> {None, lru_content c k}"
proof -
  obtain D log where "evictLocked now c = (without D c)\<lparr>evictLog := log\<rparr>" by (rule evictLocked_without [OF assms])
  then have D: "lru_cleanupExpired now c = (without D c)\<lparr>evictLog := log\<rparr>" by (simp add: lru_cleanupExpired_def)
  then show "lru_inv (lru_cleanupExpired now c)" using without_wf [OF assms] by simp
  have "absl (lru_cleanupExpired now c) = filter (\<lambda>p. fst p \<notin> D) (absl c)"
    unfolding absl_without [symmetric] D by (simp add: absl_def)
  then show "lru_content (lru_cleanupExpired now c) k \<in> {None, lru_content c k}" by (simp add: lru_content_def map_of_filter_key)
qed

lemma lru_cleanupLoop_content:
  "lru_inv c \<Longrightarrow> lru_inv (lru_cleanupLoop ss c) \<and> lru_content (lru_cleanupLoop ss c) k \<in> {None, lru_content c k}"
proof (induction ss c rule: lru_cleanupLoop.induct)
  case (2 now ss c)
  then show ?case using lru_cleanupExpired_content [of c now] by (metis insert_iff lru_cleanupLoop.simps(2) singletonD)
qed simp_all

lemma sharded_sweep_content:
  assumes "sharded_inv s"
  shows "sharded_inv (s\<lparr>shards := map (lru_cleanupExpired now) (shards s)\<rparr>)"
    "sharded_content (s\<lparr>shards := map (lru_cleanupExpired now) (shards s)\<rparr>) k \<in> {None, sharded_content s k}"
proof -
  have at: "lru_inv (shards s ! i)" "lru_content (shards s ! i) k' \<noteq> None \<Longrightarrow> shardIndex k' (length (shards s)) = i"
    if "i < length (shards s)" for i k' using assms that by (auto simp: sharded_inv_def)
  have "shardIndex k' (length (shards s)) = i"
    if "i < length (shards s)" "lru_content (lru_cleanupExpired now (shards s ! i)) k' \<noteq> None" for i k'
    using at [OF that(1)] lru_cleanupExpired_content(2) [OF at(1) [OF that(1)], of now k'] that(2) by auto
  with assms show "sharded_inv (s\<lparr>shards := map (lru_cleanupExpired now) (shards s)\<rparr>)"
    by (auto simp: sharded_inv_def lru_cleanupExpired_content)
  show "sharded_content (s\<lparr>shards := map (lru_cleanupExpired now) (shards s)\<rparr>) k \<in> {None, sharded_content s k}"
    using lru_cleanupExpired_content(2) [OF sharded_shard_inv [OF assms], of now k k] sharded_index [OF assms, of k]
    by (simp add: sharded_content_def shard_def)
qed

lemma sharded_cleanupLoop_content:
  "sharded_inv s \<Longrightarrow> sharded_inv (sharded_cleanupLoop ss s) \<and> sharded_content (sharded_cleanupLoop ss s) k \<in> {None, sharded_content s k}"
proof (induction ss s rule: sharded_cleanupLoop.induct)
  case (2 now ss s)
  then show ?case using sharded_sweep_content [of s now] by (metis insert_iff sharded_cleanupLoop.simps(2) singletonD)
qed simp_all

lemma store_cleanupLoop_content:
  "store_inv s \<Longrightarrow> store_inv (store_cleanupLoop ss s) \<and> store_content (store_cleanupLoop ss s) k \<in> {None, store_content s k}"
  by (cases s) (simp_all add: lru_cleanupLoop_content [simplified] sharded_cleanupLoop_content [simplified])

lemma NewStore_inv:
  assumes "NewStore t opts = Some s" "sint (ShardCount opts) \<le> 2 ^ 62"
  shows "store_inv s" "store_content s = Map.empty"
  using assms newShardedLRU_inv
  by (auto simp: NewStore_def newLRUCache_def newLRU_inv newLRU_content split: if_splits)

lemma NewStore_returns: "sint (ShardCount opts) \<le> 2 ^ 62 \<Longrightarrow> \<exists>s. NewStore t opts = Some s"
  using newShardedLRU_returns by (auto simp: NewStore_def)

text \<open>C17. Both stores keep the contract of the interface: what a store call put under a key is what a
  later read returns until its deadline, other keys keep their value or lose it to eviction, and
  an invented value is impossible.\<close>

theorem store_put_get:
  assumes "store_inv s" "alive now' (deadline now d)" "alive t (deadline now d)"
  shows "(store_room s k v \<longrightarrow> fst (store_Get t k (store_SetWithExpiration now now' k (Some v) d s)) = Some v) \<and>
    (\<forall>v'. fst (store_Get t k (store_SetWithExpiration now now' k (Some v) d s)) = Some v' \<longrightarrow> v' = v) \<and>
    (\<forall>k' w. k' \<noteq> k \<longrightarrow> fst (store_Get t k' (store_SetWithExpiration now now' k (Some v) d s)) = Some w \<longrightarrow>
       fst (store_Get t k' s) = Some w)"
proof (intro conjI allI impI)
  show "store_room s k v \<Longrightarrow> fst (store_Get t k (store_SetWithExpiration now now' k (Some v) d s)) = Some v"
    by (rule st.get_after_put [OF assms(1) _ assms(2,3)])
  show "v' = v" if "fst (store_Get t k (store_SetWithExpiration now now' k (Some v) d s)) = Some v'" for v'
    by (rule st.get_after_put_sound [OF assms(1) that])
  show "fst (store_Get t k' s) = Some w"
    if "k' \<noteq> k" "fst (store_Get t k' (store_SetWithExpiration now now' k (Some v) d s)) = Some w" for k' w
    by (rule st.get_other_after_put [OF assms(1) that])
qed

theorem store_put_get_witness:
  "let s = LRUStore (newLRUCache \<lparr>MaxBytes = 8, ShardCount = 1, CleanupInterval = 0, OnEvicted = False\<rparr>) in
   fst (store_Get 3 ''a'' (store_SetWithExpiration 1 2 ''a'' (Some (ByteViewV [1])) 10 s)) = Some (ByteViewV [1])"
  using store_put_get [of "LRUStore (newLRUCache \<lparr>MaxBytes = 8, ShardCount = 1, CleanupInterval = 0, OnEvicted = False\<rparr>)"
      2 1 10 3 "''a''" "ByteViewV [1]"]
  by (simp add: newLRUCache_def newLRU_inv deadline_def)
    (simp add: lru_room_def newLRUCacheInternal_def absl_def a_del_def sized_def)

end
