(* ===== verification/Cache.thy ===== *)
theory Cache
  imports Store Complex_Main
begin

text \<open>
  The node-local cache wrapper of \<^verbatim>\<open>src/cache.go\<close>. Its methods accept a nil receiver, so they act
  on \<open>Cache option\<close>; a closed cache ignores every call. Counters are 64-bit and wrap.
\<close>

section \<open>State\<close>

record Cache =
  cstore :: Store
  hits :: int64
  misses :: int64
  cclosed :: bool

record CacheOptions =
  oCacheType :: CacheType
  oMaxBytes :: int64
  oShardCount :: int64
  oCleanupTime :: duration
  oOnEvicted :: bool

definition DefaultCacheOptions :: CacheOptions where
  "DefaultCacheOptions = \<lparr>oCacheType = ShardedLRU, oMaxBytes = push_bit 20 8, oShardCount = 16,
     oCleanupTime = minute, oOnEvicted = False\<rparr>"

text \<open>\<^verbatim>\<open>NewCache\<close>; \<open>None\<close> when the construction of the store does not return.\<close>

definition NewCache :: "CacheOptions \<Rightarrow> Cache option" where
  "NewCache opts =
     (let t = (if oCacheType opts = [] then ShardedLRU else oCacheType opts);
          n = (if sint (oShardCount opts) \<le> 0 then 16 else oShardCount opts);
          d = (if oCleanupTime opts \<le> 0 then minute else oCleanupTime opts)
      in map_option (\<lambda>s. \<lparr>cstore = s, hits = 0, misses = 0, cclosed = False\<rparr>)
           (NewStore t \<lparr>MaxBytes = oMaxBytes opts, ShardCount = n, CleanupInterval = d,
              OnEvicted = oOnEvicted opts\<rparr>))"

section \<open>Operations\<close>

text \<open>The guard \<^verbatim>\<open>c == nil || closed\<close> of every method.\<close>

fun inert :: "Cache option \<Rightarrow> bool" where
  "inert None = True"
| "inert (Some c) = cclosed c"

definition Cache_Add :: "time \<Rightarrow> time \<Rightarrow> string \<Rightarrow> bytes \<Rightarrow> Cache option \<Rightarrow> Cache option" where
  "Cache_Add now now' key view c =
     (if inert c then c
      else map_option (\<lambda>c. c\<lparr>cstore := store_Set now now' key (Some (ByteViewV view)) (cstore c)\<rparr>) c)"

text \<open>
  \<open>now0\<close> is the reading of \<^verbatim>\<open>time.Until\<close>; \<open>now\<close> and \<open>now'\<close> are those of the store.
\<close>

definition Cache_AddWithExpiration ::
    "time \<Rightarrow> time \<Rightarrow> time \<Rightarrow> string \<Rightarrow> bytes \<Rightarrow> time \<Rightarrow> Cache option \<Rightarrow> Cache option" where
  "Cache_AddWithExpiration now0 now now' key view expirationTime c =
     (if inert c then c
      else (let ttl = expirationTime - now0
            in if ttl \<le> 0 then c
               else map_option (\<lambda>c. c\<lparr>cstore :=
                 store_SetWithExpiration now now' key (Some (ByteViewV view)) ttl (cstore c)\<rparr>) c))"

definition Cache_Get :: "time \<Rightarrow> string \<Rightarrow> Cache option \<Rightarrow> bytes option \<times> Cache option" where
  "Cache_Get now key c =
     (case c of
        None \<Rightarrow> (None, None)
      | Some c' \<Rightarrow>
          (if cclosed c' then (None, c)
           else (case store_Get now key (cstore c') of
                   (None, s) \<Rightarrow> (None, Some (c'\<lparr>cstore := s, misses := misses c' + 1\<rparr>))
                 | (Some (OtherV n), s) \<Rightarrow> (None, Some (c'\<lparr>cstore := s, misses := misses c' + 1\<rparr>))
                 | (Some (ByteViewV view), s) \<Rightarrow>
                     (Some view, Some (c'\<lparr>cstore := s, hits := hits c' + 1\<rparr>)))))"

definition Cache_Delete :: "string \<Rightarrow> Cache option \<Rightarrow> bool \<times> Cache option" where
  "Cache_Delete key c =
     (case c of
        None \<Rightarrow> (False, None)
      | Some c' \<Rightarrow>
          (if cclosed c' then (False, c)
           else (let (r, s) = store_Delete key (cstore c') in (r, Some (c'\<lparr>cstore := s\<rparr>)))))"

definition Cache_Clear :: "Cache option \<Rightarrow> Cache option" where
  "Cache_Clear c =
     (if inert c then c
      else map_option (\<lambda>c. c\<lparr>cstore := store_Clear (cstore c), hits := 0, misses := 0\<rparr>) c)"

fun Cache_Len :: "Cache option \<Rightarrow> nat" where
  "Cache_Len None = 0"
| "Cache_Len (Some c) = (if cclosed c then 0 else store_Len (cstore c))"

definition Cache_Close :: "Cache option \<Rightarrow> Cache option" where
  "Cache_Close c =
     (if inert c then c
      else map_option (\<lambda>c. c\<lparr>cclosed := True, cstore := store_Close (cstore c)\<rparr>) c)"

text \<open>
  \<^verbatim>\<open>Stats\<close> on a non-nil cache; the hit rate is the exact quotient (Go rounds it to a
  \<^verbatim>\<open>float64\<close>).
\<close>

record CacheStats =
  st_closed :: bool
  st_hits :: int64
  st_misses :: int64
  st_size :: nat
  st_hit_rate :: real

definition Cache_Stats :: "Cache \<Rightarrow> CacheStats" where
  "Cache_Stats c =
     (let total = hits c + misses c
      in \<lparr>st_closed = cclosed c, st_hits = hits c, st_misses = misses c, st_size = Cache_Len (Some c),
          st_hit_rate = (if 0 < sint total then real_of_int (sint (hits c)) / real_of_int (sint total) else 0)\<rparr>)"

section \<open>Properties\<close>

fun cache_inv :: "Cache option \<Rightarrow> bool" where
  "cache_inv None = True"
| "cache_inv (Some c) = store_inv (cstore c)"

text \<open>The bytes a cache answers for a key at a time, without the counters.\<close>

fun cache_view :: "Cache option \<Rightarrow> time \<Rightarrow> string \<Rightarrow> bytes option" where
  "cache_view None t k = None"
| "cache_view (Some c) t k =
     (if cclosed c then None
      else (case store_content (cstore c) k of
              Some (ByteViewV view, x) \<Rightarrow> if alive t x then Some view else None
            | _ \<Rightarrow> None))"

fun cache_room :: "Cache option \<Rightarrow> string \<Rightarrow> bytes \<Rightarrow> bool" where
  "cache_room None k view = False"
| "cache_room (Some c) k view = (\<not> cclosed c \<and> store_room (cstore c) k (ByteViewV view))"

lemma Cache_Get_view: "cache_inv c \<Longrightarrow> fst (Cache_Get now k c) = cache_view c now k"
proof (cases c)
  case (Some c')
  assume "cache_inv c"
  then have inv: "store_inv (cstore c')" by (simp add: Some)
  obtain r s where g: "store_Get now k (cstore c') = (r, s)" by fastforce
  with st.get_result [OF inv, of now k] show ?thesis
    by (auto simp: Some Cache_Get_def split: option.split Value.split if_splits)
qed (simp add: Cache_Get_def)

lemma cache_inv_ops:
  assumes "cache_inv c"
  shows "cache_inv (Cache_Add now now' k view c)"
    "cache_inv (Cache_AddWithExpiration now0 now now' k view e c)"
    "cache_inv (snd (Cache_Get now k c))" "cache_inv (snd (Cache_Delete k c))"
    "cache_inv (Cache_Clear c)" "cache_inv (Cache_Close c)"
proof -
  show "cache_inv (snd (Cache_Get now k c))"
  proof (cases c)
    case (Some c')
    obtain r s where g: "store_Get now k (cstore c') = (r, s)" by fastforce
    with st.inv_get [of "cstore c'" now k] assms Some show ?thesis
      by (auto simp: Cache_Get_def split: option.split Value.split)
  qed (simp add: Cache_Get_def)
qed (use assms in \<open>(cases c; auto simp: Cache_Add_def Cache_AddWithExpiration_def Cache_Delete_def
      Cache_Clear_def Cache_Close_def store_Set_eq st.inv_ops store_Close_inv Let_def case_prod_beta)\<close>)+

lemma cache_room_ops:
  assumes "cache_inv c" "cache_room c k view"
  shows "cache_room (snd (Cache_Get now k' c)) k view" "cache_room (snd (Cache_Delete k' c)) k view"
    "cache_room (Cache_Clear c) k view"
proof -
  obtain c' where c: "c = Some c'" using assms(2) by (cases c) auto
  obtain r s where g: "store_Get now k' (cstore c') = (r, s)" by fastforce
  have "store_room s k (ByteViewV view)"
    using st.room_get [of "cstore c'" k "ByteViewV view" now k'] assms g by (simp add: c)
  with g assms show "cache_room (snd (Cache_Get now k' c)) k view"
    by (auto simp: c Cache_Get_def split: option.split Value.split)
qed (use assms in \<open>(cases c; auto simp: Cache_Delete_def Cache_Clear_def Let_def case_prod_beta st.room_del st.room_clear)\<close>)+

lemma NewCache_inv:
  assumes "NewCache opts = Some c" "sint (oShardCount opts) \<le> 2 ^ 62"
  shows "cache_inv (Some c)" "cache_view (Some c) t k = None" "\<not> cclosed c" "hits c = 0" "misses c = 0"
  using assms by (auto simp: NewCache_def Let_def NewStore_inv split: if_splits)

lemma NewCache_returns: "sint (oShardCount opts) \<le> 2 ^ 62 \<Longrightarrow> \<exists>c. NewCache opts = Some c"
  by (simp add: NewCache_def Let_def NewStore_returns)

section \<open>What each call does to the view\<close>

lemma view_Get:
  assumes "cache_inv c" "now \<le> t"
  shows "cache_view (snd (Cache_Get now k c)) t k' = cache_view c t k'"
proof (cases c)
  case (Some c')
  then have inv: "store_inv (cstore c')" using assms by simp
  show ?thesis
  proof (cases "cclosed c'")
    case False
    obtain r s where g: "store_Get now k (cstore c') = (r, s)" by fastforce
    have "cache_view (snd (Cache_Get now k c)) t k' =
        (case store_content s k' of Some (ByteViewV view, x) \<Rightarrow> if alive t x then Some view else None | _ \<Rightarrow> None)"
      using g False by (auto simp: Some Cache_Get_def split: option.split Value.split)
    moreover have "store_content s k' = (if k' = k \<and> r = None then None else store_content (cstore c') k')"
      using st.get_content [OF inv, of now k k'] g by simp
    moreover have "\<not> alive t x" if "store_content (cstore c') k = Some (v, x)" "r = None" for v x
      using st.get_result [OF inv, of now k] g that assms(2) by (cases x) (auto split: if_splits)
    ultimately show ?thesis
      using False by (auto simp: Some split: option.split Value.split)
  qed (simp add: Some Cache_Get_def)
qed (simp add: Cache_Get_def)

lemma view_Delete:
  "cache_inv c \<Longrightarrow> cache_view (snd (Cache_Delete k c)) t k' = (if k' = k then None else cache_view c t k')"
  by (cases c) (auto simp: Cache_Delete_def Let_def case_prod_beta st.del_content)

lemma view_Clear: "cache_inv c \<Longrightarrow> cache_view (Cache_Clear c) t k = None"
  by (cases c) (auto simp: Cache_Clear_def st.clear_content)

lemma view_Close: "cache_view (Cache_Close c) t k = None"
  by (cases c) (auto simp: Cache_Close_def)

lemma view_store_other:
  assumes "store_inv s" "k' \<noteq> k"
  shows "store_content (store_SetWithExpiration now now' k (Some v) d s) k' \<in> {None, store_content s k'}"
  by (rule st.put_other [OF assms])

lemma view_AddWithExpiration_other:
  assumes "cache_inv c" "k' \<noteq> k"
  shows "cache_view (Cache_AddWithExpiration now0 now now' k view e c) t k' \<in> {None, cache_view c t k'}"
proof (cases c)
  case (Some c')
  with assms st.put_other [of "cstore c'" k' k now now' "ByteViewV view" "e - now0"]
  show ?thesis by (auto simp: Cache_AddWithExpiration_def Let_def)
qed (simp add: Cache_AddWithExpiration_def)

lemma view_Add_other:
  assumes "cache_inv c" "k' \<noteq> k"
  shows "cache_view (Cache_Add now now' k view c) t k' \<in> {None, cache_view c t k'}"
proof (cases c)
  case (Some c')
  with assms st.put_other [of "cstore c'" k' k now now' "ByteViewV view" 0]
  show ?thesis by (auto simp: Cache_Add_def store_Set_eq)
qed (simp add: Cache_Add_def)

lemma view_AddWithExpiration_room:
  assumes "cache_inv c" "cache_room c k view" "now0 < e" "now' < now + (e - now0)" "t < now + (e - now0)"
  shows "cache_view (Cache_AddWithExpiration now0 now now' k view e c) t k = Some view"
proof (cases c)
  case (Some c')
  with assms st.put_room [of "cstore c'" k "ByteViewV view" now' now "e - now0"]
  show ?thesis by (auto simp: Cache_AddWithExpiration_def Let_def deadline_def)
qed (use assms in simp)

lemma view_Add_room:
  assumes "cache_inv c" "cache_room c k view"
  shows "cache_view (Cache_Add now now' k view c) t k = Some view"
proof (cases c)
  case (Some c')
  with assms st.put_room [of "cstore c'" k "ByteViewV view" now' now 0]
  show ?thesis by (auto simp: Cache_Add_def store_Set_eq deadline_def)
qed (use assms in simp)

lemma view_Add_same:
  assumes "cache_inv c"
  shows "cache_view (Cache_Add now now' k view c) t k \<in> {None, Some view}"
proof (cases c)
  case (Some c')
  with assms st.put_same [of "cstore c'" now now' k "ByteViewV view" 0]
  show ?thesis by (auto simp: Cache_Add_def store_Set_eq)
qed (simp add: Cache_Add_def)

text \<open>A deadline that has passed leaves the cache, and an older value of the key, untouched.\<close>

lemma view_AddWithExpiration_same:
  assumes "cache_inv c"
  shows "cache_view (Cache_AddWithExpiration now0 now now' k view e c) t k \<in>
    (if now0 < e then {None, Some view} else {cache_view c t k})"
proof (cases c)
  case (Some c')
  with assms st.put_same [of "cstore c'" now now' k "ByteViewV view" "e - now0"]
  show ?thesis by (auto simp: Cache_AddWithExpiration_def Let_def)
qed (simp add: Cache_AddWithExpiration_def)

text \<open>A nil or closed cache answers every call with the zero result and never changes.\<close>

lemma Cache_closed_inert:
  assumes "inert c"
  shows "Cache_Add now now' k view c = c \<and> Cache_AddWithExpiration now0 now now' k view e c = c \<and>
    Cache_Get now k c = (None, c) \<and> Cache_Delete k c = (False, c) \<and> Cache_Clear c = c \<and>
    Cache_Len c = 0 \<and> Cache_Close c = c"
  using assms by (cases c) (auto simp: Cache_Add_def Cache_AddWithExpiration_def Cache_Get_def
      Cache_Delete_def Cache_Clear_def Cache_Close_def)

text \<open>A read counts as exactly one hit when it returns bytes and exactly one miss otherwise.\<close>

lemma Cache_Get_counts:
  assumes "\<not> cclosed c" "Cache_Get now k (Some c) = (r, Some c')"
  shows "hits c' = hits c + (if r = None then 0 else 1) \<and> misses c' = misses c + (if r = None then 1 else 0)"
  using assms by (auto simp: Cache_Get_def split: prod.splits option.splits Value.splits)

end
