(* ===== verification/Singleflight.thy ===== *)
theory Singleflight
  imports Prelude
begin

text \<open>
  Duplicate suppression of \<^verbatim>\<open>src/singleflight/singleflight.go\<close>. \<^verbatim>\<open>Do\<close> is cut at its synchronisation
  points into sections that run without interference: the two critical sections of the mutex, the
  run of \<open>fn\<close>, \<^verbatim>\<open>wg.Done\<close> and \<^verbatim>\<open>wg.Wait\<close>. A step relation interleaves the sections of any number of
  callers in any order; the lemmas hold in every state it reaches.
\<close>

section \<open>Calls and the group\<close>

text \<open>What \<open>fn\<close> does: it returns a value and an error, each possibly nil, or it panics.\<close>

datatype ('v, 'e, 'p) outcome = Return "'v option" "'e option" | Panic 'p

record ('v, 'e, 'p) call =
  wg :: nat
  c_val :: "'v option"
  c_err :: "'e option"
  panicVal :: "'p option"

definition new_call :: "('v, 'e, 'p) call" where
  "new_call = \<lparr>wg = 0, c_val = None, c_err = None, panicVal = None\<rparr>"

text \<open>
  The Go field \<^verbatim>\<open>m\<close> is nil until the first use; calls are objects on a heap and the map holds
  their addresses.
\<close>

record ('v, 'e, 'p) sfGroup =
  sf_m :: "(string, nat) gomap option"
  callHeap :: "('v, 'e, 'p) call list"

text \<open>A nil map reads like an empty one.\<close>

definition entries :: "('v, 'e, 'p) sfGroup \<Rightarrow> (string, nat) gomap" where
  "entries g = (case sf_m g of Some mp \<Rightarrow> mp | None \<Rightarrow> [])"

abbreviation inflight :: "('v, 'e, 'p) sfGroup \<Rightarrow> string \<Rightarrow> nat option" where
  "inflight g \<equiv> gm_get (entries g)"

section \<open>The sections of \<^verbatim>\<open>Do\<close>\<close>

text \<open>Where a caller stands; the call is named by its address.\<close>

datatype ('v, 'e, 'p) pc =
    Start string
  | Waiting string nat
  | Running string nat
  | Finished string nat
  | Removed string nat
  | Woken string nat
  | Returned string nat "('v, 'e, 'p) outcome"

definition Do_enter :: "string \<Rightarrow> ('v, 'e, 'p) sfGroup \<Rightarrow> ('v, 'e, 'p) pc \<times> ('v, 'e, 'p) sfGroup" where
  "Do_enter key g =
     (let g = (if sf_m g = None then g\<lparr>sf_m := Some []\<rparr> else g)
      in case gm_get (entries g) key of
           Some c \<Rightarrow> (Waiting key c, g)
         | None \<Rightarrow>
             (let c = length (callHeap g)
              in (Running key c,
                  g\<lparr>callHeap := callHeap g @ [new_call\<lparr>wg := 1\<rparr>], sf_m := Some (gm_put key c (entries g))\<rparr>)))"

text \<open>\<open>fn\<close> ends; the deferred function records a panic.\<close>

definition Do_fn :: "nat \<Rightarrow> ('v, 'e, 'p) outcome \<Rightarrow> ('v, 'e, 'p) sfGroup \<Rightarrow> ('v, 'e, 'p) sfGroup" where
  "Do_fn c r g =
     g\<lparr>callHeap := (callHeap g)[c := (case r of
         Return v e \<Rightarrow> (callHeap g ! c)\<lparr>c_val := v, c_err := e\<rparr>
       | Panic p \<Rightarrow> (callHeap g ! c)\<lparr>panicVal := Some p\<rparr>)]\<rparr>"

definition Do_remove :: "string \<Rightarrow> nat \<Rightarrow> ('v, 'e, 'p) sfGroup \<Rightarrow> ('v, 'e, 'p) sfGroup" where
  "Do_remove key c g =
     (if gm_get (entries g) key = Some c then g\<lparr>sf_m := Some (gm_del key (entries g))\<rparr> else g)"

definition Do_done :: "nat \<Rightarrow> ('v, 'e, 'p) sfGroup \<Rightarrow> ('v, 'e, 'p) sfGroup" where
  "Do_done c g = g\<lparr>callHeap := (callHeap g)[c := (callHeap g ! c)\<lparr>wg := wg (callHeap g ! c) - 1\<rparr>]\<rparr>"

definition Do_result :: "('v, 'e, 'p) call \<Rightarrow> ('v, 'e, 'p) outcome" where
  "Do_result c = (case panicVal c of Some p \<Rightarrow> Panic p | None \<Rightarrow> Return (c_val c) (c_err c))"

text \<open>\<^verbatim>\<open>Do\<close> from end to end, for a caller nobody interferes with.\<close>

definition Do ::
    "string \<Rightarrow> ('s \<Rightarrow> ('v, 'e, 'p) outcome \<times> 's) \<Rightarrow> ('v, 'e, 'p) sfGroup \<Rightarrow> 's \<Rightarrow>
     (('v, 'e, 'p) outcome \<times> ('v, 'e, 'p) sfGroup \<times> 's) option" where
  "Do key fn g s =
     (case Do_enter key g of
        (Running k c, g) \<Rightarrow>
          (let (r, s) = fn s; g = Do_done c (Do_remove key c (Do_fn c r g))
           in Some (Do_result (callHeap g ! c), g, s))
      | (Waiting k c, g) \<Rightarrow> if wg (callHeap g ! c) = 0 then Some (Do_result (callHeap g ! c), g, s) else None
      | _ \<Rightarrow> None)"

section \<open>Interleaving\<close>

record ('v, 'e, 'p) sf_state =
  grp :: "('v, 'e, 'p) sfGroup"
  thr :: "('v, 'e, 'p) pc list"

text \<open>\<open>F t\<close> is what the function passed by caller \<open>t\<close> does when it runs.\<close>

inductive sf_step :: "(nat \<Rightarrow> ('v, 'e, 'p) outcome) \<Rightarrow> ('v, 'e, 'p) sf_state \<Rightarrow> ('v, 'e, 'p) sf_state \<Rightarrow> bool"
  for F where
  enter: "\<lbrakk>t < length (thr s); thr s ! t = Start k; Do_enter k (grp s) = (p, g)\<rbrakk>
    \<Longrightarrow> sf_step F s (s\<lparr>grp := g, thr := (thr s)[t := p]\<rparr>)"
| fn: "\<lbrakk>t < length (thr s); thr s ! t = Running k c\<rbrakk>
    \<Longrightarrow> sf_step F s (s\<lparr>grp := Do_fn c (F t) (grp s), thr := (thr s)[t := Finished k c]\<rparr>)"
| remove: "\<lbrakk>t < length (thr s); thr s ! t = Finished k c\<rbrakk>
    \<Longrightarrow> sf_step F s (s\<lparr>grp := Do_remove k c (grp s), thr := (thr s)[t := Removed k c]\<rparr>)"
| done_wg: "\<lbrakk>t < length (thr s); thr s ! t = Removed k c\<rbrakk>
    \<Longrightarrow> sf_step F s (s\<lparr>grp := Do_done c (grp s), thr := (thr s)[t := Woken k c]\<rparr>)"
| wait: "\<lbrakk>t < length (thr s); thr s ! t = Waiting k c; wg (callHeap (grp s) ! c) = 0\<rbrakk>
    \<Longrightarrow> sf_step F s (s\<lparr>thr := (thr s)[t := Woken k c]\<rparr>)"
| return: "\<lbrakk>t < length (thr s); thr s ! t = Woken k c\<rbrakk>
    \<Longrightarrow> sf_step F s (s\<lparr>thr := (thr s)[t := Returned k c (Do_result (callHeap (grp s) ! c))]\<rparr>)"

definition sf_init :: "string list \<Rightarrow> ('v, 'e, 'p) sf_state" where
  "sf_init ks = \<lparr>grp = \<lparr>sf_m = None, callHeap = []\<rparr>, thr = map Start ks\<rparr>"

inductive sf_reachable ::
    "(nat \<Rightarrow> ('v, 'e, 'p) outcome) \<Rightarrow> string list \<Rightarrow> ('v, 'e, 'p) sf_state \<Rightarrow> bool"
  for F ks where
  init: "sf_reachable F ks (sf_init ks)"
| step: "sf_reachable F ks s \<Longrightarrow> sf_step F s s' \<Longrightarrow> sf_reachable F ks s'"

section \<open>The invariant\<close>

text \<open>The caller that runs the call, until it has woken the others.\<close>

fun leads :: "('v, 'e, 'p) pc \<Rightarrow> nat option" where
  "leads (Running k c) = Some c"
| "leads (Finished k c) = Some c"
| "leads (Removed k c) = Some c"
| "leads _ = None"

text \<open>What is known of the group at each place of a caller.\<close>

fun pc_ok :: "('v, 'e, 'p) sfGroup \<Rightarrow> ('v, 'e, 'p) pc \<Rightarrow> bool" where
  "pc_ok g (Start k) = True"
| "pc_ok g (Waiting k c) = (c < length (callHeap g))"
| "pc_ok g (Running k c) = (c < length (callHeap g) \<and> wg (callHeap g ! c) = 1 \<and> inflight g k = Some c \<and>
     panicVal (callHeap g ! c) = None)"
| "pc_ok g (Finished k c) = (c < length (callHeap g) \<and> wg (callHeap g ! c) = 1 \<and> inflight g k = Some c)"
| "pc_ok g (Removed k c) = (c < length (callHeap g) \<and> wg (callHeap g ! c) = 1 \<and> (\<forall>k. inflight g k \<noteq> Some c))"
| "pc_ok g (Woken k c) = (c < length (callHeap g) \<and> wg (callHeap g ! c) = 0)"
| "pc_ok g (Returned k c r) = (c < length (callHeap g) \<and> wg (callHeap g ! c) = 0 \<and> r = Do_result (callHeap g ! c))"

text \<open>
  At most one caller leads a call, an unfinished call has a leader, and the map names calls
  whose leader has not yet removed them.
\<close>

definition sf_inv :: "('v, 'e, 'p) sf_state \<Rightarrow> bool" where
  "sf_inv s \<longleftrightarrow>
     (\<forall>t < length (thr s). pc_ok (grp s) (thr s ! t)) \<and>
     (\<forall>t < length (thr s). \<forall>u < length (thr s). \<forall>c.
        leads (thr s ! t) = Some c \<longrightarrow> leads (thr s ! u) = Some c \<longrightarrow> t = u) \<and>
     (\<forall>c < length (callHeap (grp s)). wg (callHeap (grp s) ! c) \<noteq> 0 \<longrightarrow>
        (\<exists>t < length (thr s). leads (thr s ! t) = Some c)) \<and>
     (\<forall>k c. inflight (grp s) k = Some c \<longrightarrow>
        (\<exists>t < length (thr s). thr s ! t \<in> {Running k c, Finished k c}))"

lemma sf_invD:
  assumes "sf_inv s"
  shows "t < length (thr s) \<Longrightarrow> pc_ok (grp s) (thr s ! t)"
    "\<lbrakk>t < length (thr s); u < length (thr s); leads (thr s ! t) = Some c; leads (thr s ! u) = Some c\<rbrakk> \<Longrightarrow> t = u"
    "\<lbrakk>c < length (callHeap (grp s)); wg (callHeap (grp s) ! c) \<noteq> 0\<rbrakk> \<Longrightarrow> \<exists>t < length (thr s). leads (thr s ! t) = Some c"
    "inflight (grp s) k = Some c \<Longrightarrow> \<exists>t < length (thr s). thr s ! t \<in> {Running k c, Finished k c}"
  using assms unfolding sf_inv_def by blast+

text \<open>
  What a step of caller \<open>t\<close> to \<open>p\<close> and \<open>g\<close> has to keep.
\<close>

lemma sf_inv_update:
  assumes inv: "sf_inv s" and t: "t < length (thr s)"
    and others: "\<And>u. \<lbrakk>u < length (thr s); u \<noteq> t\<rbrakk> \<Longrightarrow> pc_ok g (thr s ! u)"
    and own: "pc_ok g p"
    and lead: "\<And>c. leads p = Some c \<Longrightarrow> leads (thr s ! t) = Some c \<or> c \<ge> length (callHeap (grp s))"
    and unfinished: "\<And>c. \<lbrakk>c < length (callHeap g); wg (callHeap g ! c) \<noteq> 0; leads p \<noteq> Some c\<rbrakk> \<Longrightarrow>
      c < length (callHeap (grp s)) \<and> wg (callHeap (grp s) ! c) \<noteq> 0 \<and> leads (thr s ! t) \<noteq> Some c"
    and named: "\<And>k c. \<lbrakk>inflight g k = Some c; p \<notin> {Running k c, Finished k c}\<rbrakk> \<Longrightarrow>
      inflight (grp s) k = Some c \<and> thr s ! t \<notin> {Running k c, Finished k c}"
  shows "sf_inv (s\<lparr>grp := g, thr := (thr s)[t := p]\<rparr>)"
  unfolding sf_inv_def
proof (intro conjI allI impI, goal_cases)
  case (1 u)
  then show ?case using t others own by (simp add: nth_list_update)
next
  case (2 u v c)
  have bound: "c < length (callHeap (grp s))" if "w < length (thr s)" "leads (thr s ! w) = Some c" for w
    using sf_invD(1) [OF inv that(1)] that(2) by (cases "thr s ! w") auto
  have uniq: "w = t" if "leads p = Some c" "w < length (thr s)" "leads (thr s ! w) = Some c" for w
    using lead [OF that(1)] bound [OF that(2,3)] sf_invD(2) [OF inv that(2) t that(3)] by auto
  from 2 t uniq sf_invD(2) [OF inv] show ?case by (auto simp: nth_list_update split: if_splits)
next
  case (3 c)
  show ?case
  proof (cases "leads p = Some c")
    case True
    with t show ?thesis by (intro exI [of _ t]) simp
  next
    case False
    with 3 unfinished have "c < length (callHeap (grp s))" "wg (callHeap (grp s) ! c) \<noteq> 0" "leads (thr s ! t) \<noteq> Some c"
      by auto
    with sf_invD(3) [OF inv] obtain u where "u < length (thr s)" "leads (thr s ! u) = Some c" "u \<noteq> t" by blast
    then show ?thesis by (intro exI [of _ u]) simp
  qed
next
  case (4 k c)
  show ?case
  proof (cases "p \<in> {Running k c, Finished k c}")
    case True
    with t show ?thesis by (intro exI [of _ t]) simp
  next
    case False
    with 4 named have "inflight (grp s) k = Some c" "thr s ! t \<notin> {Running k c, Finished k c}" by auto
    with sf_invD(4) [OF inv] obtain u where "u < length (thr s)" "thr s ! u \<in> {Running k c, Finished k c}" "u \<noteq> t"
      by metis
    then show ?thesis by (intro exI [of _ u]) simp
  qed
qed

lemma other_leads:
  assumes "sf_inv s" "t < length (thr s)" "leads (thr s ! t) = Some c" "u < length (thr s)" "u \<noteq> t"
  shows "pc_ok (grp s) (thr s ! u) \<and> leads (thr s ! u) \<noteq> Some c"
  using sf_invD(1,2) [OF assms(1)] assms by blast

text \<open>A change of one call by its leader keeps what the others know.\<close>

lemma pc_ok_heap:
  assumes "pc_ok g p" "leads p \<noteq> Some c" "wg (callHeap g ! c) = 1" "c < length (callHeap g)"
  shows "pc_ok (g\<lparr>callHeap := (callHeap g)[c := x]\<rparr>) p"
  using assms by (cases p) (auto simp: nth_list_update entries_def)

lemma inv_fn:
  assumes inv: "sf_inv s" and t: "t < length (thr s)" "thr s ! t = Running k c"
  shows "sf_inv (s\<lparr>grp := Do_fn c r (grp s), thr := (thr s)[t := Finished k c]\<rparr>)"
proof (rule sf_inv_update [OF inv t(1)])
  have ok: "pc_ok (grp s) (Running k c)" using sf_invD(1) [OF inv t(1)] t(2) by simp
  then show "pc_ok (Do_fn c r (grp s)) (Finished k c)"
    by (auto simp: Do_fn_def entries_def split: outcome.split)
  show "pc_ok (Do_fn c r (grp s)) (thr s ! u)" if "u < length (thr s)" "u \<noteq> t" for u
    using other_leads [OF inv t(1) _ that] ok t(2) unfolding Do_fn_def by (auto intro: pc_ok_heap)
  show "d < length (callHeap (grp s)) \<and> wg (callHeap (grp s) ! d) \<noteq> 0 \<and> leads (thr s ! t) \<noteq> Some d"
    if "d < length (callHeap (Do_fn c r (grp s)))" "wg (callHeap (Do_fn c r (grp s)) ! d) \<noteq> 0"
      "leads (Finished k c) \<noteq> Some d" for d
    using that t(2) by (auto simp: Do_fn_def nth_list_update)
  show "inflight (grp s) k' = Some d \<and> thr s ! t \<notin> {Running k' d, Finished k' d}"
    if "inflight (Do_fn c r (grp s)) k' = Some d" "Finished k c \<notin> {Running k' d, Finished k' d}" for k' d
    using that t(2) by (auto simp: Do_fn_def entries_def)
qed (simp add: t(2))

lemma Do_remove_simps [simp]:
  "inflight (Do_remove k c g) k' = (if k' = k \<and> inflight g k = Some c then None else inflight g k')"
  "callHeap (Do_remove k c g) = callHeap g"
  by (auto simp: Do_remove_def entries_def gomap_simps split: option.split)

lemma inv_remove:
  assumes inv: "sf_inv s" and t: "t < length (thr s)" "thr s ! t = Finished k c"
  shows "sf_inv (s\<lparr>grp := Do_remove k c (grp s), thr := (thr s)[t := Removed k c]\<rparr>)"
proof (rule sf_inv_update [OF inv t(1)])
  have ok: "pc_ok (grp s) (Finished k c)" using sf_invD(1) [OF inv t(1)] t(2) by simp
  have only: "k' = k" if "inflight (grp s) k' = Some c" for k'
  proof -
    from sf_invD(4) [OF inv that] obtain u where
      u: "u < length (thr s)" "thr s ! u \<in> {Running k' c, Finished k' c}" by blast
    then have "u = t" using sf_invD(2) [OF inv u(1) t(1), of c] t(2) by auto
    with u(2) t(2) show ?thesis by simp
  qed
  show "pc_ok (Do_remove k c (grp s)) (Removed k c)" using ok by (auto dest: only)
  show "pc_ok (Do_remove k c (grp s)) (thr s ! u)" if "u < length (thr s)" "u \<noteq> t" for u
    using other_leads [OF inv t(1) _ that, of c] ok t(2) by (cases "thr s ! u") auto
  show "inflight (grp s) k' = Some d \<and> thr s ! t \<notin> {Running k' d, Finished k' d}"
    if "inflight (Do_remove k c (grp s)) k' = Some d" for k' d
    using that ok t(2) by (auto split: if_splits)
qed (use t(2) in auto)

lemma inv_done:
  assumes inv: "sf_inv s" and t: "t < length (thr s)" "thr s ! t = Removed k c"
  shows "sf_inv (s\<lparr>grp := Do_done c (grp s), thr := (thr s)[t := Woken k c]\<rparr>)"
proof (rule sf_inv_update [OF inv t(1)])
  have ok: "pc_ok (grp s) (Removed k c)" using sf_invD(1) [OF inv t(1)] t(2) by simp
  then show "pc_ok (Do_done c (grp s)) (Woken k c)" by (simp add: Do_done_def)
  show "pc_ok (Do_done c (grp s)) (thr s ! u)" if "u < length (thr s)" "u \<noteq> t" for u
    using other_leads [OF inv t(1) _ that] ok t(2) unfolding Do_done_def by (auto intro: pc_ok_heap)
  show "d < length (callHeap (grp s)) \<and> wg (callHeap (grp s) ! d) \<noteq> 0 \<and> leads (thr s ! t) \<noteq> Some d"
    if "d < length (callHeap (Do_done c (grp s)))" "wg (callHeap (Do_done c (grp s)) ! d) \<noteq> 0" for d
    using that t(2) ok by (auto simp: Do_done_def nth_list_update split: if_splits)
  show "inflight (grp s) k' = Some d \<and> thr s ! t \<notin> {Running k' d, Finished k' d}"
    if "inflight (Do_done c (grp s)) k' = Some d" for k' d
    using that t(2) by (auto simp: Do_done_def entries_def)
qed (simp add: t(2))

lemma inv_own:
  assumes inv: "sf_inv s" and t: "t < length (thr s)" "leads (thr s ! t) = None" "leads p = None"
    and own: "pc_ok (grp s) p"
  shows "sf_inv (s\<lparr>thr := (thr s)[t := p]\<rparr>)"
proof -
  have "sf_inv (s\<lparr>grp := grp s, thr := (thr s)[t := p]\<rparr>)"
    using sf_invD(1) [OF inv] t own by (intro sf_inv_update [OF inv t(1)]) (auto split: if_splits)
  then show ?thesis by simp
qed

lemma Do_enter_cases:
  obtains (join) c where "inflight g k = Some c"
      "Do_enter k g = (Waiting k c, g\<lparr>sf_m := Some (entries g)\<rparr>)"
  | (lead) "inflight g k = None"
      "Do_enter k g = (Running k (length (callHeap g)),
         g\<lparr>callHeap := callHeap g @ [new_call\<lparr>wg := 1\<rparr>], sf_m := Some (gm_put k (length (callHeap g)) (entries g))\<rparr>)"
  by (cases "sf_m g"; cases "inflight g k") (auto simp: Do_enter_def entries_def Let_def)

lemma entries_m [simp]: "entries (g\<lparr>sf_m := Some mp\<rparr>) = mp" "entries (g\<lparr>callHeap := h\<rparr>) = entries g"
  by (simp_all add: entries_def)

lemma inv_enter:
  assumes inv: "sf_inv s" and t: "t < length (thr s)" "thr s ! t = Start k"
    and e: "Do_enter k (grp s) = (p, g)"
  shows "sf_inv (s\<lparr>grp := g, thr := (thr s)[t := p]\<rparr>)"
proof (rule sf_inv_update [OF inv t(1)])
  have bound: "d < length (callHeap (grp s))" if "inflight (grp s) k' = Some d" for k' d
  proof -
    from sf_invD(4) [OF inv that] obtain u where
      u: "u < length (thr s)" "thr s ! u \<in> {Running k' d, Finished k' d}" by blast
    with sf_invD(1) [OF inv u(1)] show ?thesis by auto
  qed
  show "pc_ok g p"
    by (rule Do_enter_cases [of "grp s" k]) (use e bound in \<open>auto simp: nth_append new_call_def gomap_simps\<close>)
  show "pc_ok g (thr s ! u)" if "u < length (thr s)" "u \<noteq> t" for u
    by (rule Do_enter_cases [of "grp s" k]; cases "thr s ! u")
      (use e sf_invD(1) [OF inv that(1)] in \<open>auto simp: nth_append gomap_simps\<close>)
qed (rule Do_enter_cases [of "grp s" k], use e t(2) in \<open>auto simp: nth_append gomap_simps new_call_def split: if_splits\<close>)+

lemma sf_inv_step: "sf_step F s s' \<Longrightarrow> sf_inv s \<Longrightarrow> sf_inv s'"
proof (induction rule: sf_step.induct)
  case (wait t s k c)
  then show ?case using sf_invD(1) [of s t] by (intro inv_own) auto
next
  case (return t s k c)
  then show ?case using sf_invD(1) [of s t] by (intro inv_own) auto
qed (simp_all add: inv_enter inv_fn inv_remove inv_done)

lemma sf_reachable_inv: "sf_reachable F ks s \<Longrightarrow> sf_inv s"
  by (induction rule: sf_reachable.induct) (auto simp: sf_inv_step, simp add: sf_inv_def sf_init_def entries_def)

section \<open>Sharing\<close>

fun names :: "('v, 'e, 'p) pc \<Rightarrow> (string \<times> nat) option" where
  "names (Start k) = None"
| "names (Waiting k c) = Some (k, c)"
| "names (Running k c) = Some (k, c)"
| "names (Finished k c) = Some (k, c)"
| "names (Removed k c) = Some (k, c)"
| "names (Woken k c) = Some (k, c)"
| "names (Returned k c r) = Some (k, c)"

text \<open>
  \<open>L c\<close> is the caller that created call \<open>c\<close>: it alone ever leads the call, all callers of the call ask
  for its key, and once it has run, the call holds what its function did.
\<close>

definition caller_ok :: "string list \<Rightarrow> (nat \<Rightarrow> nat) \<Rightarrow> nat \<Rightarrow> ('v, 'e, 'p) pc \<Rightarrow> bool" where
  "caller_ok ks L t p \<longleftrightarrow> (\<forall>k. p = Start k \<longrightarrow> k = ks ! t) \<and> (\<forall>c. leads p = Some c \<longrightarrow> L c = t) \<and>
     (\<forall>k c. names p = Some (k, c) \<longrightarrow> k = ks ! t \<and> ks ! L c = k)"

definition call_ok :: "(nat \<Rightarrow> ('v, 'e, 'p) outcome) \<Rightarrow> (nat \<Rightarrow> nat) \<Rightarrow> ('v, 'e, 'p) pc list \<Rightarrow>
    ('v, 'e, 'p) sfGroup \<Rightarrow> nat \<Rightarrow> bool" where
  "call_ok F L ps g c \<longleftrightarrow> L c < length ps \<and>
     ((\<exists>k. ps ! L c = Running k c) \<or> Do_result (callHeap g ! c) = F (L c))"

definition led_by :: "(nat \<Rightarrow> ('v, 'e, 'p) outcome) \<Rightarrow> string list \<Rightarrow> (nat \<Rightarrow> nat) \<Rightarrow> ('v, 'e, 'p) sf_state \<Rightarrow> bool" where
  "led_by F ks L s \<longleftrightarrow> length (thr s) = length ks \<and>
     (\<forall>t < length (thr s). caller_ok ks L t (thr s ! t)) \<and>
     (\<forall>c < length (callHeap (grp s)). call_ok F L (thr s) (grp s) c)"

lemma led_by_update:
  assumes led: "led_by F ks L s" and t: "t < length (thr s)"
    and own: "caller_ok ks L' t p"
    and others: "\<And>u. u < length (thr s) \<Longrightarrow> caller_ok ks L u (thr s ! u) \<Longrightarrow> caller_ok ks L' u (thr s ! u)"
    and calls: "\<And>c. c < length (callHeap g) \<Longrightarrow> call_ok F L' ((thr s)[t := p]) g c"
  shows "led_by F ks L' (s\<lparr>grp := g, thr := (thr s)[t := p]\<rparr>)"
  using led t own others calls by (simp add: led_by_def nth_list_update)

lemma caller_ok_own: "led_by F ks L s \<Longrightarrow> t < length (thr s) \<Longrightarrow> caller_ok ks L t (thr s ! t)"
  by (simp add: led_by_def)

lemma call_ok_own: "led_by F ks L s \<Longrightarrow> c < length (callHeap (grp s)) \<Longrightarrow> call_ok F L (thr s) (grp s) c"
  by (simp add: led_by_def)

lemma caller_ok_next:
  "caller_ok ks L t p \<Longrightarrow> names p' = names p \<Longrightarrow> \<forall>k. p' \<noteq> Start k \<Longrightarrow> leads p' = None \<or> leads p' = leads p \<Longrightarrow>
   caller_ok ks L t p'"
  by (auto simp: caller_ok_def)

text \<open>A call keeps its state when a caller that does not run it moves.\<close>

lemma call_ok_next:
  assumes "call_ok F L ps g c" "\<And>k. ps ! t \<noteq> Running k c" "Do_result (callHeap g' ! c) = Do_result (callHeap g ! c)"
  shows "call_ok F L (ps[t := p]) g' c"
  using assms unfolding call_ok_def by (cases "L c = t") auto

lemma Do_result_fn:
  "c < length (callHeap g) \<Longrightarrow> panicVal (callHeap g ! c) = None \<Longrightarrow> Do_result (callHeap (Do_fn c r g) ! c) = r"
  by (auto simp: Do_fn_def Do_result_def split: outcome.split)

lemma Do_fn_other: "d \<noteq> c \<Longrightarrow> callHeap (Do_fn c r g) ! d = callHeap g ! d" "length (callHeap (Do_fn c r g)) = length (callHeap g)"
  by (simp_all add: Do_fn_def)

lemma Do_done_result:
  "d < length (callHeap g) \<Longrightarrow> Do_result (callHeap (Do_done c g) ! d) = Do_result (callHeap g ! d)"
  "length (callHeap (Do_done c g)) = length (callHeap g)"
  by (cases "d = c"; simp add: Do_done_def Do_result_def split: option.split)+

lemma led_by_fn:
  assumes led: "led_by F ks L s" and inv: "sf_inv s" and t: "t < length (thr s)" "thr s ! t = Running k c"
  shows "led_by F ks L (s\<lparr>grp := Do_fn c (F t) (grp s), thr := (thr s)[t := Finished k c]\<rparr>)"
proof (rule led_by_update [OF led t(1)])
  note own = caller_ok_own [OF led t(1)]
  then show "caller_ok ks L t (Finished k c)" by (rule caller_ok_next) (simp_all add: t(2))
  have L: "L c = t" using own t(2) by (simp add: caller_ok_def)
  have ok: "c < length (callHeap (grp s))" "panicVal (callHeap (grp s) ! c) = None"
    using sf_invD(1) [OF inv t(1)] t(2) by auto
  fix d assume "d < length (callHeap (Do_fn c (F t) (grp s)))"
  then have d: "d < length (callHeap (grp s))" by (simp add: Do_fn_other)
  show "call_ok F L ((thr s)[t := Finished k c]) (Do_fn c (F t) (grp s)) d"
  proof (cases "d = c")
    case True
    with L ok t show ?thesis by (simp add: call_ok_def Do_result_fn)
  next
    case False
    with call_ok_own [OF led d] show ?thesis by (rule_tac call_ok_next) (simp_all add: t(2) Do_fn_other)
  qed
qed

lemma led_by_keep:
  assumes led: "led_by F ks L s" and t: "t < length (thr s)" "\<And>k c. thr s ! t \<noteq> Running k c"
    and p: "names p = names (thr s ! t)" "\<forall>k. p \<noteq> Start k" "leads p = None \<or> leads p = leads (thr s ! t)"
    and g: "length (callHeap g) = length (callHeap (grp s))"
      "\<And>c. c < length (callHeap g) \<Longrightarrow> Do_result (callHeap g ! c) = Do_result (callHeap (grp s) ! c)"
  shows "led_by F ks L (s\<lparr>grp := g, thr := (thr s)[t := p]\<rparr>)"
proof (rule led_by_update [OF led t(1)])
  show "caller_ok ks L t p" by (rule caller_ok_next [OF caller_ok_own [OF led t(1)] p])
  show "call_ok F L ((thr s)[t := p]) g c" if "c < length (callHeap g)" for c
    using call_ok_own [OF led, of c] t(2) g that by (intro call_ok_next) simp_all
qed

lemma led_by_join:
  assumes led: "led_by F ks L s" and inv: "sf_inv s" and t: "t < length (thr s)" "thr s ! t = Start k"
    and c: "inflight (grp s) k = Some c"
  shows "led_by F ks L (s\<lparr>grp := (grp s)\<lparr>sf_m := mp\<rparr>, thr := (thr s)[t := Waiting k c]\<rparr>)"
proof (rule led_by_update [OF led t(1)])
  obtain u where u: "u < length (thr s)" "thr s ! u \<in> {Running k c, Finished k c}"
    using sf_invD(4) [OF inv c] by blast
  then have "names (thr s ! u) = Some (k, c)" by auto
  with caller_ok_own [OF led u(1)] caller_ok_own [OF led t(1)] t(2) show "caller_ok ks L t (Waiting k c)"
    by (simp add: caller_ok_def)
  show "call_ok F L ((thr s)[t := Waiting k c]) ((grp s)\<lparr>sf_m := mp\<rparr>) d"
    if "d < length (callHeap ((grp s)\<lparr>sf_m := mp\<rparr>))" for d
    using call_ok_own [OF led, of d] t(2) that by (intro call_ok_next) simp_all
qed

lemma led_by_lead:
  assumes led: "led_by F ks L s" and inv: "sf_inv s" and t: "t < length (thr s)" "thr s ! t = Start k"
  shows "led_by F ks (L(length (callHeap (grp s)) := t)) (s\<lparr>grp := (grp s)\<lparr>callHeap := callHeap (grp s) @ [x], sf_m := mp\<rparr>,
    thr := (thr s)[t := Running k (length (callHeap (grp s)))]\<rparr>)"
    (is "led_by F ks ?L _")
proof (rule led_by_update [OF led t(1)])
  let ?n = "length (callHeap (grp s))"
  show "caller_ok ks ?L t (Running k ?n)" using caller_ok_own [OF led t(1)] t(2) by (simp add: caller_ok_def)
  show "caller_ok ks ?L u (thr s ! u)" if "u < length (thr s)" "caller_ok ks L u (thr s ! u)" for u
    using that(2) sf_invD(1) [OF inv that(1)] by (cases "thr s ! u") (simp_all add: caller_ok_def)
  show "call_ok F ?L ((thr s)[t := Running k ?n]) ((grp s)\<lparr>callHeap := callHeap (grp s) @ [x], sf_m := mp\<rparr>) d"
    if "d < length (callHeap ((grp s)\<lparr>callHeap := callHeap (grp s) @ [x], sf_m := mp\<rparr>))" for d
  proof (cases "d = ?n")
    case True
    with t(1) show ?thesis by (simp add: call_ok_def)
  next
    case False
    with that have d: "d < ?n" by simp
    have "call_ok F ?L (thr s) (grp s) d" using call_ok_own [OF led d] False by (simp add: call_ok_def)
    then show ?thesis by (rule call_ok_next) (simp_all add: t(2) nth_append d)
  qed
qed

text \<open>A step leaves the leaders of the calls as they were; a call it adds is led by the caller that now runs.\<close>

lemma led_by_step:
  assumes "sf_step F s s'" "sf_inv s" "led_by F ks L s"
  shows "\<exists>L'. led_by F ks L' s' \<and> length (callHeap (grp s)) \<le> length (callHeap (grp s')) \<and>
    (\<forall>c < length (callHeap (grp s)). L' c = L c) \<and>
    (\<forall>c < length (callHeap (grp s')). length (callHeap (grp s)) \<le> c \<longrightarrow> (\<exists>k. thr s' ! L' c = Running k c))"
  using assms
proof (induction rule: sf_step.induct)
  case (enter t s k p g)
  show ?case
  proof (cases rule: Do_enter_cases [of "grp s" k])
    case (join c)
    with enter led_by_join [of F ks L s t k c] show ?thesis by (intro exI [of _ L]) auto
  next
    case lead
    then have pg: "p = Running k (length (callHeap (grp s)))" "g = (grp s)\<lparr>callHeap := callHeap (grp s) @ [new_call\<lparr>wg := 1\<rparr>],
        sf_m := Some (gm_put k (length (callHeap (grp s))) (entries (grp s)))\<rparr>" using enter.hyps(3) by simp_all
    show ?thesis unfolding pg
      by (rule exI [of _ "L(length (callHeap (grp s)) := t)"], intro conjI led_by_lead enter)
        (use enter.hyps(1) in \<open>auto simp: less_Suc_eq\<close>)
  qed
next
  case (fn t s k c)
  then show ?case using led_by_fn [of F ks L s t k c] by (intro exI [of _ L]) (simp add: Do_fn_other)
next
  case (remove t s k c)
  then show ?case using led_by_keep [of F ks L s t "Removed k c" "Do_remove k c (grp s)"] by (intro exI [of _ L]) auto
next
  case (done_wg t s k c)
  then show ?case using led_by_keep [of F ks L s t "Woken k c" "Do_done c (grp s)"]
    by (intro exI [of _ L]) (auto simp: Do_done_result)
next
  case (wait t s k c)
  then show ?case using led_by_keep [of F ks L s t "Woken k c" "grp s"] by (intro exI [of _ L]) auto
next
  case (return t s k c)
  then show ?case using led_by_keep [of F ks L s t "Returned k c (Do_result (callHeap (grp s) ! c))" "grp s"]
    by (intro exI [of _ L]) auto
qed

lemma led_by_init: "led_by F ks L (sf_init ks)"
  by (simp add: led_by_def sf_init_def caller_ok_def)

text \<open>The states of an execution, newest first.\<close>

inductive sf_path :: "(nat \<Rightarrow> ('v, 'e, 'p) outcome) \<Rightarrow> string list \<Rightarrow> ('v, 'e, 'p) sf_state list \<Rightarrow> bool"
  for F ks where
  init: "sf_path F ks [sf_init ks]"
| step: "sf_path F ks (s # ss) \<Longrightarrow> sf_step F s s' \<Longrightarrow> sf_path F ks (s' # s # ss)"

lemma sf_path_reachable: "sf_path F ks ss \<Longrightarrow> s0 \<in> set ss \<Longrightarrow> sf_reachable F ks s0"
proof (induction arbitrary: s0 rule: sf_path.induct)
  case (step s ss s')
  then show ?case using sf_reachable.step [of F ks s s'] by auto
qed (simp add: sf_reachable.init)

lemma sf_reachable_path: "sf_reachable F ks s \<Longrightarrow> \<exists>ss. sf_path F ks (s # ss)"
  by (induction rule: sf_reachable.induct) (blast intro: sf_path.intros)+

text \<open>Each call of the execution has one leader: it has run the call, and nobody else ever does.\<close>

definition led_in :: "(nat \<Rightarrow> ('v, 'e, 'p) outcome) \<Rightarrow> string list \<Rightarrow> (nat \<Rightarrow> nat) \<Rightarrow> ('v, 'e, 'p) sf_state list \<Rightarrow> bool" where
  "led_in F ks L ss \<longleftrightarrow> led_by F ks L (hd ss) \<and>
     (\<forall>s'\<in>set ss. length (callHeap (grp s')) \<le> length (callHeap (grp (hd ss)))) \<and>
     (\<forall>c < length (callHeap (grp (hd ss))). (\<exists>s'\<in>set ss. \<exists>k. thr s' ! L c = Running k c) \<and>
        (\<forall>s'\<in>set ss. \<forall>u < length ks. \<forall>k. thr s' ! u = Running k c \<longrightarrow> u = L c))"

lemma led_inD:
  assumes "led_in F ks L ss"
  shows "led_by F ks L (hd ss)" "s' \<in> set ss \<Longrightarrow> length (callHeap (grp s')) \<le> length (callHeap (grp (hd ss)))"
    "c < length (callHeap (grp (hd ss))) \<Longrightarrow> \<exists>s'\<in>set ss. \<exists>k. thr s' ! L c = Running k c"
    "\<lbrakk>c < length (callHeap (grp (hd ss))); s' \<in> set ss; u < length ks; thr s' ! u = Running k c\<rbrakk> \<Longrightarrow> u = L c"
  using assms unfolding led_in_def by blast+

lemma sf_path_length: "sf_path F ks ss \<Longrightarrow> s0 \<in> set ss \<Longrightarrow> length (thr s0) = length ks"
proof (induction arbitrary: s0 rule: sf_path.induct)
  case (step s ss s')
  from step.hyps(2) have "length (thr s') = length (thr s)" by cases simp_all
  with step show ?case by auto
qed (simp add: sf_init_def)

lemma sf_path_led: "sf_path F ks ss \<Longrightarrow> \<exists>L. led_in F ks L ss"
proof (induction rule: sf_path.induct)
  case init
  show ?case using led_by_init [of F ks "\<lambda>c. 0"] by (intro exI [of _ "\<lambda>c. 0"]) (simp add: led_in_def sf_init_def)
next
  case (step s ss s')
  then obtain L where L: "led_in F ks L (s # ss)" by blast
  note old = led_inD [OF L, unfolded list.sel]
  have inv: "sf_inv s0" if "s0 \<in> set (s # ss)" for s0
    using sf_path_reachable [OF step.hyps(1) that] by (rule sf_reachable_inv)
  obtain L' where L': "led_by F ks L' s'" and len: "length (callHeap (grp s)) \<le> length (callHeap (grp s'))"
    and same: "\<And>c. c < length (callHeap (grp s)) \<Longrightarrow> L' c = L c"
    and new: "\<And>c. \<lbrakk>c < length (callHeap (grp s')); length (callHeap (grp s)) \<le> c\<rbrakk> \<Longrightarrow> \<exists>k. thr s' ! L' c = Running k c"
    using led_by_step [OF step.hyps(2) inv old(1)] by auto
  have short: "length (callHeap (grp s0)) \<le> length (callHeap (grp s'))" if "s0 \<in> set (s' # s # ss)" for s0
    using old(2) [of s0] that len by auto
  have ran: "\<exists>s0\<in>set (s' # s # ss). \<exists>k. thr s0 ! L' c = Running k c" if "c < length (callHeap (grp s'))" for c
    using old(3) [of c] same [of c] new [of c] that by (cases "c < length (callHeap (grp s))") auto
  have only: "u = L' c" if "s0 \<in> set (s' # s # ss)" "u < length ks" "thr s0 ! u = Running k c" for s0 u k c
  proof (cases "s0 = s'")
    case True
    with caller_ok_own [OF L', of u] that L' show ?thesis by (simp add: caller_ok_def led_by_def)
  next
    case False
    then have s0: "s0 \<in> set (s # ss)" using that(1) by simp
    have "c < length (callHeap (grp s0))"
      using sf_invD(1) [OF inv [OF s0], of u] that(2,3) sf_path_length [OF step.hyps(1) s0] by auto
    then have c: "c < length (callHeap (grp s))" using old(2) [OF s0] by simp
    with old(4) [OF c s0 that(2,3)] same show ?thesis by simp
  qed
  have "led_in F ks L' (s' # s # ss)" unfolding led_in_def list.sel
    using L' short ran only by blast
  then show ?case by blast
qed

section \<open>Progress\<close>

fun returned :: "('v, 'e, 'p) pc \<Rightarrow> bool" where
  "returned (Returned k c r) = True"
| "returned _ = False"

text \<open>The sections a caller still has before it.\<close>

fun sections :: "('v, 'e, 'p) pc \<Rightarrow> nat" where
  "sections (Start k) = 6"
| "sections (Waiting k c) = 2"
| "sections (Running k c) = 5"
| "sections (Finished k c) = 4"
| "sections (Removed k c) = 3"
| "sections (Woken k c) = 1"
| "sections (Returned k c r) = 0"

definition work :: "('v, 'e, 'p) sf_state \<Rightarrow> nat" where
  "work s = sum_list (map sections (thr s))"

lemma work_update:
  "t < length ps \<Longrightarrow> sections p < sections (ps ! t) \<Longrightarrow>
   sum_list (map sections (ps[t := p])) < sum_list (map sections ps)"
proof (induction ps arbitrary: t)
  case (Cons q ps)
  then show ?case by (cases t) auto
qed simp

lemma sf_step_work: "sf_step F s s' \<Longrightarrow> work s' < work s"
proof (induction rule: sf_step.induct)
  case (enter t s k p g)
  then have "sections p < sections (thr s ! t)" by (rule_tac Do_enter_cases [of "grp s" k]) auto
  with enter(1) show ?case by (simp add: work_def work_update)
qed (simp_all add: work_def work_update)

lemma sf_progress:
  assumes "sf_inv s" "t < length (thr s)" "\<not> returned (thr s ! t)"
  shows "\<exists>s'. sf_step F s s'"
proof (cases "thr s ! t")
  case (Start k)
  obtain p g where "Do_enter k (grp s) = (p, g)" by fastforce
  with Start assms(2) show ?thesis using sf_step.enter by blast
next
  case (Waiting k c)
  show ?thesis
  proof (cases "wg (callHeap (grp s) ! c) = 0")
    case True
    with Waiting assms(2) show ?thesis using sf_step.wait by blast
  next
    case False
    have "c < length (callHeap (grp s))" using sf_invD(1) [OF assms(1,2)] Waiting by simp
    with False sf_invD(3) [OF assms(1)] obtain u where u: "u < length (thr s)" "leads (thr s ! u) = Some c"
      by blast
    from u(2) u(1) show ?thesis
      by (cases "thr s ! u") (auto intro: sf_step.fn sf_step.remove sf_step.done_wg)
  qed
qed (use assms in \<open>auto intro: sf_step.intros\<close>)

section \<open>Properties of \<^verbatim>\<open>Do\<close>\<close>

text \<open>C8. At any moment at most one caller runs its function for a key.\<close>

theorem Do_single_flight:
  assumes "sf_reachable F ks s" "t < length (thr s)" "u < length (thr s)"
    "thr s ! t = Running k c" "thr s ! u = Running k d"
  shows "t = u"
proof -
  note inv = sf_reachable_inv [OF assms(1)]
  have "c = d" using sf_invD(1) [OF inv assms(2)] sf_invD(1) [OF inv assms(3)] assms(4,5) by simp
  with sf_invD(2) [OF inv assms(2,3), of c] assms(4,5) show ?thesis by simp
qed

text \<open>C9. In every execution a caller receives what the function of the leader of its own call did, a panic
  included. The leader is the one caller that has run this call in the execution; it asked for the same key,
  and all callers of the call receive the same.\<close>

theorem Do_shared_result:
  assumes "sf_path F ks (s # ss)" "t < length ks" "thr s ! t = Returned k c r"
  shows "k = ks ! t \<and>
    (\<exists>l < length ks. r = F l \<and> (\<exists>s'\<in>set ss. thr s' ! l = Running k c) \<and>
      (\<forall>s'\<in>set ss. \<forall>u < length ks. \<forall>k'. thr s' ! u = Running k' c \<longrightarrow> u = l)) \<and>
    (\<forall>u k' r'. u < length ks \<longrightarrow> thr s ! u = Returned k' c r' \<longrightarrow> k' = k \<and> r' = r)"
proof -
  have reach: "sf_reachable F ks s'" if "s' \<in> set (s # ss)" for s' using sf_path_reachable [OF assms(1) that] .
  note inv = sf_reachable_inv [OF reach]
  obtain L where L: "led_in F ks L (s # ss)" using sf_path_led [OF assms(1)] by blast
  note led = led_inD(1) [OF L, unfolded list.sel]
  then have len: "length (thr s) = length ks" by (simp add: led_by_def)
  have at: "k' = ks ! u \<and> ks ! L c = k' \<and> r' = F (L c) \<and> L c < length ks \<and> c < length (callHeap (grp s)) \<and>
      (\<forall>k''. thr s ! L c \<noteq> Running k'' c)"
    if "u < length ks" "thr s ! u = Returned k' c r'" for u k' r'
  proof -
    have ok: "c < length (callHeap (grp s))" "r' = Do_result (callHeap (grp s) ! c)" "wg (callHeap (grp s) ! c) = 0"
      using sf_invD(1) [OF inv, of s u] that len by auto
    have key: "k' = ks ! u \<and> ks ! L c = k'"
      using caller_ok_own [OF led, of u] that len by (simp add: caller_ok_def)
    have idle: "thr s ! L c \<noteq> Running k'' c" if "L c < length ks" for k''
      using sf_invD(1) [OF inv, of s "L c"] that len ok(3) by auto
    then have "L c < length ks" "Do_result (callHeap (grp s) ! c) = F (L c)"
      using call_ok_own [OF led ok(1)] len unfolding call_ok_def by auto
    with ok idle key show ?thesis by blast
  qed
  note own = at [OF assms(2,3)]
  then have c: "c < length (callHeap (grp (hd (s # ss))))" by simp
  obtain s' k' where s': "s' \<in> set ss" "thr s' ! L c = Running k' c"
    using led_inD(3) [OF L c] own by auto
  have "k' = k"
  proof -
    obtain L0 where "led_by F ks L0 s'" using sf_reachable_path [OF reach, of s'] s'(1) sf_path_led led_inD(1) by fastforce
    from caller_ok_own [OF this, of "L c"] this s'(2) own show ?thesis by (simp add: caller_ok_def led_by_def)
  qed
  moreover have "u = L c" if "s'' \<in> set ss" "u < length ks" "thr s'' ! u = Running k'' c" for s'' u k''
    using led_inD(4) [OF L c _ that(2,3)] that(1) by simp
  moreover have "k' = k \<and> r' = r" if "u < length ks" "thr s ! u = Returned k' c r'" for u k' r'
    using at [OF that] own by simp
  ultimately show ?thesis using own s' by blast
qed

text \<open>Once the leader has removed its call, no caller that arrives can join it.\<close>

lemma Do_no_stale_join:
  assumes "sf_reachable F ks s" "u < length (thr s)" "thr s ! u \<in> {Removed k c, Woken k c, Returned k c r}"
    "Do_enter k' (grp s) = (p, g)"
  shows "p \<noteq> Waiting k' c \<and> p \<noteq> Running k' c"
proof -
  note inv = sf_reachable_inv [OF assms(1)]
  have ok: "c < length (callHeap (grp s))" "inflight (grp s) k' \<noteq> Some c"
  proof -
    show "c < length (callHeap (grp s))" using sf_invD(1) [OF inv assms(2)] assms(3) by auto
    show "inflight (grp s) k' \<noteq> Some c"
    proof
      assume c: "inflight (grp s) k' = Some c"
      from sf_invD(4) [OF inv c] obtain v where
        v: "v < length (thr s)" "thr s ! v \<in> {Running k' c, Finished k' c}" by blast
      with sf_invD(1) [OF inv v(1)] have "wg (callHeap (grp s) ! c) = 1" by auto
      with sf_invD(1) [OF inv assms(2)] assms(3) c show False by auto
    qed
  qed
  then show ?thesis using assms(4) by (rule_tac Do_enter_cases [of "grp s" k']) auto
qed

text \<open>C26. Provided the functions end, every caller returns: whatever the interleaving, each step leaves
  fewer sections to run, and a state in which nothing can move is one in which all have returned.\<close>

theorem Do_all_return:
  assumes "sf_reachable F ks s"
  shows "(\<forall>s'. sf_step F s s' \<longrightarrow> work s' < work s) \<and>
    ((\<exists>s'. sf_step F s s') \<or> (\<forall>t < length (thr s). returned (thr s ! t)))"
  using sf_step_work sf_progress [OF sf_reachable_inv [OF assms]] by blast

section \<open>A caller by itself\<close>

lemma Do_alone:
  assumes "inflight g k = None" "fn s = (r, s')"
  shows "\<exists>g'. Do k fn g s = Some (r, g', s') \<and> inflight g' = inflight g"
proof -
  let ?c = "length (callHeap g)"
  let ?g = "g\<lparr>callHeap := callHeap g @ [new_call\<lparr>wg := 1\<rparr>], sf_m := Some (gm_put k ?c (entries g))\<rparr>"
  have e: "Do_enter k g = (Running k ?c, ?g)" by (rule Do_enter_cases [of g k]) (use assms(1) in auto)
  have "Do_result (callHeap (Do_done ?c (Do_remove k ?c (Do_fn ?c r ?g))) ! ?c) = r"
    by (simp add: Do_done_result Do_fn_other Do_result_fn new_call_def)
  moreover have "inflight (Do_done ?c (Do_remove k ?c (Do_fn ?c r ?g))) = inflight g"
    using assms(1) by (auto simp: fun_eq_iff Do_done_def Do_remove_def Do_fn_def gomap_simps)
  ultimately show ?thesis using e assms(2) by (simp add: Do_def)
qed

section \<open>Schedules\<close>

text \<open>The step of a chosen caller, as a function; \<open>None\<close> when the caller cannot move.\<close>

definition sf_move ::
    "(nat \<Rightarrow> ('v, 'e, 'p) outcome) \<Rightarrow> nat \<Rightarrow> ('v, 'e, 'p) sf_state \<Rightarrow> ('v, 'e, 'p) sf_state option" where
  "sf_move F t s =
     (if t < length (thr s) then
        (case thr s ! t of
           Start k \<Rightarrow> (case Do_enter k (grp s) of (p, g) \<Rightarrow> Some (s\<lparr>grp := g, thr := (thr s)[t := p]\<rparr>))
         | Running k c \<Rightarrow> Some (s\<lparr>grp := Do_fn c (F t) (grp s), thr := (thr s)[t := Finished k c]\<rparr>)
         | Finished k c \<Rightarrow> Some (s\<lparr>grp := Do_remove k c (grp s), thr := (thr s)[t := Removed k c]\<rparr>)
         | Removed k c \<Rightarrow> Some (s\<lparr>grp := Do_done c (grp s), thr := (thr s)[t := Woken k c]\<rparr>)
         | Waiting k c \<Rightarrow>
             (if wg (callHeap (grp s) ! c) = 0 then Some (s\<lparr>thr := (thr s)[t := Woken k c]\<rparr>) else None)
         | Woken k c \<Rightarrow> Some (s\<lparr>thr := (thr s)[t := Returned k c (Do_result (callHeap (grp s) ! c))]\<rparr>)
         | Returned k c r \<Rightarrow> None)
      else None)"

lemma sf_move_step: "sf_move F t s = Some s' \<Longrightarrow> sf_step F s s'"
  by (auto simp: sf_move_def split: if_splits pc.splits prod.splits intro: sf_step.intros)

fun sf_run ::
    "(nat \<Rightarrow> ('v, 'e, 'p) outcome) \<Rightarrow> nat list \<Rightarrow> ('v, 'e, 'p) sf_state \<Rightarrow> ('v, 'e, 'p) sf_state option" where
  "sf_run F [] s = Some s"
| "sf_run F (t # ts) s = (case sf_move F t s of Some s' \<Rightarrow> sf_run F ts s' | None \<Rightarrow> None)"

lemma sf_run_reachable: "sf_reachable F ks s \<Longrightarrow> sf_run F ts s = Some s' \<Longrightarrow> sf_reachable F ks s'"
  by (induction ts arbitrary: s) (auto split: option.splits dest: sf_move_step intro: sf_reachable.step)

definition two_callers :: "nat list \<Rightarrow> (nat, string, string) sf_state option" where
  "two_callers ts = sf_run (\<lambda>t. Return (Some (10 + t)) None) ts (sf_init [''k'', ''k''])"

lemma two_callers_reachable:
  "two_callers ts = Some s \<Longrightarrow> sf_reachable (\<lambda>t. Return (Some (10 + t)) None) [''k'', ''k''] s"
  unfolding two_callers_def by (rule sf_run_reachable [OF sf_reachable.init])

lemma two_callers_runs:
  "map_option thr (two_callers [0, 1]) = Some [Running ''k'' 0, Waiting ''k'' 0]"
  "map_option thr (two_callers [0, 1, 0, 0, 0, 1, 1, 0]) =
     Some [Returned ''k'' 0 (Return (Some 10) None), Returned ''k'' 0 (Return (Some 10) None)]"
  "map_option thr (two_callers [0, 0, 0]) = Some [Removed ''k'' 0, Start ''k'']"
  by (code_simp)+

theorem Do_single_flight_witness:
  "\<exists>s. two_callers [0, 1] = Some s \<and> thr s ! 0 = Running ''k'' 0 \<and> thr s ! 1 \<noteq> Running ''k'' 0"
proof -
  obtain s where s: "two_callers [0, 1] = Some s" "thr s = [Running ''k'' 0, Waiting ''k'' 0]"
    using two_callers_runs(1) by auto
  from Do_single_flight [OF two_callers_reachable [OF s(1)], of 0 0 "''k''" 0 0]
    Do_single_flight [OF two_callers_reachable [OF s(1)], of 0 1 "''k''" 0 0] s
  show ?thesis by auto
qed

theorem Do_shared_result_witness:
  "\<exists>s ss. two_callers [0, 1, 0, 0, 0, 1, 1, 0] = Some s \<and> sf_path (\<lambda>t. Return (Some (10 + t)) None) [''k'', ''k''] (s # ss) \<and>
     thr s ! 1 = Returned ''k'' 0 (Return (Some 10) None) \<and> (\<exists>s'\<in>set ss. thr s' ! 0 = Running ''k'' 0)"
proof -
  obtain s where s: "two_callers [0, 1, 0, 0, 0, 1, 1, 0] = Some s"
    "thr s = [Returned ''k'' 0 (Return (Some 10) None), Returned ''k'' 0 (Return (Some 10) None)]"
    using two_callers_runs(2) by auto
  obtain ss where ss: "sf_path (\<lambda>t. Return (Some (10 + t)) None) [''k'', ''k''] (s # ss)"
    using sf_reachable_path [OF two_callers_reachable [OF s(1)]] by blast
  from Do_shared_result [OF ss, of 1 "''k''" 0 "Return (Some 10) None"] s
  obtain l where "Return (Some 10) None = Return (Some (10 + l)) None" "\<exists>s'\<in>set ss. thr s' ! l = Running ''k'' 0" by auto
  then have "\<exists>s'\<in>set ss. thr s' ! 0 = Running ''k'' 0" by simp
  with s ss show ?thesis by auto
qed

lemma two_callers_no_stale_join:
  "\<exists>s. two_callers [0, 0, 0] = Some s \<and> fst (Do_enter ''k'' (grp s)) \<noteq> Waiting ''k'' 0"
proof -
  obtain s where s: "two_callers [0, 0, 0] = Some s" "thr s = [Removed ''k'' 0, Start ''k'']"
    using two_callers_runs(3) by auto
  obtain p g where e: "Do_enter ''k'' (grp s) = (p, g)" by fastforce
  from Do_no_stale_join [OF two_callers_reachable [OF s(1)], of 0 "''k''" 0 _ "''k''" p g] s e
  show ?thesis by auto
qed

theorem Do_all_return_witness:
  "\<exists>s. two_callers [0, 1] = Some s \<and> (\<exists>s'. sf_step (\<lambda>t. Return (Some (10 + t)) None) s s')"
proof -
  obtain s where s: "two_callers [0, 1] = Some s" "thr s = [Running ''k'' 0, Waiting ''k'' 0]"
    using two_callers_runs(1) by auto
  from Do_all_return [OF two_callers_reachable [OF s(1)]] s show ?thesis by force
qed

end
