(* ===== verification/Errors.thy ===== *)
theory Errors
  imports Prelude
begin

text \<open>
  Go errors as the sources build them: the sentinels of \<^verbatim>\<open>src/group.go\<close>, the errors of a context,
  gRPC status errors, \<^verbatim>\<open>fmt.Errorf\<close> with and without \<^verbatim>\<open>%w\<close>, and \<^verbatim>\<open>errors.Join\<close>. A formatted error
  keeps its format string and arguments; the code never inspects the rendered text.
\<close>

datatype sentinel =
    ErrKeyRequired
  | ErrValueRequired
  | ErrGroupClosed
  | ErrCacheMiss
  | ErrNoOwner
  | ErrPeerUnavailable
  | ErrTopologyChanged
  | ErrNotOwner

datatype ctx_error = Canceled | DeadlineExceeded

text \<open>The codes of \<^verbatim>\<open>google.golang.org/grpc/codes\<close> the sources name; any other is \<open>OtherCode\<close>.\<close>

datatype code = FailedPrecondition | NotFound | Unavailable | OtherCode nat

text \<open>
  \<open>Errorf fmt args w\<close> is \<^verbatim>\<open>fmt.Errorf\<close> with \<open>w\<close> the operand of \<^verbatim>\<open>%w\<close>; \<open>Status c e\<close> is
  \<^verbatim>\<open>status.Error(c, e.Error())\<close>: the text of \<open>e\<close> without its identity. \<open>Text\<close> is an error of code
  outside the sources.
\<close>

datatype error =
    Sentinel sentinel
  | Ctx ctx_error
  | Text string
  | Errorf string "farg list" "error option"
  | Status code error
  | Join "error list"
and farg = S string | V error

abbreviation wrapped :: "string \<Rightarrow> farg list \<Rightarrow> error \<Rightarrow> error" where
  "wrapped f as e \<equiv> Errorf f as (Some e)"

text \<open>\<^verbatim>\<open>errors.Is\<close> for a sentinel: the chain of \<^verbatim>\<open>Unwrap\<close>.\<close>

fun errors_Is :: "error \<Rightarrow> sentinel \<Rightarrow> bool" where
  "errors_Is (Sentinel s) t = (s = t)"
| "errors_Is (Errorf f as (Some e)) t = errors_Is e t"
| "errors_Is (Join es) t = list_ex (\<lambda>e. errors_Is e t) es"
| "errors_Is _ t = False"

text \<open>The guards of the retry loops.\<close>

abbreviation is_moved :: "error \<Rightarrow> bool" where
  "is_moved e \<equiv> errors_Is e ErrNotOwner \<or> errors_Is e ErrTopologyChanged"

text \<open>\<^verbatim>\<open>errors.Join\<close>: nil for no errors.\<close>

definition errors_Join :: "error list \<Rightarrow> error option" where
  "errors_Join es = (if es = [] then None else Some (Join es))"

end
