(* ===== verification/Client.thy ===== *)
theory Client
  imports Errors
begin

text \<open>
  The peer client of \<^verbatim>\<open>src/client.go\<close>. The generated gRPC stub, the dialer and \<^verbatim>\<open>status.Code\<close> are
  parameters; a connection is named by a number.
\<close>

section \<open>Contexts\<close>

text \<open>What the client uses of a \<^verbatim>\<open>context.Context\<close>: its deadline and its outgoing metadata.\<close>

record Context =
  ctx_deadline :: "time option"
  ctx_metadata :: "(string \<times> string) list"

definition Background :: Context where
  "Background = \<lparr>ctx_deadline = None, ctx_metadata = []\<rparr>"

definition WithTimeout :: "time \<Rightarrow> Context \<Rightarrow> duration \<Rightarrow> Context" where
  "WithTimeout now ctx d =
     ctx\<lparr>ctx_deadline := Some (case ctx_deadline ctx of Some t \<Rightarrow> min t (now + d) | None \<Rightarrow> now + d)\<rparr>"

definition AppendToOutgoingContext :: "Context \<Rightarrow> string \<Rightarrow> string \<Rightarrow> Context" where
  "AppendToOutgoingContext ctx k v = ctx\<lparr>ctx_metadata := ctx_metadata ctx @ [(k, v)]\<rparr>"

section \<open>The client\<close>

record Client =
  c_addr :: string
  c_rpcTimeout :: duration
  c_conn :: nat

definition peerInvalidationMetadataKey :: string where
  "peerInvalidationMetadataKey = ''x-locache-invalidate''"

text \<open>\<open>dial addr\<close> is the error of \<^verbatim>\<open>grpc.NewClient\<close>, \<open>conn\<close> the connection it would open.\<close>

definition NewClient :: "(string \<Rightarrow> error option) \<Rightarrow> nat \<Rightarrow> string \<Rightarrow> duration \<Rightarrow> error + Client" where
  "NewClient dial conn addr rpcTimeout =
     (let rpcTimeout = (if rpcTimeout \<le> 0 then 3 * second else rpcTimeout)
      in case dial addr of
           Some err \<Rightarrow> Inl (wrapped ''create grpc client for %s: %w'' [S addr] err)
         | None \<Rightarrow> Inr \<lparr>c_addr = addr, c_rpcTimeout = rpcTimeout, c_conn = conn\<rparr>)"

text \<open>\<open>code_of\<close> is \<^verbatim>\<open>status.Code\<close>.\<close>

definition classifyRPCError :: "(error \<Rightarrow> code) \<Rightarrow> error option \<Rightarrow> error option" where
  "classifyRPCError code_of e =
     (case e of
        None \<Rightarrow> None
      | Some err \<Rightarrow>
          (case code_of err of
             FailedPrecondition \<Rightarrow> Some (wrapped ''%w: %v'' [V err] (Sentinel ErrTopologyChanged))
           | NotFound \<Rightarrow> Some (wrapped ''%w: %v'' [V err] (Sentinel ErrCacheMiss))
           | _ \<Rightarrow> Some err))"

definition callContext :: "time \<Rightarrow> Client \<Rightarrow> Context option \<Rightarrow> Context" where
  "callContext now c ctx =
     (let ctx = (case ctx of None \<Rightarrow> Background | Some ctx \<Rightarrow> ctx)
      in if ctx_deadline ctx \<noteq> None then ctx else WithTimeout now ctx (c_rpcTimeout c))"

text \<open>The generated client: a request with its context, over a state of the network.\<close>

record Request =
  r_group :: string
  r_key :: string
  r_value :: bytes

record 'w LocacheClient =
  rpc_Get :: "Context \<Rightarrow> Request \<Rightarrow> 'w \<Rightarrow> (error + bytes) \<times> 'w"
  rpc_Set :: "Context \<Rightarrow> Request \<Rightarrow> 'w \<Rightarrow> (error + bytes) \<times> 'w"
  rpc_Delete :: "Context \<Rightarrow> Request \<Rightarrow> 'w \<Rightarrow> (error + bool) \<times> 'w"

text \<open>The error a method returns for an error of its call.\<close>

definition rpc_error :: "(error \<Rightarrow> code) \<Rightarrow> string \<Rightarrow> Client \<Rightarrow> error \<Rightarrow> error" where
  "rpc_error code_of f c err = wrapped f [S (c_addr c)] (the (classifyRPCError code_of (Some err)))"

definition Client_Get ::
    "(error \<Rightarrow> code) \<Rightarrow> 'w LocacheClient \<Rightarrow> time \<Rightarrow> Client \<Rightarrow> Context option \<Rightarrow> string \<Rightarrow> string \<Rightarrow> 'w \<Rightarrow>
     (error + bytes) \<times> 'w" where
  "Client_Get code_of stub now c ctx grp key w =
     (case rpc_Get stub (callContext now c ctx) \<lparr>r_group = grp, r_key = key, r_value = []\<rparr> w of
        (Inl err, w) \<Rightarrow> (Inl (rpc_error code_of ''grpc get from %s: %w'' c err), w)
      | (Inr v, w) \<Rightarrow> (Inr v, w))"

definition Client_Set ::
    "(error \<Rightarrow> code) \<Rightarrow> 'w LocacheClient \<Rightarrow> time \<Rightarrow> Client \<Rightarrow> Context option \<Rightarrow> string \<Rightarrow> string \<Rightarrow> bytes \<Rightarrow> 'w \<Rightarrow>
     error option \<times> 'w" where
  "Client_Set code_of stub now c ctx grp key value w =
     (case rpc_Set stub (callContext now c ctx) \<lparr>r_group = grp, r_key = key, r_value = value\<rparr> w of
        (Inl err, w) \<Rightarrow> (Some (rpc_error code_of ''grpc set on %s: %w'' c err), w)
      | (Inr v, w) \<Rightarrow> (None, w))"

definition Client_Delete ::
    "(error \<Rightarrow> code) \<Rightarrow> 'w LocacheClient \<Rightarrow> time \<Rightarrow> Client \<Rightarrow> Context option \<Rightarrow> string \<Rightarrow> string \<Rightarrow> 'w \<Rightarrow>
     (error + bool) \<times> 'w" where
  "Client_Delete code_of stub now c ctx grp key w =
     (case rpc_Delete stub (callContext now c ctx) \<lparr>r_group = grp, r_key = key, r_value = []\<rparr> w of
        (Inl err, w) \<Rightarrow> (Inl (rpc_error code_of ''grpc delete on %s: %w'' c err), w)
      | (Inr v, w) \<Rightarrow> (Inr v, w))"

definition Client_Invalidate ::
    "(error \<Rightarrow> code) \<Rightarrow> 'w LocacheClient \<Rightarrow> time \<Rightarrow> Client \<Rightarrow> Context option \<Rightarrow> string \<Rightarrow> string \<Rightarrow> 'w \<Rightarrow>
     error option \<times> 'w" where
  "Client_Invalidate code_of stub now c ctx grp key w =
     (let callCtx = AppendToOutgoingContext (callContext now c ctx) peerInvalidationMetadataKey ''1''
      in case rpc_Delete stub callCtx \<lparr>r_group = grp, r_key = key, r_value = []\<rparr> w of
           (Inl err, w) \<Rightarrow> (Some (rpc_error code_of ''grpc invalidate on %s: %w'' c err), w)
         | (Inr v, w) \<Rightarrow> (None, w))"

text \<open>\<^verbatim>\<open>Close\<close> closes the connection; \<open>open_conns\<close> are the open ones.\<close>

definition Client_Close :: "Client \<Rightarrow> nat list \<Rightarrow> nat list" where
  "Client_Close c open_conns = filter (\<lambda>n. n \<noteq> c_conn c) open_conns"

section \<open>Deadlines\<close>

text \<open>Every call carries a deadline: the caller's own, or the client's timeout from now.\<close>

lemma callContext_deadline:
  "ctx_deadline (callContext now c ctx) =
     (case ctx of Some x \<Rightarrow> (case ctx_deadline x of Some t \<Rightarrow> Some t | None \<Rightarrow> Some (now + c_rpcTimeout c))
                | None \<Rightarrow> Some (now + c_rpcTimeout c))"
  by (auto simp: callContext_def WithTimeout_def Background_def Let_def split: option.split)

lemma NewClient_timeout: "NewClient dial n addr d = Inr c \<Longrightarrow> 0 < c_rpcTimeout c \<and> c_addr c = addr \<and> c_conn c = n"
  by (auto simp: NewClient_def Let_def split: option.splits)

text \<open>What the retry loops see of a failed call depends on its status code only.\<close>

lemma errors_Is_rpc_error:
  "errors_Is (rpc_error code_of f c err) t =
     (case code_of err of
        FailedPrecondition \<Rightarrow> t = ErrTopologyChanged
      | NotFound \<Rightarrow> t = ErrCacheMiss
      | _ \<Rightarrow> errors_Is err t)"
  by (auto simp: rpc_error_def classifyRPCError_def split: code.split)

end
