(* ===== verification/Registry.thy ===== *)
theory Registry
  imports Errors
begin

text \<open>
  Addresses and service registration of \<^verbatim>\<open>src/registry/register.go\<close>. \<^verbatim>\<open>net.SplitHostPort\<close>,
  \<^verbatim>\<open>net.JoinHostPort\<close>, \<^verbatim>\<open>strings.Trim\<close> and the IP methods used are modelled as the Go library has
  them. The etcd client is a parameter.
\<close>

section \<open>Configuration and keys\<close>

record RegistryConfig =
  Endpoints :: "string list"
  DialTimeout :: duration
  LeaseTTL :: int

definition DefaultRegistryConfig :: RegistryConfig where
  "DefaultRegistryConfig =
     \<lparr>Endpoints = [''localhost:2379''], DialTimeout = 5 * second, LeaseTTL = 10\<rparr>"

definition ServicePrefix :: "string \<Rightarrow> string" where
  "ServicePrefix svcName = ''/services/'' @ svcName @ ''/''"

definition ServiceKey :: "string \<Rightarrow> string \<Rightarrow> string" where
  "ServiceKey svcName addr = ServicePrefix svcName @ addr"

section \<open>Host and port\<close>

text \<open>\<^verbatim>\<open>strings.IndexByte\<close> and \<^verbatim>\<open>strings.LastIndexByte\<close>; \<open>None\<close> for -1.\<close>

fun IndexByte :: "string \<Rightarrow> char \<Rightarrow> nat option" where
  "IndexByte [] c = None"
| "IndexByte (x # xs) c = (if x = c then Some 0 else map_option Suc (IndexByte xs c))"

fun LastIndexByte :: "string \<Rightarrow> char \<Rightarrow> nat option" where
  "LastIndexByte [] c = None"
| "LastIndexByte (x # xs) c =
     (case LastIndexByte xs c of Some i \<Rightarrow> Some (Suc i) | None \<Rightarrow> if x = c then Some 0 else None)"

datatype addr_error = MissingPort | TooManyColons | MissingBracket | UnexpectedOpen | UnexpectedClose

definition SplitHostPort :: "string \<Rightarrow> addr_error + string \<times> string" where
  "SplitHostPort hostport =
     (case LastIndexByte hostport CHR '':'' of
        None \<Rightarrow> Inl MissingPort
      | Some i \<Rightarrow>
          (let tail = (\<lambda>host j k.
             if CHR ''['' \<in> set (drop j hostport) then Inl UnexpectedOpen
             else if CHR '']'' \<in> set (drop k hostport) then Inl UnexpectedClose
             else Inr (host, drop (i + 1) hostport))
           in if hd hostport = CHR ''['' then
                (case IndexByte hostport CHR '']'' of
                   None \<Rightarrow> Inl MissingBracket
                 | Some e \<Rightarrow>
                     (if e + 1 = length hostport then Inl MissingPort
                      else if e + 1 = i then tail (take (e - 1) (drop 1 hostport)) 1 (e + 1)
                      else if hostport ! (e + 1) = CHR '':'' then Inl TooManyColons
                      else Inl MissingPort))
              else (let host = take i hostport
                    in if CHR '':'' \<in> set host then Inl TooManyColons else tail host 0 0)))"

definition JoinHostPort :: "string \<Rightarrow> string \<Rightarrow> string" where
  "JoinHostPort host port =
     (if CHR '':'' \<in> set host then ''['' @ host @ '']:'' @ port else host @ '':'' @ port)"

definition Trim :: "string \<Rightarrow> string \<Rightarrow> string" where
  "Trim s cutset = rev (dropWhile (\<lambda>c. c \<in> set cutset) (rev (dropWhile (\<lambda>c. c \<in> set cutset) s)))"

section \<open>The local address\<close>

text \<open>\<^verbatim>\<open>net.Addr\<close>: the code looks at \<^verbatim>\<open>*net.IPNet\<close> only, through its IP bytes.\<close>

datatype net_addr = IPNet bytes | OtherAddr

definition To4 :: "bytes \<Rightarrow> bytes option" where
  "To4 ip =
     (if length ip = 4 then Some ip
      else if length ip = 16 \<and> take 10 ip = replicate 10 0 \<and> ip ! 10 = 255 \<and> ip ! 11 = 255
      then Some (drop 12 ip) else None)"

definition IsLoopback :: "bytes \<Rightarrow> bool" where
  "IsLoopback ip =
     (case To4 ip of Some ip4 \<Rightarrow> ip4 ! 0 = 127 | None \<Rightarrow> ip = replicate 15 0 @ [1])"

text \<open>\<^verbatim>\<open>IP.String\<close> of four bytes.\<close>

fun dotted :: "bytes \<Rightarrow> string" where
  "dotted [] = []"
| "dotted [b] = decimal (unat b)"
| "dotted (b # bs) = decimal (unat b) @ ''.'' @ dotted bs"

fun firstIPv4 :: "net_addr list \<Rightarrow> string option" where
  "firstIPv4 [] = None"
| "firstIPv4 (OtherAddr # as) = firstIPv4 as"
| "firstIPv4 (IPNet ip # as) =
     (if \<not> IsLoopback ip then
        (case To4 ip of Some ip4 \<Rightarrow> Some (dotted ip4) | None \<Rightarrow> firstIPv4 as)
      else firstIPv4 as)"

text \<open>\<open>ifs\<close> is the result of \<^verbatim>\<open>net.InterfaceAddrs\<close>.\<close>

definition GetLocalIP :: "error + net_addr list \<Rightarrow> error + string" where
  "GetLocalIP ifs =
     (case ifs of
        Inl err \<Rightarrow> Inl err
      | Inr addrs \<Rightarrow>
          (case firstIPv4 addrs of
             Some ip \<Rightarrow> Inr ip
           | None \<Rightarrow> Inl (Errorf ''no routable IPv4 address found'' [] None)))"

text \<open>The text of an \<^verbatim>\<open>*net.AddrError\<close>.\<close>

fun addr_text :: "addr_error \<Rightarrow> string" where
  "addr_text MissingPort = ''missing port in address''"
| "addr_text TooManyColons = ''too many colons in address''"
| "addr_text MissingBracket = ''missing ']' in address''"
| "addr_text UnexpectedOpen = ''unexpected '[' in address''"
| "addr_text UnexpectedClose = ''unexpected ']' in address''"

definition wildcard :: "string \<Rightarrow> bool" where
  "wildcard host \<longleftrightarrow> host = [] \<or> host = ''0.0.0.0'' \<or> host = ''::'' \<or> host = ''[::]''"

definition NormalizeAddress :: "error + net_addr list \<Rightarrow> string \<Rightarrow> error + string" where
  "NormalizeAddress ifs addr =
     (case SplitHostPort addr of
        Inl err \<Rightarrow> Inl (wrapped ''invalid address %q: %w'' [S addr] (Text (addr_text err)))
      | Inr (host, port) \<Rightarrow>
          (if port = [] then Inl (Errorf ''missing port in address %q'' [S addr] None)
           else if wildcard host then
             (case GetLocalIP ifs of
                Inl err \<Rightarrow> Inl err
              | Inr ip \<Rightarrow> Inr (JoinHostPort (Trim ip ''[]'') port))
           else Inr (JoinHostPort (Trim host ''[]'') port)))"

section \<open>Registration\<close>

text \<open>The calls of the etcd client, over a state of the cluster.\<close>

record 'x etcd =
  Grant :: "int \<Rightarrow> 'x \<Rightarrow> (error + nat) \<times> 'x"
  Put :: "string \<Rightarrow> string \<Rightarrow> nat \<Rightarrow> 'x \<Rightarrow> error option \<times> 'x"
  KeepAlive :: "nat \<Rightarrow> 'x \<Rightarrow> error option \<times> 'x"
  Revoke :: "nat \<Rightarrow> 'x \<Rightarrow> error option \<times> 'x"

record Registration =
  leaseID :: nat
  cancelled :: bool
  once :: bool

definition Register ::
    "'x etcd option \<Rightarrow> string \<Rightarrow> string \<Rightarrow> int \<Rightarrow> 'x \<Rightarrow> (error + Registration) \<times> 'x" where
  "Register cli svcName addr ttl x =
     (case cli of
        None \<Rightarrow> (Inl (Errorf ''nil etcd client'' [] None), x)
      | Some cli \<Rightarrow>
          (let ttl = (if ttl \<le> 0 then LeaseTTL DefaultRegistryConfig else ttl)
           in case Grant cli ttl x of
                (Inl err, x) \<Rightarrow> (Inl (wrapped ''grant etcd lease: %w'' [] err), x)
              | (Inr lease, x) \<Rightarrow>
                  (case Put cli (ServiceKey svcName addr) addr lease x of
                     (Some err, x) \<Rightarrow> (Inl (wrapped ''register service in etcd: %w'' [] err), x)
                   | (None, x) \<Rightarrow>
                       (case KeepAlive cli lease x of
                          (Some err, x) \<Rightarrow> (Inl (wrapped ''keep etcd lease alive: %w'' [] err), x)
                        | (None, x) \<Rightarrow> (Inr \<lparr>leaseID = lease, cancelled = False, once = False\<rparr>, x)))))"

text \<open>
  The goroutine that drains the keep-alive channel; its result says whether it has returned and closed
  \<^verbatim>\<open>done\<close>.
\<close>

datatype keepalive_event = CtxDone | KeepAliveResp | KeepAliveClosed

fun keepAliveLoop :: "keepalive_event list \<Rightarrow> bool" where
  "keepAliveLoop [] = False"
| "keepAliveLoop (CtxDone # es) = True"
| "keepAliveLoop (KeepAliveResp # es) = keepAliveLoop es"
| "keepAliveLoop (KeepAliveClosed # es) = True"

text \<open>
  \<open>sel\<close> is what the \<^verbatim>\<open>select\<close> of \<^verbatim>\<open>Close\<close> receives: \<open>None\<close> when the goroutine has ended, or the error of
  the caller's context.
\<close>

definition Registration_Close ::
    "'x etcd \<Rightarrow> ctx_error option \<Rightarrow> Registration option \<Rightarrow> 'x \<Rightarrow> error option \<times> Registration option \<times> 'x" where
  "Registration_Close cli sel r x =
     (case r of
        None \<Rightarrow> (None, None, x)
      | Some r \<Rightarrow>
          (if once r then (None, Some r, x)
           else (let revokeErr = map_option Ctx sel;
                     (err, x) = Revoke cli (leaseID r) x
                 in (if err \<noteq> None \<and> revokeErr = None then err else revokeErr,
                     Some (r\<lparr>cancelled := True, once := True\<rparr>), x))))"

section \<open>Round trips of addresses\<close>

lemma IndexByte_None: "IndexByte s c = None \<longleftrightarrow> c \<notin> set s"
  by (induction s) auto

lemma LastIndexByte_None: "LastIndexByte s c = None \<longleftrightarrow> c \<notin> set s"
  by (induction s) (auto split: option.splits)

lemma IndexByte_append: "c \<notin> set s \<Longrightarrow> IndexByte (s @ c # t) c = Some (length s)"
  by (induction s) auto

lemma LastIndexByte_append: "c \<notin> set t \<Longrightarrow> LastIndexByte (s @ c # t) c = Some (length s)"
proof (induction s)
  case Nil
  then show ?case using LastIndexByte_None [of t c] by simp
qed simp

lemma LastIndexByte_split:
  "LastIndexByte s c = Some i \<Longrightarrow> s = take i s @ c # drop (Suc i) s \<and> c \<notin> set (drop (Suc i) s)"
proof (induction s arbitrary: i)
  case (Cons x s)
  then show ?case
    by (cases "LastIndexByte s c") (auto simp: LastIndexByte_None split: if_splits)
qed simp

lemma IndexByte_split:
  "IndexByte s c = Some i \<Longrightarrow> s = take i s @ c # drop (Suc i) s \<and> c \<notin> set (take i s)"
  by (induction s arbitrary: i) (auto split: if_splits)

lemma dropWhile_none: "\<forall>x\<in>set s. \<not> P x \<Longrightarrow> dropWhile P s = s"
  by (cases s) auto

lemma Trim_id: "set s \<inter> set cutset = {} \<Longrightarrow> Trim s cutset = s"
proof -
  assume "set s \<inter> set cutset = {}"
  then have "dropWhile (\<lambda>c. c \<in> set cutset) s = s" "dropWhile (\<lambda>c. c \<in> set cutset) (rev s) = rev s"
    by (intro dropWhile_none; auto)+
  then show ?thesis by (simp add: Trim_def)
qed

abbreviation "brackets \<equiv> set ''[]''"

lemma SplitHostPort_sound:
  assumes "SplitHostPort a = Inr (host, port)"
  shows "set host \<inter> brackets = {} \<and> CHR '':'' \<notin> set port \<and> set port \<inter> brackets = {}"
proof -
  obtain i where i: "LastIndexByte a CHR '':'' = Some i"
    using assms by (auto simp: SplitHostPort_def split: option.splits)
  note last = LastIndexByte_split [OF i]
  show ?thesis
  proof (cases "hd a = CHR ''[''")
    case True
    then obtain e where e: "IndexByte a CHR '']'' = Some e" "e + 1 = i" "host = take (e - 1) (drop 1 a)"
      "port = drop (i + 1) a" "CHR ''['' \<notin> set (drop 1 a)" "CHR '']'' \<notin> set (drop (e + 1) a)"
      using assms i by (auto simp: SplitHostPort_def Let_def split: option.splits if_splits)
    have "set host \<subseteq> set (take e a)" "set host \<subseteq> set (drop 1 a)"
      using e(3) by (cases e; auto simp: take_drop dest: in_set_dropD in_set_takeD)
        (use e(3) in \<open>auto dest: in_set_takeD\<close>)
    moreover have "set port \<subseteq> set (drop (e + 1) a)" "set port \<subseteq> set (drop 1 a)"
      using e(2,4) set_drop_subset_set_drop [of "e + 1" "i + 1" a] set_drop_subset_set_drop [of 1 "i + 1" a] by auto
    ultimately show ?thesis using e(4-6) IndexByte_split [OF e(1)] last by auto
  next
    case False
    then have "host = take i a" "port = drop (i + 1) a" "CHR ''['' \<notin> set a" "CHR '']'' \<notin> set a"
      using assms i by (auto simp: SplitHostPort_def Let_def split: if_splits)
    with last show ?thesis by (auto dest: in_set_dropD in_set_takeD)
  qed
qed

lemma SplitHostPort_JoinHostPort:
  assumes "set host \<inter> brackets = {}" "CHR '':'' \<notin> set port" "set port \<inter> brackets = {}"
  shows "SplitHostPort (JoinHostPort host port) = Inr (host, port)"
proof (cases "CHR '':'' \<in> set host")
  case True
  let ?a = "(CHR ''['' # host) @ CHR '']'' # CHR '':'' # port"
  have "IndexByte ?a CHR '']'' = Some (length host + 1)"
    using IndexByte_append [of "CHR '']''" "CHR ''['' # host" "CHR '':'' # port"] assms(1) by simp
  moreover have "LastIndexByte ((CHR ''['' # host @ [CHR '']'']) @ CHR '':'' # port) CHR '':'' = Some (length host + 2)"
    using LastIndexByte_append [of "CHR '':''" port "CHR ''['' # host @ [CHR '']'']"] assms(2) by simp
  moreover have "JoinHostPort host port = ?a" using True by (simp add: JoinHostPort_def)
  ultimately show ?thesis using assms by (simp add: SplitHostPort_def)
next
  case False
  have "LastIndexByte (host @ CHR '':'' # port) CHR '':'' = Some (length host)"
    by (rule LastIndexByte_append [OF assms(2)])
  moreover have "hd (host @ CHR '':'' # port) \<noteq> CHR ''[''" using assms(1) by (cases host) auto
  ultimately show ?thesis using False assms by (auto simp: SplitHostPort_def JoinHostPort_def)
qed

lemma dotted_chars:
  "c \<in> set (dotted bs) \<Longrightarrow> c = CHR ''.'' \<or> (48 \<le> (of_char c :: nat) \<and> (of_char c :: nat) < 58)"
  by (induction bs rule: dotted.induct) (auto dest: decimal_digits)

lemma dotted_plain: "set (dotted bs) \<inter> brackets = {} \<and> CHR '':'' \<notin> set (dotted bs)"
  using dotted_chars by fastforce

lemma firstIPv4_dotted: "firstIPv4 as = Some ip \<Longrightarrow> \<exists>bs. ip = dotted bs"
  by (induction as rule: firstIPv4.induct) (auto split: if_splits option.splits)

lemma GetLocalIP_plain: "GetLocalIP ifs = Inr ip \<Longrightarrow> set ip \<inter> brackets = {} \<and> CHR '':'' \<notin> set ip"
  using dotted_plain firstIPv4_dotted by (fastforce simp: GetLocalIP_def split: sum.splits option.splits)

text \<open>The result of normalisation: the host given, or the local address for a wildcard, with the port given.\<close>

lemma NormalizeAddress_Inr:
  assumes "NormalizeAddress ifs a = Inr b"
  obtains host port h where "SplitHostPort a = Inr (host, port)" "port \<noteq> []"
    "if wildcard host then GetLocalIP ifs = Inr h else h = host" "b = JoinHostPort h port"
    "SplitHostPort b = Inr (h, port)"
proof -
  obtain host port where hp: "SplitHostPort a = Inr (host, port)" "port \<noteq> []"
    using assms by (auto simp: NormalizeAddress_def split: sum.splits if_splits)
  note ok = SplitHostPort_sound [OF hp(1)]
  obtain h where h: "if wildcard host then GetLocalIP ifs = Inr h else h = host"
    "b = JoinHostPort (Trim h ''[]'') port"
    using assms hp by (auto simp: NormalizeAddress_def split: sum.splits if_splits)
  then have plain: "set h \<inter> brackets = {}" using ok GetLocalIP_plain by (auto split: if_splits)
  then have "Trim h ''[]'' = h" by (rule Trim_id)
  with h plain ok show ?thesis using hp SplitHostPort_JoinHostPort by (intro that [of host port h]) auto
qed

section \<open>Properties\<close>

text \<open>A normalised address splits into a host without brackets and the port given; an explicit host
  is kept, and a wildcard host becomes the first routable IPv4 address of the node.\<close>

lemma NormalizeAddress_host:
  assumes "NormalizeAddress ifs a = Inr b" "SplitHostPort a = Inr (host, port)"
  shows "\<exists>h. SplitHostPort b = Inr (h, port) \<and> (if wildcard host then GetLocalIP ifs = Inr h else h = host)"
  using assms by (elim NormalizeAddress_Inr) auto

lemma NormalizeAddress_fix:
  assumes "NormalizeAddress ifs a = Inr b"
  shows "NormalizeAddress ifs b = Inr b"
proof (rule NormalizeAddress_Inr [OF assms])
  fix host port h
  assume hp: "SplitHostPort a = Inr (host, port)" "port \<noteq> []" and b: "b = JoinHostPort h port"
    and h: "if wildcard host then GetLocalIP ifs = Inr h else h = host" and split: "SplitHostPort b = Inr (h, port)"
  have trim: "Trim h ''[]'' = h" using SplitHostPort_sound [OF split] by (intro Trim_id) simp
  have "wildcard h \<Longrightarrow> GetLocalIP ifs = Inr h" using h by (cases "wildcard host") simp_all
  then show ?thesis using split hp(2) b trim by (simp add: NormalizeAddress_def)
qed

text \<open>C29. A registration that succeeds leaves the service key bound to the address under its lease, and
  closing it once removes every key of the lease; a second close does nothing. \<open>bound\<close> reads
  the key-value store of the etcd cluster.\<close>

theorem Register_Close:
  fixes bound :: "'x \<Rightarrow> string \<Rightarrow> (string \<times> nat) option"
  assumes put: "\<And>k v l x. fst (Put cli k v l x) = None \<Longrightarrow> bound (snd (Put cli k v l x)) = (bound x)(k \<mapsto> (v, l))"
    and keep: "\<And>l x. bound (snd (KeepAlive cli l x)) = bound x"
    and revoke: "\<And>l x k v. fst (Revoke cli l x) = None \<Longrightarrow> bound (snd (Revoke cli l x)) k \<noteq> Some (v, l)"
    and reg: "Register (Some cli) svc addr ttl x = (Inr r, x1)"
    and close: "Registration_Close cli sel (Some r) x1 = (None, r', x2)"
  shows "bound x1 (ServiceKey svc addr) = Some (addr, leaseID r) \<and>
    (\<forall>k v. bound x2 k \<noteq> Some (v, leaseID r)) \<and> Registration_Close cli sel' r' x2 = (None, r', x2)"
proof -
  obtain x0 xp where p: "Put cli (ServiceKey svc addr) addr (leaseID r) x0 = (None, xp)"
    and k: "KeepAlive cli (leaseID r) xp = (None, x1)" and r: "\<not> once r"
    using reg by (auto simp: Register_def Let_def split: prod.splits sum.splits option.splits)
  have "bound x1 (ServiceKey svc addr) = Some (addr, leaseID r)"
    using put [of "ServiceKey svc addr" addr "leaseID r" x0] keep [of "leaseID r" xp] p k by simp
  moreover obtain err where rv: "Revoke cli (leaseID r) x1 = (err, x2)" "err = None"
    and r': "r' = Some (r\<lparr>cancelled := True, once := True\<rparr>)"
    using close r by (auto simp: Registration_Close_def Let_def split: prod.splits if_splits)
  ultimately show ?thesis using revoke [of "leaseID r" x1] by (simp add: Registration_Close_def)
qed

section \<open>Instances\<close>

definition two_ifs :: "error + net_addr list" where
  "two_ifs = Inr [IPNet [127, 0, 0, 1], OtherAddr, IPNet [10, 0, 0, 5]]"

lemma two_ifs_evals:
  "NormalizeAddress two_ifs '':8001'' = Inr ''10.0.0.5:8001''" "SplitHostPort '':8001'' = Inr ([], ''8001'')"
  "GetLocalIP two_ifs = Inr ''10.0.0.5''"
  by code_simp+

lemma two_ifs_host:
  "SplitHostPort ''10.0.0.5:8001'' = Inr (''10.0.0.5'', ''8001'')"
  using NormalizeAddress_host [OF two_ifs_evals(1,2)] by (simp add: wildcard_def two_ifs_evals(3))

text \<open>A store of keys with their values and leases, with leases numbered in order.\<close>

definition small_etcd :: "(nat \<times> (string, string \<times> nat) gomap) etcd" where
  "small_etcd = \<lparr>Grant = (\<lambda>ttl (n, kv). (Inr n, (Suc n, kv))),
     Put = (\<lambda>k v l (n, kv). (None, (n, gm_put k (v, l) kv))),
     KeepAlive = (\<lambda>l x. (None, x)),
     Revoke = (\<lambda>l (n, kv). (None, (n, filter (\<lambda>e. snd (snd e) \<noteq> l) kv)))\<rparr>"

theorem Register_Close_witness:
  "\<exists>x1 x2 r r'. Register (Some small_etcd) ''c'' ''a:1'' 0 (7, []) = (Inr r, x1) \<and>
     Registration_Close small_etcd None (Some r) x1 = (None, r', x2) \<and>
     gm_get (snd x1) (ServiceKey ''c'' ''a:1'') = Some (''a:1'', 7) \<and>
     gm_get (snd x2) (ServiceKey ''c'' ''a:1'') \<noteq> Some (''a:1'', 7)"
proof -
  let ?r = "\<lparr>leaseID = 7, cancelled = False, once = False\<rparr>"
  let ?x1 = "(8 :: nat, [(''/services/c/a:1'', (''a:1'', 7))])"
  have reg: "Register (Some small_etcd) ''c'' ''a:1'' 0 (7, []) = (Inr ?r, ?x1)" by code_simp
  have close: "Registration_Close small_etcd None (Some ?r) ?x1 =
      (None, Some \<lparr>leaseID = 7, cancelled = True, once = True\<rparr>, (8, []))" by code_simp
  have "gm_get (snd ?x1) (ServiceKey ''c'' ''a:1'') = Some (''a:1'', leaseID ?r) \<and>
      (\<forall>k v. gm_get (snd (8 :: nat, [] :: (string, string \<times> nat) gomap)) k \<noteq> Some (v, leaseID ?r)) \<and>
      Registration_Close small_etcd None (Some \<lparr>leaseID = 7, cancelled = True, once = True\<rparr>) (8, []) =
        (None, Some \<lparr>leaseID = 7, cancelled = True, once = True\<rparr>, (8, []))"
    by (rule Register_Close [OF _ _ _ reg close, where bound = "\<lambda>x. gm_get (snd x)"])
      (auto simp: small_etcd_def gomap_simps split: prod.split dest!: map_of_SomeD)
  with reg close show ?thesis by fastforce
qed

end
