(* ===== verification/Con_Hash.thy ===== *)
theory Con_Hash
  imports Prelude "HOL-Library.List_Lexorder" "HOL-Library.Char_ord"
begin

text \<open>
  The consistent hash ring of \<^verbatim>\<open>src/consistenthash\<close>: virtual points sorted by hash, node and
  replica, binary search for the successor of a key's hash, and membership changes. The ring is
  shown to be a function of the membership set, lookups to agree with a set-based successor, and
  membership changes to move only the keys they must.
\<close>

unbundle bit_operations_syntax

section \<open>Configuration\<close>

text \<open>
  \<^verbatim>\<open>hash/crc32\<close>: the reflected CRC-32 of polynomial 0xEDB88320, bit by bit.
\<close>

definition crc32_bit :: "uint32 \<Rightarrow> uint32" where
  "crc32_bit c = (if c AND 1 = 1 then drop_bit 1 c XOR 3988292384 else drop_bit 1 c)"

definition ChecksumIEEE :: "bytes \<Rightarrow> uint32" where
  "ChecksumIEEE bs = NOT (foldl (\<lambda>c b. (crc32_bit ^^ 8) (c XOR ucast b)) (NOT 0) bs)"

record Config =
  Replicas :: int
  HashFunc :: "bytes \<Rightarrow> uint32"

definition DefaultConfig :: Config where
  "DefaultConfig = \<lparr>Replicas = 100, HashFunc = ChecksumIEEE\<rparr>"

section \<open>Points and their order\<close>

datatype point = Point (phash: uint32) (pnode: string) (preplica: nat)

text \<open>The comparator of \<^verbatim>\<open>sortPoints\<close>.\<close>

definition point_less :: "point \<Rightarrow> point \<Rightarrow> bool" where
  "point_less p q =
     (if phash p \<noteq> phash q then phash p < phash q
      else if pnode p \<noteq> pnode q then pnode p < pnode q
      else preplica p < preplica q)"

instantiation point :: linorder
begin

definition less_point :: "point \<Rightarrow> point \<Rightarrow> bool" where
  "less_point = point_less"

definition less_eq_point :: "point \<Rightarrow> point \<Rightarrow> bool" where
  "less_eq_point p q \<longleftrightarrow> p = q \<or> point_less p q"

instance
proof
  fix x y z :: point
  show "(x < y) = (x \<le> y \<and> \<not> y \<le> x)"
    by (cases x; cases y) (auto simp: less_point_def less_eq_point_def point_less_def)
  show "x \<le> x" by (simp add: less_eq_point_def)
  show "x \<le> y \<Longrightarrow> y \<le> z \<Longrightarrow> x \<le> z"
    by (cases x; cases y; cases z) (auto simp: less_eq_point_def point_less_def split: if_splits)
  show "x \<le> y \<Longrightarrow> y \<le> x \<Longrightarrow> x = y"
    by (cases x; cases y) (auto simp: less_eq_point_def point_less_def split: if_splits)
  show "x \<le> y \<or> y \<le> x"
    by (cases x; cases y) (auto simp: less_eq_point_def point_less_def)
qed

end

lemma point_le_hash: "p \<le> q \<Longrightarrow> phash p \<le> phash q"
  by (auto simp: less_eq_point_def point_less_def split: if_splits)

section \<open>The ring\<close>

text \<open>The key set of the Go map \<^verbatim>\<open>nodes\<close> is a list without repetition.\<close>

record Map =
  config :: Config
  points :: "point list"
  nodes :: "string list"

text \<open>The option \<^verbatim>\<open>WithConfig\<close>, on the two fields of its argument; the hash function may be nil.\<close>

definition WithConfig :: "int \<Rightarrow> (bytes \<Rightarrow> uint32) option \<Rightarrow> Map \<Rightarrow> Map" where
  "WithConfig r h m =
     (let m = (if r > 0 then m\<lparr>config := (config m)\<lparr>Replicas := r\<rparr>\<rparr> else m)
      in case h of Some f \<Rightarrow> m\<lparr>config := (config m)\<lparr>HashFunc := f\<rparr>\<rparr> | None \<Rightarrow> m)"

definition WithReplicas :: "int \<Rightarrow> Map \<Rightarrow> Map" where
  "WithReplicas r m = (if r > 0 then m\<lparr>config := (config m)\<lparr>Replicas := r\<rparr>\<rparr> else m)"

definition New :: "(Map \<Rightarrow> Map) list \<Rightarrow> Map" where
  "New opts = foldl (\<lambda>m opt. opt m) \<lparr>config = DefaultConfig, points = [], nodes = []\<rparr> opts"

text \<open>\<^verbatim>\<open>sort.Slice\<close> with a total order: the sorted permutation is unique.\<close>

definition sortPoints :: "point list \<Rightarrow> point list" where
  "sortPoints ps = sort ps"

definition virtualPoint :: "Config \<Rightarrow> string \<Rightarrow> nat \<Rightarrow> point" where
  "virtualPoint cfg node i = Point (HashFunc cfg (bytes_of (node @ ''#'' @ decimal i))) node i"

fun addNodes :: "string list \<Rightarrow> Map \<Rightarrow> bool \<Rightarrow> Map \<times> bool" where
  "addNodes [] m changed = (m, changed)"
| "addNodes (node # ns) m changed =
     (if node = [] then addNodes ns m changed
      else if node \<in> set (nodes m) then addNodes ns m changed
      else addNodes ns
        (m\<lparr>nodes := nodes m @ [node],
           points := points m @ map (virtualPoint (config m) node) [0..<nat (Replicas (config m))]\<rparr>) True)"

datatype ring_error = NoNodesProvided | InvalidNode | NodeNotFound string

definition ring_Add :: "string list \<Rightarrow> Map \<Rightarrow> ring_error option \<times> Map" where
  "ring_Add ns m =
     (if ns = [] then (Some NoNodesProvided, m)
      else (let (m', changed) = addNodes ns m False
            in (None, if changed then m'\<lparr>points := sortPoints (points m')\<rparr> else m')))"

definition ring_Remove :: "string \<Rightarrow> Map \<Rightarrow> ring_error option \<times> Map" where
  "ring_Remove node m =
     (if node = [] then (Some InvalidNode, m)
      else if node \<notin> set (nodes m) then (Some (NodeNotFound node), m)
      else (None, m\<lparr>points := filter (\<lambda>p. pnode p \<noteq> node) (points m),
                    nodes := filter (\<lambda>n. n \<noteq> node) (nodes m)\<rparr>))"

text \<open>\<^verbatim>\<open>sort.Search\<close>.\<close>

function searchLoop :: "(nat \<Rightarrow> bool) \<Rightarrow> nat \<Rightarrow> nat \<Rightarrow> nat" where
  "searchLoop f i j =
     (if i < j
      then (let h = (i + j) div 2 in if \<not> f h then searchLoop f (h + 1) j else searchLoop f i h)
      else i)"
  by pat_completeness auto
termination
  by (relation "measure (\<lambda>(f, i, j). j - i)") auto

declare searchLoop.simps [simp del]

definition Search :: "nat \<Rightarrow> (nat \<Rightarrow> bool) \<Rightarrow> nat" where
  "Search n f = searchLoop f 0 n"

definition ring_Get :: "string \<Rightarrow> Map \<Rightarrow> string" where
  "ring_Get key m =
     (if key = [] then []
      else if length (points m) = 0 then []
      else (let h = HashFunc (config m) (bytes_of key);
                idx = Search (length (points m)) (\<lambda>i. phash (points m ! i) \<ge> h);
                idx = (if idx = length (points m) then 0 else idx)
            in pnode (points m ! idx)))"

definition ring_Members :: "Map \<Rightarrow> string list" where
  "ring_Members m = sort (nodes m)"

definition ring_Len :: "Map \<Rightarrow> nat" where
  "ring_Len m = length (nodes m)"

section \<open>The ring is a function of the membership\<close>

definition ring_points :: "Config \<Rightarrow> string set \<Rightarrow> point set" where
  "ring_points cfg N = {virtualPoint cfg n i | n i. n \<in> N \<and> i < nat (Replicas cfg)}"

definition ring_inv :: "Map \<Rightarrow> bool" where
  "ring_inv m \<longleftrightarrow> distinct (nodes m) \<and> [] \<notin> set (nodes m) \<and>
     points m = sorted_list_of_set (ring_points (config m) (set (nodes m)))"

lemma pnode_virtualPoint [simp]: "pnode (virtualPoint cfg n i) = n"
  by (simp add: virtualPoint_def)

lemma virtualPoint_inj: "virtualPoint cfg n i = virtualPoint cfg n' i' \<longleftrightarrow> n = n' \<and> i = i'"
  by (auto simp: virtualPoint_def)

lemma finite_ring_points: "finite N \<Longrightarrow> finite (ring_points cfg N)"
proof -
  assume "finite N"
  moreover have "ring_points cfg N = (\<lambda>(n, i). virtualPoint cfg n i) ` (N \<times> {..<nat (Replicas cfg)})"
    by (auto simp: ring_points_def)
  ultimately show ?thesis by simp
qed

lemma ring_points_insert:
  "ring_points cfg (insert n N) = ring_points cfg N \<union> set (map (virtualPoint cfg n) [0..<nat (Replicas cfg)])"
  by (auto simp: ring_points_def) (use atLeast0LessThan in blast)+

lemma ring_points_pnode: "p \<in> ring_points cfg N \<Longrightarrow> pnode p \<in> N"
  by (auto simp: ring_points_def)

lemma ring_points_remove: "{p \<in> ring_points cfg N. pnode p \<noteq> n} = ring_points cfg (N - {n})"
  unfolding ring_points_def by force

lemma addNodes_True: "addNodes ns m True = (m', ch') \<Longrightarrow> ch'"
  by (induction ns m True rule: addNodes.induct) (auto split: if_splits)

lemma addNodes_effect:
  assumes "distinct (nodes m)" "[] \<notin> set (nodes m)" "distinct (points m)"
    "set (points m) = ring_points (config m) (set (nodes m))" "addNodes ns m ch = (m', ch')"
  shows "distinct (nodes m') \<and> [] \<notin> set (nodes m') \<and> distinct (points m') \<and> config m' = config m \<and>
    set (points m') = ring_points (config m) (set (nodes m')) \<and>
    set (nodes m') = set (nodes m) \<union> (set ns - {[]}) \<and> (\<not> ch' \<longrightarrow> m' = m)"
  using assms
proof (induction ns m ch rule: addNodes.induct)
  case (1 m changed)
  then show ?case by simp
next
  case (2 node ns m changed)
  let ?m = "m\<lparr>nodes := nodes m @ [node],
    points := points m @ map (virtualPoint (config m) node) [0..<nat (Replicas (config m))]\<rparr>"
  show ?case
  proof (cases "node = [] \<or> node \<in> set (nodes m)")
    case True
    with 2 show ?thesis by (auto split: if_splits)
  next
    case False
    then have "set (points m) \<inter> set (map (virtualPoint (config m) node) [0..<nat (Replicas (config m))]) = {}"
      using "2.prems"(4) ring_points_pnode by fastforce
    moreover have "distinct (map (virtualPoint (config m) node) [0..<nat (Replicas (config m))])"
      by (auto simp: distinct_map virtualPoint_inj intro: inj_onI)
    ultimately have "distinct (points ?m)" using "2.prems"(3) by simp
    moreover have "set (points ?m) = ring_points (config ?m) (set (nodes ?m))"
      using "2.prems"(4) ring_points_insert [of "config m" node "set (nodes m)"] by simp
    moreover have add: "addNodes ns ?m True = (m', ch')" using False "2.prems"(5) by simp
    moreover have "ch'" using add by (rule addNodes_True)
    ultimately show ?thesis using "2.IH"(3) False "2.prems"(1,2) by auto
  qed
qed

lemma sorted_points_unique: "distinct ps \<Longrightarrow> sort ps = sorted_list_of_set (set ps)"
  by (simp add: sorted_list_of_set_sort_remdups distinct_remdups_id)

lemma ring_inv_points:
  assumes "ring_inv m"
  shows "distinct (points m)" "sorted (points m)" "set (points m) = ring_points (config m) (set (nodes m))"
  using assms finite_ring_points by (simp_all add: ring_inv_def)

lemma ring_Add_effect:
  assumes "ring_inv m"
  shows "ring_inv (snd (ring_Add ns m)) \<and> config (snd (ring_Add ns m)) = config m \<and>
    set (nodes (snd (ring_Add ns m))) = set (nodes m) \<union> (set ns - {[]})"
proof (cases "ns = []")
  case False
  obtain m' ch' where add: "addNodes ns m False = (m', ch')" by fastforce
  note eff = addNodes_effect [OF _ _ ring_inv_points(1,3) [OF assms] add]
  from assms eff have "ch' \<Longrightarrow> sort (points m') = sorted_list_of_set (ring_points (config m) (set (nodes m')))"
    by (simp add: sorted_points_unique ring_inv_def)
  with False add eff assms show ?thesis
    by (auto simp: ring_Add_def ring_inv_def sortPoints_def)
qed (use assms in \<open>simp add: ring_Add_def\<close>)

lemma ring_Remove_effect:
  assumes "ring_inv m"
  shows "ring_inv (snd (ring_Remove n m)) \<and> config (snd (ring_Remove n m)) = config m \<and>
    set (nodes (snd (ring_Remove n m))) = set (nodes m) - {n}"
proof (cases "n \<in> set (nodes m)")
  case True
  with assms have "n \<noteq> []" by (auto simp: ring_inv_def)
  have "filter (\<lambda>p. pnode p \<noteq> n) (points m) = sorted_list_of_set (set (filter (\<lambda>p. pnode p \<noteq> n) (points m)))"
    using ring_inv_points [OF assms]
    by (intro sorted_list_of_set.idem_if_sorted_distinct [symmetric]) (simp_all add: sorted_wrt_filter)
  moreover have "set (filter (\<lambda>p. pnode p \<noteq> n) (points m)) = ring_points (config m) (set (nodes m) - {n})"
    using ring_inv_points(3) [OF assms] ring_points_remove [of "config m" "set (nodes m)" n] by auto
  moreover have "set (filter (\<lambda>x. x \<noteq> n) (nodes m)) = set (nodes m) - {n}" by auto
  ultimately show ?thesis
    using True \<open>n \<noteq> []\<close> assms by (auto simp: ring_Remove_def ring_inv_def)
next
  case False
  with assms show ?thesis by (auto simp: ring_Remove_def ring_inv_def)
qed

section \<open>Binary search\<close>

text \<open>The loop invariant: \<open>f\<close> fails below \<open>i\<close> and holds from \<open>j\<close> on.\<close>

definition search_inv :: "nat \<Rightarrow> (nat \<Rightarrow> bool) \<Rightarrow> nat \<Rightarrow> nat \<Rightarrow> bool" where
  "search_inv n f i j \<longleftrightarrow> i \<le> j \<and> j \<le> n \<and> (\<forall>k<i. \<not> f k) \<and> (\<forall>k. j \<le> k \<and> k < n \<longrightarrow> f k)"

definition upward :: "nat \<Rightarrow> (nat \<Rightarrow> bool) \<Rightarrow> bool" where
  "upward n f \<longleftrightarrow> (\<forall>a b. a \<le> b \<and> b < n \<and> f a \<longrightarrow> f b)"

lemma searchLoop_correct:
  "upward n f \<Longrightarrow> search_inv n f i j \<Longrightarrow> search_inv n f (searchLoop f i j) (searchLoop f i j)"
proof (induction f i j rule: searchLoop.induct)
  case (1 f i j)
  let ?h = "(i + j) div 2"
  show ?case
  proof (cases "i < j")
    case True
    then have h: "i \<le> ?h" "?h < j" "?h < n" using "1.prems" by (auto simp: search_inv_def)
    show ?thesis
    proof (cases "f ?h")
      case fh: True
      have "search_inv n f i ?h"
        using "1.prems" fh h by (auto simp: search_inv_def upward_def)
      then have "search_inv n f (searchLoop f i ?h) (searchLoop f i ?h)"
        using "1.IH"(2) [OF True refl] fh "1.prems"(1) by blast
      moreover have "searchLoop f i j = searchLoop f i ?h"
        using True fh by (subst searchLoop.simps) (simp add: Let_def)
      ultimately show ?thesis by simp
    next
      case fh: False
      have "\<not> f k" if "k < ?h + 1" for k
      proof
        assume "f k"
        moreover have "k \<le> ?h" using that by simp
        ultimately show False using "1.prems"(1) fh h(3) unfolding upward_def by blast
      qed
      then have "search_inv n f (?h + 1) j"
        using "1.prems"(2) h by (simp add: search_inv_def)
      then have "search_inv n f (searchLoop f (?h + 1) j) (searchLoop f (?h + 1) j)"
        using "1.IH"(1) [OF True refl fh "1.prems"(1)] by blast
      moreover have "searchLoop f i j = searchLoop f (?h + 1) j"
        using True fh by (subst searchLoop.simps) (simp add: Let_def)
      ultimately show ?thesis by simp
    qed
  next
    case False
    then have "searchLoop f i j = i" by (subst searchLoop.simps) simp
    moreover have "i = j" using False "1.prems"(2) by (simp add: search_inv_def)
    ultimately show ?thesis using "1.prems"(2) by simp
  qed
qed

lemma Search_correct:
  assumes "upward n f"
  shows "Search n f \<le> n" "k < Search n f \<Longrightarrow> \<not> f k" "Search n f \<le> k \<Longrightarrow> k < n \<Longrightarrow> f k"
proof -
  have "search_inv n f 0 n" by (auto simp: search_inv_def)
  from searchLoop_correct [OF assms this]
  show "Search n f \<le> n" "k < Search n f \<Longrightarrow> \<not> f k" "Search n f \<le> k \<Longrightarrow> k < n \<Longrightarrow> f k"
    by (simp_all add: Search_def search_inv_def)
qed

section \<open>Lookup as a successor\<close>

definition successor :: "uint32 \<Rightarrow> point set \<Rightarrow> point" where
  "successor h S =
     (let A = {p \<in> S. h \<le> phash p} in if A = {} then Min S else Min A)"

lemma ring_Get_successor:
  assumes "sorted (points m)" "points m \<noteq> []" "key \<noteq> []"
  shows "ring_Get key m = pnode (successor (HashFunc (config m) (bytes_of key)) (set (points m)))"
proof -
  let ?ps = "points m" and ?h = "HashFunc (config m) (bytes_of key)"
  let ?f = "\<lambda>i. ?h \<le> phash (?ps ! i)" and ?A = "{p \<in> set (points m). ?h \<le> phash p}"
  let ?r = "Search (length ?ps) ?f"
  have "upward (length ?ps) ?f"
    unfolding upward_def
  proof (intro allI impI, elim conjE)
    fix a b assume "a \<le> b" "b < length ?ps" and le: "?h \<le> phash (?ps ! a)"
    have "phash (?ps ! a) \<le> phash (?ps ! b)"
      by (rule point_le_hash, rule sorted_nth_mono [OF assms(1)]) fact+
    with le show "?h \<le> phash (?ps ! b)" by (rule order_trans)
  qed
  note r = Search_correct [OF this]
  have get: "ring_Get key m = pnode (?ps ! (if ?r = length ?ps then 0 else ?r))"
    using assms(2,3) by (simp add: ring_Get_def Let_def)
  have min0: "Min (set ?ps) = ?ps ! 0"
  proof (rule Min_eqI)
    fix q assume "q \<in> set ?ps"
    then obtain k where "k < length ?ps" "q = ?ps ! k" unfolding in_set_conv_nth by blast
    then show "?ps ! 0 \<le> q" using sorted_nth_mono [OF assms(1), of 0 k] by simp
  qed (use assms(2) in simp_all)
  show ?thesis
  proof (cases "?r = length ?ps")
    case True
    have "?A = {}"
    proof (rule ccontr)
      assume "?A \<noteq> {}"
      then obtain q where q: "q \<in> set ?ps" "?h \<le> phash q" by blast
      then obtain k where "k < length ?ps" "q = ?ps ! k" unfolding in_set_conv_nth by blast
      with q r(2) [of k] True show False by (simp only:)
    qed
    then have "successor ?h (set ?ps) = ?ps ! 0"
      unfolding successor_def Let_def by (simp only: min0 refl if_True)
    then show ?thesis using True get by (simp only: refl if_True)
  next
    case False
    with r(1) have lt: "?r < length ?ps" by simp
    have mem: "?ps ! ?r \<in> ?A" using lt r(3) [OF order_refl lt] by simp
    have "Min ?A = ?ps ! ?r"
    proof (rule Min_eqI [OF _ _ mem])
      fix q assume q: "q \<in> ?A"
      then have "q \<in> set ?ps" by simp
      then obtain k where k: "k < length ?ps" "q = ?ps ! k" unfolding in_set_conv_nth by blast
      have "?h \<le> phash (?ps ! k)" using q k(2) by simp
      then have "\<not> k < ?r" using r(2) [of k] by blast
      then have "?r \<le> k" by (rule leI)
      from sorted_nth_mono [OF assms(1) this k(1)] show "?ps ! ?r \<le> q" unfolding k(2) .
    qed simp
    moreover have "?A \<noteq> {}" using mem by blast
    ultimately have "successor ?h (set ?ps) = ?ps ! ?r"
      unfolding successor_def Let_def by (simp only: if_False)
    then show ?thesis using False get by (simp only: if_False)
  qed
qed

lemma successor_eqs:
  "{p \<in> S. h \<le> phash p} = {} \<Longrightarrow> successor h S = Min S"
  "{p \<in> S. h \<le> phash p} \<noteq> {} \<Longrightarrow> successor h S = Min {p \<in> S. h \<le> phash p}"
  unfolding successor_def Let_def by (rule if_P, assumption) (rule if_not_P, assumption)

lemma successor_mem:
  assumes "finite S" "S \<noteq> {}"
  shows "successor h S \<in> S"
proof (cases "{p \<in> S. h \<le> phash p} = {}")
  case True
  show ?thesis unfolding successor_eqs(1) [OF True] by (rule Min_in [OF assms])
next
  case False
  have "finite {p \<in> S. h \<le> phash p}" using assms(1) by simp
  from Min_in [OF this False] show ?thesis unfolding successor_eqs(2) [OF False] by blast
qed

lemma Min_subset_eq: "finite T \<Longrightarrow> S \<subseteq> T \<Longrightarrow> Min T \<in> S \<Longrightarrow> Min S = (Min T :: point)"
  by (rule Min_eqI) (blast dest: finite_subset, blast intro: Min_le, assumption)

text \<open>More points change the successor only to one of the new points.\<close>

lemma successor_mono:
  assumes "finite T" "S \<subseteq> T" "successor h T \<in> S"
  shows "successor h S = successor h T"
proof (cases "{p \<in> T. h \<le> phash p} = {}")
  case True
  then have "{p \<in> S. h \<le> phash p} = {}" using assms(2) by blast
  from successor_eqs(1) [OF this] show ?thesis
    using Min_subset_eq [OF assms(1,2)] assms(3) unfolding successor_eqs(1) [OF True] by (simp only:)
next
  case False
  let ?A = "{p \<in> S. h \<le> phash p}" and ?B = "{p \<in> T. h \<le> phash p}"
  have "finite ?B" using assms(1) by simp
  moreover have "?A \<subseteq> ?B" using assms(2) by blast
  moreover have "Min ?B \<in> ?A"
    using Min_in [OF \<open>finite ?B\<close> False] assms(3) unfolding successor_eqs(2) [OF False] by blast
  ultimately have "Min ?A = Min ?B" by (rule Min_subset_eq)
  moreover have "successor h S = Min ?A" by (rule successor_eqs(2)) (use \<open>Min ?B \<in> ?A\<close> in blast)
  ultimately show ?thesis unfolding successor_eqs(2) [OF False] by (simp only:)
qed

text \<open>The owner of a key under a membership.\<close>

definition owner_of :: "Config \<Rightarrow> string set \<Rightarrow> string \<Rightarrow> string" where
  "owner_of cfg N key =
     (if key = [] \<or> ring_points cfg N = {} then []
      else pnode (successor (HashFunc cfg (bytes_of key)) (ring_points cfg N)))"

lemma ring_Get_owner:
  assumes "ring_inv m"
  shows "ring_Get key m = owner_of (config m) (set (nodes m)) key"
proof (cases "key = [] \<or> points m = []")
  case True
  moreover have "ring_points (config m) (set (nodes m)) = set (points m)"
    using ring_inv_points [OF assms] by simp
  ultimately show ?thesis by (auto simp: ring_Get_def owner_of_def)
next
  case False
  then show ?thesis
    using ring_Get_successor [of m key] ring_inv_points [OF assms] by (auto simp: owner_of_def)
qed

lemma ring_points_sub:
  assumes "p \<in> ring_points cfg M" "pnode p \<in> N"
  shows "p \<in> ring_points cfg N"
proof -
  obtain n i where p: "p = virtualPoint cfg n i" "i < nat (Replicas cfg)"
    using assms(1) unfolding ring_points_def by blast
  then have "n \<in> N" using assms(2) by simp
  with p show ?thesis unfolding ring_points_def by blast
qed

lemma ring_points_mono: "N \<subseteq> M \<Longrightarrow> ring_points cfg N \<subseteq> ring_points cfg M"
  using ring_points_sub [of _ cfg N M] ring_points_pnode [of _ cfg N] by blast

lemma owner_of_empty: "key = [] \<or> ring_points cfg N = {} \<Longrightarrow> owner_of cfg N key = []"
  unfolding owner_of_def by (rule if_P)

lemma owner_of_successor:
  assumes "finite N" "key \<noteq> []" "ring_points cfg N \<noteq> {}"
  shows "owner_of cfg N key = pnode (successor (HashFunc cfg (bytes_of key)) (ring_points cfg N))"
    "owner_of cfg N key \<in> N"
proof -
  show eq: "owner_of cfg N key = pnode (successor (HashFunc cfg (bytes_of key)) (ring_points cfg N))"
    using assms(2,3) by (simp add: owner_of_def)
  show "owner_of cfg N key \<in> N"
    unfolding eq by (rule ring_points_pnode, rule successor_mem [OF finite_ring_points [OF assms(1)] assms(3)])
qed

lemma owner_of_mem: "finite N \<Longrightarrow> owner_of cfg N key \<noteq> [] \<Longrightarrow> owner_of cfg N key \<in> N"
  using owner_of_successor(2) [of N key cfg] unfolding owner_of_def by (meson)

lemma owner_of_Nil:
  "finite N \<Longrightarrow> [] \<notin> N \<Longrightarrow> owner_of cfg N key = [] \<longleftrightarrow> key = [] \<or> ring_points cfg N = {}"
  using owner_of_successor(2) [of N key cfg] owner_of_def [of cfg N key] by metis

lemma owner_of_nonempty:
  assumes "finite N" "N \<noteq> {}" "[] \<notin> N" "0 < Replicas cfg" "key \<noteq> []"
  shows "owner_of cfg N key \<in> N" "owner_of cfg N key \<noteq> []"
proof -
  obtain n where "n \<in> N" using assms(2) by blast
  then have "virtualPoint cfg n 0 \<in> ring_points cfg N"
    using assms(4) unfolding ring_points_def by (intro CollectI exI [of _ n] exI [of _ 0]) simp
  then have "ring_points cfg N \<noteq> {}" by blast
  from owner_of_successor(2) [OF assms(1,5) this]
  show "owner_of cfg N key \<in> N" "owner_of cfg N key \<noteq> []" using assms(3) by metis+
qed

text \<open>A larger membership moves a key only to one of the new members.\<close>

lemma owner_of_mono:
  assumes "finite M" "N \<subseteq> M" "owner_of cfg M key \<in> N"
  shows "owner_of cfg N key = owner_of cfg M key"
proof (cases "key = [] \<or> ring_points cfg M = {}")
  case True
  then have "key = [] \<or> ring_points cfg N = {}" using ring_points_mono [OF assms(2), of cfg] by blast
  with True show ?thesis by (simp only: owner_of_empty)
next
  case False
  let ?h = "HashFunc cfg (bytes_of key)"
  let ?s = "successor ?h (ring_points cfg M)"
  have own: "owner_of cfg M key = pnode ?s" using False owner_of_successor(1) [OF assms(1)] by blast
  note sub = ring_points_mono [OF assms(2), of cfg]
  have "?s \<in> ring_points cfg M" using False successor_mem finite_ring_points [OF assms(1)] by blast
  then have mem: "?s \<in> ring_points cfg N" by (rule ring_points_sub) (use assms(3) own in \<open>simp only:\<close>)
  have "successor ?h (ring_points cfg N) = ?s"
    by (rule successor_mono [OF finite_ring_points [OF assms(1)] sub mem])
  moreover have "owner_of cfg N key = pnode (successor ?h (ring_points cfg N))"
    by (rule owner_of_successor(1) [OF finite_subset [OF assms(2,1)]]) (use False mem in blast)+
  ultimately show ?thesis using own by (simp only:)
qed

text \<open>C31. Adding members leaves the owner of a key unchanged or makes it one of the members added.\<close>

theorem ring_Add_remap:
  assumes "ring_inv m"
  shows "ring_Get key (snd (ring_Add ns m)) = ring_Get key m \<or>
    ring_Get key (snd (ring_Add ns m)) \<in> set ns - set (nodes m)"
proof -
  let ?m = "snd (ring_Add ns m)"
  have eff: "ring_inv ?m" "config ?m = config m" "set (nodes ?m) = set (nodes m) \<union> (set ns - {[]})"
    using ring_Add_effect [OF assms] by auto
  have get: "ring_Get key ?m = owner_of (config m) (set (nodes ?m)) key"
    using ring_Get_owner [OF eff(1)] eff(2) by simp
  show ?thesis
  proof (cases "ring_Get key ?m = []")
    case True
    then have "owner_of (config m) (set (nodes ?m)) key = []" using get by (simp only:)
    moreover have "[] \<notin> set (nodes ?m)" using eff(1) by (simp add: ring_inv_def)
    ultimately have "key = [] \<or> ring_points (config m) (set (nodes ?m)) = {}"
      by (simp only: owner_of_Nil List.finite_set not_False_eq_True)
    moreover have "set (nodes m) \<subseteq> set (nodes ?m)" using eff(3) by blast
    note ring_points_mono [OF this, of "config m"]
    ultimately have "ring_Get key m = []"
      using ring_Get_owner [OF assms] by (auto simp: owner_of_def)
    with True show ?thesis by simp
  next
    case False
    with get have mem: "ring_Get key ?m \<in> set (nodes ?m)" using owner_of_mem [of "set (nodes ?m)"] by simp
    show ?thesis
    proof (cases "ring_Get key ?m \<in> set (nodes m)")
      case True
      with get eff(3) owner_of_mono [of "set (nodes ?m)" "set (nodes m)" "config m" key]
      show ?thesis using ring_Get_owner [OF assms] by auto
    next
      case False
      with mem eff(3) show ?thesis by auto
    qed
  qed
qed

text \<open>C32. Removing a member leaves the owner of every key it did not own, and after the removal it
  owns nothing.\<close>

theorem ring_Remove_remap:
  assumes "ring_inv m" "key \<noteq> []"
  shows "(ring_Get key m \<noteq> n \<longrightarrow> ring_Get key (snd (ring_Remove n m)) = ring_Get key m) \<and>
    (n \<noteq> [] \<longrightarrow> ring_Get key (snd (ring_Remove n m)) \<noteq> n)"
proof -
  let ?m = "snd (ring_Remove n m)"
  have eff: "ring_inv ?m" "config ?m = config m" "set (nodes ?m) = set (nodes m) - {n}"
    using ring_Remove_effect [OF assms(1)] by auto
  have get: "ring_Get key ?m = owner_of (config m) (set (nodes m) - {n}) key"
    using ring_Get_owner [OF eff(1)] eff(2,3) by simp
  have get0: "ring_Get key m = owner_of (config m) (set (nodes m)) key"
    by (rule ring_Get_owner [OF assms(1)])
  have "ring_Get key ?m = ring_Get key m" if "ring_Get key m \<noteq> n"
  proof (cases "ring_Get key m = []")
    case True
    then have "owner_of (config m) (set (nodes m)) key = []" using get0 by (simp only:)
    moreover have "[] \<notin> set (nodes m)" using assms(1) by (simp add: ring_inv_def)
    ultimately have "ring_points (config m) (set (nodes m)) = {}"
      using assms(2) by (simp only: owner_of_Nil List.finite_set not_False_eq_True simp_thms)
    then have "ring_points (config m) (set (nodes m) - {n}) = {}"
      using ring_points_mono [of "set (nodes m) - {n}" "set (nodes m)" "config m"] by blast
    with get True show ?thesis by (simp add: owner_of_def)
  next
    case False
    with get0 have "owner_of (config m) (set (nodes m)) key \<in> set (nodes m) - {n}"
      using owner_of_mem [of "set (nodes m)"] that by simp
    from owner_of_mono [OF _ _ this] show ?thesis using get get0 by auto
  qed
  moreover have "ring_Get key ?m \<noteq> n" if "n \<noteq> []"
    using get owner_of_mem [of "set (nodes m) - {n}" "config m" key] that by auto
  ultimately show ?thesis by blast
qed

section \<open>Histories\<close>

inductive ring_reachable :: "Config \<Rightarrow> Map \<Rightarrow> bool" for cfg where
  new: "ring_reachable cfg \<lparr>config = cfg, points = [], nodes = []\<rparr>"
| add: "ring_reachable cfg m \<Longrightarrow> ring_reachable cfg (snd (ring_Add ns m))"
| remove: "ring_reachable cfg m \<Longrightarrow> ring_reachable cfg (snd (ring_Remove n m))"

lemma ring_inv_new: "ring_inv \<lparr>config = cfg, points = [], nodes = []\<rparr>"
  by (simp add: ring_inv_def ring_points_def)

lemma ring_reachable_inv: "ring_reachable cfg m \<Longrightarrow> ring_inv m \<and> config m = cfg"
  by (induction rule: ring_reachable.induct)
    (simp_all add: ring_inv_new ring_Add_effect ring_Remove_effect)

text \<open>C14. In every ring that additions and removals can build, lookup by binary search returns the node
  of the first virtual point at or after the key's hash, going round the ring: a function of the
  configuration and the member set.\<close>

theorem ring_lookup:
  assumes "ring_reachable cfg m"
  shows "ring_Get key m = owner_of cfg (set (nodes m)) key"
  using ring_reachable_inv [OF assms] ring_Get_owner by auto

text \<open>C30. Two rings of one configuration with the same members have the same points and route every
  key alike, whatever the order and history of their additions and removals.\<close>

theorem ring_history_independent:
  assumes "ring_reachable cfg m" "ring_reachable cfg m'" "set (nodes m) = set (nodes m')"
  shows "points m = points m' \<and> ring_Members m = ring_Members m' \<and> ring_Get key m = ring_Get key m'"
proof -
  have inv: "ring_inv m" "ring_inv m'" "config m = config m'"
    using ring_reachable_inv assms(1,2) by auto
  then have "points m = points m'" using assms(3) by (simp add: ring_inv_def)
  moreover have "ring_Members m = ring_Members m'"
    using inv assms(3) by (auto simp: ring_Members_def ring_inv_def sorted_list_of_set_sort_remdups
        distinct_remdups_id dest: arg_cong [of _ _ sorted_list_of_set])
  ultimately show ?thesis using inv assms(3) by (simp add: ring_Get_owner)
qed

text \<open>
  The ring as the picker sees it: an owner function of the configuration and the member set.
\<close>

locale hash_ring =
  fixes inv :: "'r \<Rightarrow> bool"
    and cfg :: "'r \<Rightarrow> 'c"
    and members :: "'r \<Rightarrow> string set"
    and owner :: "'c \<Rightarrow> string set \<Rightarrow> string \<Rightarrow> string"
    and get :: "string \<Rightarrow> 'r \<Rightarrow> string"
    and add :: "string list \<Rightarrow> 'r \<Rightarrow> 'r"
    and remove :: "string \<Rightarrow> 'r \<Rightarrow> 'r"
  assumes get_owner: "inv r \<Longrightarrow> get k r = owner (cfg r) (members r) k"
    and add_members: "inv r \<Longrightarrow> members (add ns r) = members r \<union> (set ns - {[]})"
    and remove_members: "inv r \<Longrightarrow> members (remove n r) = members r - {n}"
    and add_cfg: "inv r \<Longrightarrow> cfg (add ns r) = cfg r"
    and remove_cfg: "inv r \<Longrightarrow> cfg (remove n r) = cfg r"
    and inv_add: "inv r \<Longrightarrow> inv (add ns r)"
    and inv_remove: "inv r \<Longrightarrow> inv (remove n r)"
    and members_ok: "inv r \<Longrightarrow> finite (members r) \<and> [] \<notin> members r"
    and owner_member: "finite N \<Longrightarrow> owner c N k \<noteq> [] \<Longrightarrow> owner c N k \<in> N"
begin

lemmas changes = add_members remove_members add_cfg remove_cfg inv_add inv_remove

lemma get_agree: "inv r \<Longrightarrow> inv r' \<Longrightarrow> cfg r = cfg r' \<Longrightarrow> members r = members r' \<Longrightarrow> get k r = get k r'"
  by (simp add: get_owner)

lemma get_member: "inv r \<Longrightarrow> get k r \<noteq> [] \<Longrightarrow> get k r \<in> members r"
  by (simp add: get_owner owner_member members_ok)

lemma remove_add_get:
  "inv r \<Longrightarrow> n \<noteq> [] \<Longrightarrow> n \<notin> members r \<Longrightarrow> get k (remove n (add [n] r)) = get k r"
  by (rule get_agree) (auto simp: changes)

end

interpretation ring: hash_ring ring_inv config "\<lambda>m. set (nodes m)" owner_of ring_Get
  "\<lambda>ns m. snd (ring_Add ns m)" "\<lambda>n m. snd (ring_Remove n m)"
proof (unfold_locales, goal_cases)
  case (1 r k)
  then show ?case by (rule ring_Get_owner)
next
  case (8 r)
  then show ?case by (simp add: ring_inv_def)
next
  case (9 N c k)
  then show ?case by (rule owner_of_mem)
qed (simp_all add: ring_Add_effect ring_Remove_effect)

section \<open>Instances\<close>

text \<open>Check values of CRC-32.\<close>

lemma ChecksumIEEE_check: "ChecksumIEEE [] = 0" "ChecksumIEEE (bytes_of ''1'') = 0x83DCEFB7"
  by code_simp+

text \<open>CRC-32 by rewriting, for longer inputs.\<close>

lemma crc32_bit_numeral:
  "crc32_bit (numeral (Num.Bit0 n)) = drop_bit 1 (numeral (Num.Bit0 n))"
  "crc32_bit (numeral (Num.Bit1 n)) = drop_bit 1 (numeral (Num.Bit1 n)) XOR 3988292384"
  by (simp_all only: crc32_bit_def and_one_eq mod_2_eq_odd even_numeral odd_numeral of_bool_eq if_True if_False zero_neq_one simp_thms)

lemma crc32_byte: "(crc32_bit ^^ 8) c = crc32_bit (crc32_bit (crc32_bit (crc32_bit (crc32_bit (crc32_bit (crc32_bit (crc32_bit c)))))))"
  by (simp add: eval_nat_numeral)

lemma ChecksumIEEE_start: "ChecksumIEEE bs = NOT (foldl (\<lambda>c b. (crc32_bit ^^ 8) (c XOR ucast b)) 4294967295 bs)"
proof -
  have "NOT (0 :: uint32) = 4294967295" by simp
  then show ?thesis unfolding ChecksumIEEE_def by (rule ssubst) (rule refl)
qed

lemmas ChecksumIEEE_eval = ChecksumIEEE_start bytes_of_def crc32_byte crc32_bit_numeral

text \<open>A ring with two replicas per node and a custom hash, as \<^verbatim>\<open>WithConfig\<close> installs it.\<close>

definition small_hash :: "bytes \<Rightarrow> uint32" where
  "small_hash bs = foldl (\<lambda>h b. h * 7 + ucast b) 0 bs"

definition small_ring :: "string list \<Rightarrow> Map" where
  "small_ring ns = snd (ring_Add ns (New [WithConfig 2 (Some small_hash)]))"

lemma small_ring_reachable: "ring_reachable \<lparr>Replicas = 2, HashFunc = small_hash\<rparr> (small_ring ns)"
  unfolding small_ring_def New_def WithConfig_def DefaultConfig_def
  by (simp add: Let_def ring_reachable.intros)

lemma small_ring_inv: "ring_inv (small_ring ns)"
  using ring_reachable_inv [OF small_ring_reachable] by blast

lemma small_ring_lookups:
  "ring_Get ''A$3'' (small_ring [''A'', ''B'']) = ''B''"
  "ring_Get ''B$1'' (small_ring [''A'', ''B'']) = ''A''"
  "ring_Get ''B$1'' (snd (ring_Add [''C''] (small_ring [''A'', ''B'']))) = ''C''"
  by code_simp+

lemma small_ring_nodes:
  "nodes (small_ring [''A'', ''B'']) = [''A'', ''B'']" "nodes (small_ring [''B'', ''A'']) = [''B'', ''A'']"
  by code_simp+

theorem ring_lookup_witness:
  "owner_of \<lparr>Replicas = 2, HashFunc = small_hash\<rparr> {''A'', ''B''} ''A$3'' = ''B''"
  using ring_lookup [OF small_ring_reachable, of "''A$3''" "[''A'', ''B'']"]
  by (simp only: small_ring_lookups small_ring_nodes list.set)

theorem ring_Add_remap_witness:
  "ring_Get ''B$1'' (snd (ring_Add [''C''] (small_ring [''A'', ''B'']))) = ''C'' \<and>
   (ring_Get ''A$3'' (snd (ring_Add [''C''] (small_ring [''A'', ''B'']))) = ''B'' \<or>
    ring_Get ''A$3'' (snd (ring_Add [''C''] (small_ring [''A'', ''B'']))) = ''C'')"
  using ring_Add_remap [OF small_ring_inv, of "''A$3''" "[''C'']" "[''A'', ''B'']"]
  by (simp only: small_ring_lookups) auto

theorem ring_Remove_remap_witness:
  "ring_Get ''B$1'' (snd (ring_Remove ''B'' (small_ring [''A'', ''B'']))) = ''A'' \<and>
   ring_Get ''A$3'' (snd (ring_Remove ''B'' (small_ring [''A'', ''B'']))) \<noteq> ''B''"
  using ring_Remove_remap [OF small_ring_inv, of "''B$1''" "[''A'', ''B'']" "''B''"]
    ring_Remove_remap [OF small_ring_inv, of "''A$3''" "[''A'', ''B'']" "''B''"]
  by (simp add: small_ring_lookups)

theorem ring_history_independent_witness:
  "points (small_ring [''A'', ''B'']) = points (small_ring [''B'', ''A'']) \<and>
   ring_Get ''A$3'' (small_ring [''B'', ''A'']) = ''B''"
  using ring_history_independent [OF small_ring_reachable [of "[''A'', ''B'']"]
      small_ring_reachable [of "[''B'', ''A'']"], of "''A$3''"]
  by (simp only: small_ring_lookups small_ring_nodes list.set insert_commute [of "''B''"])

end
