(* ===== verification/Peers.thy ===== *)
theory Peers
  imports Client Registry Con_Hash
begin

text \<open>
  The peer picker of \<^verbatim>\<open>src/peers.go\<close>: membership, ring, peer clients and epoch, each operation under
  the picker's mutex. Responses of etcd, the dialer and the RPC stub are arguments. Connections are
  numbered; \<open>net\<close> keeps the open ones, so that a leaked or doubly used connection is visible.
\<close>

section \<open>State\<close>

record net =
  nextConn :: nat
  openConns :: "nat list"

record ClientPicker =
  selfAddr :: string
  svcName :: string
  p_ring :: Map
  p_members :: "string list"
  p_clients :: "(string, Client) gomap"
  p_endpoints :: "string list"
  dialTO :: duration
  rpcTO :: duration
  hashReplicas :: int
  p_epoch :: uint64
  p_cancelled :: bool
  p_closeOnce :: bool
  etcdOpen :: bool

text \<open>
  A value of the interface \<^verbatim>\<open>Peer\<close>: nil, or a pointer to a client that may itself be nil.
\<close>

datatype Peer = NilPeer | ClientPeer "Client option"

definition defaultSvcName :: string where
  "defaultSvcName = ''locache''"

section \<open>Options\<close>

type_synonym PickerOption = "ClientPicker \<Rightarrow> ClientPicker"

definition WithServiceName :: "string \<Rightarrow> PickerOption" where
  "WithServiceName name p = (if name \<noteq> [] then p\<lparr>svcName := name\<rparr> else p)"

definition WithPickerEtcdEndpoints :: "string list \<Rightarrow> PickerOption" where
  "WithPickerEtcdEndpoints eps p = (if 0 < length eps then p\<lparr>p_endpoints := eps\<rparr> else p)"

definition WithPickerDialTimeout :: "duration \<Rightarrow> PickerOption" where
  "WithPickerDialTimeout timeout p = (if 0 < timeout then p\<lparr>dialTO := timeout\<rparr> else p)"

definition WithPeerRPCTimeout :: "duration \<Rightarrow> PickerOption" where
  "WithPeerRPCTimeout timeout p = (if 0 < timeout then p\<lparr>rpcTO := timeout\<rparr> else p)"

definition WithHashReplicas :: "int \<Rightarrow> PickerOption" where
  "WithHashReplicas replicas p =
     (if 0 < replicas then p\<lparr>hashReplicas := replicas, p_ring := New [WithReplicas replicas]\<rparr> else p)"

section \<open>Membership\<close>

definition parseAddrFromKey :: "string \<Rightarrow> string \<Rightarrow> string" where
  "parseAddrFromKey key svc =
     (let prefix = ServicePrefix svc
      in if length key \<le> length prefix \<or> take (length prefix) key \<noteq> prefix then []
         else drop (length prefix) key)"

text \<open>Membership sets are lists without repetition.\<close>

definition sameMembers :: "string list \<Rightarrow> string list \<Rightarrow> bool" where
  "sameMembers a b \<longleftrightarrow> length a = length b \<and> list_all (\<lambda>k. k \<in> set b) a"

definition openClient ::
    "(string \<Rightarrow> error option) \<Rightarrow> duration \<Rightarrow> string \<Rightarrow> net \<Rightarrow> Client option \<times> net" where
  "openClient dial rpcTimeout addr n =
     (case NewClient dial (nextConn n) addr rpcTimeout of
        Inl err \<Rightarrow> (None, n)
      | Inr c \<Rightarrow> (Some c, n\<lparr>nextConn := Suc (nextConn n), openConns := openConns n @ [nextConn n]\<rparr>))"

definition closeClients :: "Client list \<Rightarrow> net \<Rightarrow> net" where
  "closeClients cs n = n\<lparr>openConns := foldl (\<lambda>oc c. Client_Close c oc) (openConns n) cs\<rparr>"

fun buildClients ::
    "(string \<Rightarrow> error option) \<Rightarrow> ClientPicker \<Rightarrow> string list \<Rightarrow> (string, Client) gomap \<Rightarrow> net \<Rightarrow>
     (string, Client) gomap \<times> net" where
  "buildClients dial p [] newClients n = (newClients, n)"
| "buildClients dial p (addr # ms) newClients n =
     (if addr = selfAddr p then buildClients dial p ms newClients n
      else (case gm_get (p_clients p) addr of
              Some existing \<Rightarrow> buildClients dial p ms (gm_put addr existing newClients) n
            | None \<Rightarrow>
                (case openClient dial (rpcTO p) addr n of
                   (None, n) \<Rightarrow> buildClients dial p ms newClients n
                 | (Some c, n) \<Rightarrow> buildClients dial p ms (gm_put addr c newClients) n)))"

definition replaceMembership ::
    "(string \<Rightarrow> error option) \<Rightarrow> string list \<Rightarrow> ClientPicker \<Rightarrow> net \<Rightarrow> ClientPicker \<times> net" where
  "replaceMembership dial desired p n =
     (if sameMembers (p_members p) desired then (p, n)
      else (let members = sort desired;
                newRing = snd (ring_Add members (New [WithReplicas (hashReplicas p)]));
                (newClients, n) = buildClients dial p members [] n;
                n = closeClients (map snd (filter (\<lambda>e. gm_get newClients (fst e) = None) (p_clients p))) n
            in (p\<lparr>p_members := desired, p_clients := newClients, p_ring := newRing,
                  p_epoch := p_epoch p + 1\<rparr>, n)))"

text \<open>The addresses of a snapshot, and the response of etcd as an error or the pairs with a revision.\<close>

definition kv_addr :: "string \<Rightarrow> string \<times> string \<Rightarrow> string" where
  "kv_addr svc kv =
     (let addr = snd kv in if addr = [] then parseAddrFromKey (fst kv) svc else addr)"

fun desiredMembers :: "string \<Rightarrow> string list \<Rightarrow> (string \<times> string) list \<Rightarrow> string list" where
  "desiredMembers svc d [] = d"
| "desiredMembers svc d (kv # kvs) =
     (let addr = kv_addr svc kv
      in desiredMembers svc (if addr \<noteq> [] \<and> addr \<notin> set d then d @ [addr] else d) kvs)"

definition refreshSnapshot ::
    "(string \<Rightarrow> error option) \<Rightarrow> error + (string \<times> string) list \<times> int \<Rightarrow> ClientPicker \<Rightarrow> net \<Rightarrow>
     (error + int) \<times> ClientPicker \<times> net" where
  "refreshSnapshot dial resp p n =
     (case resp of
        Inl err \<Rightarrow> (Inl (wrapped ''fetch service snapshot: %w'' [] err), p, n)
      | Inr (kvs, revision) \<Rightarrow>
          (Inr (revision + 1), replaceMembership dial (desiredMembers (svcName p) [selfAddr p] kvs) p n))"

definition addMember ::
    "(string \<Rightarrow> error option) \<Rightarrow> string \<Rightarrow> ClientPicker \<Rightarrow> net \<Rightarrow> ClientPicker \<times> net" where
  "addMember dial addr p n =
     (if addr = [] then (p, n)
      else if addr \<in> set (p_members p) then (p, n)
      else (let p = p\<lparr>p_members := p_members p @ [addr], p_ring := snd (ring_Add [addr] (p_ring p))\<rparr>;
                (p, n) =
                  (if addr \<noteq> selfAddr p then
                     (case openClient dial (rpcTO p) addr n of
                        (None, n) \<Rightarrow> (p, n)
                      | (Some c, n) \<Rightarrow> (p\<lparr>p_clients := gm_put addr c (p_clients p)\<rparr>, n))
                   else (p, n))
            in (p\<lparr>p_epoch := p_epoch p + 1\<rparr>, n)))"

definition removeMember :: "string \<Rightarrow> ClientPicker \<Rightarrow> net \<Rightarrow> ClientPicker \<times> net" where
  "removeMember addr p n =
     (if addr = [] \<or> addr = selfAddr p then (p, n)
      else if addr \<notin> set (p_members p) then (p, n)
      else (let c = gm_get (p_clients p) addr
            in (p\<lparr>p_members := filter (\<lambda>a. a \<noteq> addr) (p_members p),
                  p_ring := snd (ring_Remove addr (p_ring p)),
                  p_clients := gm_del addr (p_clients p), p_epoch := p_epoch p + 1\<rparr>,
                (case c of Some c \<Rightarrow> closeClients [c] n | None \<Rightarrow> n))))"

section \<open>The watch\<close>

text \<open>A deletion may carry the previous value.\<close>

datatype event = PutEvent string string | DeleteEvent string "string option"

definition handleEvent ::
    "(string \<Rightarrow> error option) \<Rightarrow> event \<Rightarrow> ClientPicker \<Rightarrow> net \<Rightarrow> ClientPicker \<times> net" where
  "handleEvent dial ev p n =
     (case ev of
        PutEvent k v \<Rightarrow> addMember dial (kv_addr (svcName p) (k, v)) p n
      | DeleteEvent k prev \<Rightarrow>
          (let addr = parseAddrFromKey k (svcName p);
               addr = (if addr = [] \<and> prev \<noteq> None then the prev else addr)
           in removeMember addr p n))"

text \<open>A watch response: an error, or events with the revision of its header.\<close>

datatype watch_resp = WatchError error | WatchEvents "event list" int

text \<open>
  The inner loop of \<^verbatim>\<open>watchServiceChanges\<close>: it ends with the channel or at the first error, and
  returns the revision to resume from and whether the watch failed.
\<close>

fun watchChannel ::
    "(string \<Rightarrow> error option) \<Rightarrow> watch_resp list \<Rightarrow> int \<Rightarrow> ClientPicker \<Rightarrow> net \<Rightarrow> int \<times> bool \<times> ClientPicker \<times> net" where
  "watchChannel dial [] rv p n = (rv, False, p, n)"
| "watchChannel dial (WatchError err # rs) rv p n = (rv, True, p, n)"
| "watchChannel dial (WatchEvents es revision # rs) rv p n =
     (let (p, n) = foldl (\<lambda>(p, n) ev. handleEvent dial ev p n) (p, n) es;
          rv = (if rv \<le> revision then revision + 1 else rv)
      in watchChannel dial rs rv p n)"

text \<open>
  One round of the outer loop: the responses of a watch, whether the context is cancelled after it, and
  the snapshot that follows.
\<close>

record watch_round =
  responses :: "watch_resp list"
  cancelled_after :: bool
  snapshot :: "error + (string \<times> string) list \<times> int"

fun watchServiceChanges ::
    "(string \<Rightarrow> error option) \<Rightarrow> watch_round list \<Rightarrow> int \<Rightarrow> ClientPicker \<Rightarrow> net \<Rightarrow> int \<times> ClientPicker \<times> net" where
  "watchServiceChanges dial [] rv p n = (rv, p, n)"
| "watchServiceChanges dial (r # rs) rv p n =
     (if p_cancelled p then (rv, p, n)
      else (let (rv, watchFailed, p, n) = watchChannel dial (responses r) rv p n
            in if cancelled_after r then (rv, p\<lparr>p_cancelled := True\<rparr>, n)
               else (case refreshSnapshot dial (snapshot r) p n of
                       (Inl err, p, n) \<Rightarrow> watchServiceChanges dial rs rv p n
                     | (Inr next, p, n) \<Rightarrow> watchServiceChanges dial rs next p n)))"

section \<open>Construction\<close>

text \<open>
  \<open>ifs\<close> are the interfaces, \<open>etcd\<close> the error of \<^verbatim>\<open>clientv3.New\<close> and \<open>resp\<close> the first snapshot.
\<close>

definition NewClientPicker ::
    "error + net_addr list \<Rightarrow> (string \<Rightarrow> error option) \<Rightarrow> error option \<Rightarrow> error + (string \<times> string) list \<times> int \<Rightarrow>
     string \<Rightarrow> PickerOption list \<Rightarrow> net \<Rightarrow> error + ClientPicker \<times> int \<times> net" where
  "NewClientPicker ifs dial etcd resp addr opts n =
     (case NormalizeAddress ifs addr of
        Inl err \<Rightarrow> Inl err
      | Inr self \<Rightarrow>
          (let p = \<lparr>selfAddr = self, svcName = defaultSvcName, p_ring = New [], p_members = [], p_clients = [],
                    p_endpoints = Endpoints DefaultRegistryConfig, dialTO = RegistryConfig.DialTimeout DefaultRegistryConfig,
                    rpcTO = 3 * second, hashReplicas = Replicas DefaultConfig, p_epoch = 0,
                    p_cancelled = False, p_closeOnce = False, etcdOpen = False\<rparr>;
               p = foldl (\<lambda>p opt. opt p) p opts
           in case etcd of
                Some err \<Rightarrow> Inl (wrapped ''create etcd client: %w'' [] err)
              | None \<Rightarrow>
                  (let p = p\<lparr>etcdOpen := True, p_members := [selfAddr p],
                             p_ring := snd (ring_Add [selfAddr p] (p_ring p)), p_epoch := 1\<rparr>
                   in case refreshSnapshot dial resp p n of
                        (Inl err, p, n) \<Rightarrow> Inl err
                      | (Inr nextRev, p, n) \<Rightarrow> Inr (p, nextRev, n))))"

section \<open>The interface used by groups\<close>

definition PickOwner :: "string \<Rightarrow> ClientPicker \<Rightarrow> string \<times> Peer \<times> bool \<times> uint64 \<times> bool" where
  "PickOwner key p =
     (let owner = ring_Get key (p_ring p); epoch = p_epoch p
      in if owner = [] then ([], NilPeer, False, epoch, False)
         else if owner = selfAddr p then (owner, NilPeer, True, epoch, True)
         else (owner, ClientPeer (gm_get (p_clients p) owner), False, epoch, True))"

definition Picker_Epoch :: "ClientPicker \<Rightarrow> uint64" where
  "Picker_Epoch p = p_epoch p"

definition Picker_Members :: "ClientPicker \<Rightarrow> string list" where
  "Picker_Members p = sort (p_members p)"

text \<open>
  \<^verbatim>\<open>Invalidate\<close> calls every client but the owner's, each through its own stub. The calls run concurrently; here they run in the
  order of the map, and their errors are joined in that order.
\<close>

fun invalidateAll ::
    "(Client \<Rightarrow> 'w \<Rightarrow> error option \<times> 'w) \<Rightarrow> (string, Client) gomap \<Rightarrow> 'w \<Rightarrow> error list \<times> 'w" where
  "invalidateAll f [] w = ([], w)"
| "invalidateAll f ((addr, c) # cs) w =
     (let (e, w) = f c w; (es, w) = invalidateAll f cs w
      in ((case e of Some err \<Rightarrow> [wrapped ''invalidate %s: %w'' [S addr] err] | None \<Rightarrow> []) @ es, w))"

definition Picker_Invalidate ::
    "(error \<Rightarrow> code) \<Rightarrow> (Client \<Rightarrow> 'w LocacheClient) \<Rightarrow> time \<Rightarrow> Context option \<Rightarrow> string \<Rightarrow> string \<Rightarrow> string \<Rightarrow>
     ClientPicker \<Rightarrow> 'w \<Rightarrow> error option \<times> 'w" where
  "Picker_Invalidate code_of stub now ctx grp key exceptOwner p w =
     (let (es, w) = invalidateAll (\<lambda>c. Client_Invalidate code_of (stub c) now c ctx grp key)
                      (filter (\<lambda>e. fst e \<noteq> exceptOwner) (p_clients p)) w
      in (errors_Join es, w))"

text \<open>
  \<open>timeout\<close> says that the watch did not stop in two seconds, \<open>closeErrs\<close> gives the errors of the
  clients' \<^verbatim>\<open>Close\<close>, and \<open>etcdErr\<close> that of the etcd client.
\<close>

definition Picker_Close ::
    "bool \<Rightarrow> (Client \<Rightarrow> error option) \<Rightarrow> error option \<Rightarrow> ClientPicker \<Rightarrow> net \<Rightarrow> error option \<times> ClientPicker \<times> net" where
  "Picker_Close timeout closeErrs etcdErr p n =
     (if p_closeOnce p then (None, p, n)
      else (let err0 = (if timeout then Some (Errorf ''timed out waiting for membership watch to stop'' [] None) else None);
                cs = map snd (p_clients p);
                err1 = foldl (\<lambda>e c. if closeErrs c \<noteq> None \<and> e = None then closeErrs c else e) err0 cs;
                err2 = (if etcdOpen p \<and> etcdErr \<noteq> None \<and> err1 = None then etcdErr else err1)
            in (err2, p\<lparr>p_closeOnce := True, p_cancelled := True, p_clients := [], etcdOpen := False\<rparr>,
                closeClients cs n)))"

end
