(* ===== verification/Group.thy ===== *)
theory Group
  imports Cache Singleflight Peers
begin

text \<open>
  The cache group of \<^verbatim>\<open>src/group.go\<close>: owner and near caches, key mutation states, statistics and the
  local and distributed operations. Everything a group calls outside itself is a field of \<open>env\<close>.
  Such a call acts on the pair of the group and the world \<open>'w\<close>, so that it can stand for whatever
  other goroutines do to the group until it returns; between two calls a handler runs undisturbed.
  A handler answers with \<open>Ok\<close>, \<open>Err\<close> or \<open>Panicked\<close>. The context of a call is part of \<open>env\<close>.
\<close>

section \<open>State\<close>

record groupStats =
  localHits :: int64
  localMisses :: int64
  nearHits :: int64
  nearMisses :: int64
  peerHits :: int64
  peerMisses :: int64
  sourceLoads :: int64
  sourceErrors :: int64
  sourceDuration :: int64
  sets :: int64
  deletes :: int64
  invalidationFailures :: int64

definition zeroStats :: groupStats where
  "zeroStats = \<lparr>localHits = 0, localMisses = 0, nearHits = 0, nearMisses = 0, peerHits = 0, peerMisses = 0,
     sourceLoads = 0, sourceErrors = 0, sourceDuration = 0, sets = 0, deletes = 0, invalidationFailures = 0\<rparr>"

record keyMutationState =
  generation :: uint64
  refs :: int

text \<open>
  \<open>g_getter\<close> and \<open>g_peers\<close> say whether the interface values are non-nil. Key states are objects;
  the map \<open>keyStates\<close> holds their addresses in \<open>stateHeap\<close>.
\<close>

record Group =
  g_name :: string
  g_getter :: bool
  mainCache :: "Cache option"
  nearCache :: "Cache option"
  nearTTL :: duration
  g_peers :: bool
  loader :: "(bytes, error, string) sfGroup"
  expiration :: duration
  g_closed :: bool
  g_stats :: groupStats
  ownerEpoch :: uint64
  keyStates :: "(string, nat) gomap"
  stateHeap :: "keyMutationState list"

section \<open>The environment\<close>

type_synonym pick = "string \<times> Peer \<times> bool \<times> uint64 \<times> bool"

datatype loaded = Loaded bytes | LoadError error | LoadPanic string

text \<open>
  What the local operations call: the picker's \<^verbatim>\<open>PickOwner\<close> and \<^verbatim>\<open>Epoch\<close>, the getter, the clock, and the
  time a caller waits for a load that is in flight.
\<close>

record 'w lenv =
  e_PickOwner :: "string \<Rightarrow> Group \<times> 'w \<Rightarrow> pick \<times> Group \<times> 'w"
  e_Epoch :: "Group \<times> 'w \<Rightarrow> uint64 \<times> Group \<times> 'w"
  e_getter :: "string \<Rightarrow> Group \<times> 'w \<Rightarrow> loaded \<times> Group \<times> 'w"
  e_now :: "'w \<Rightarrow> time \<times> 'w"
  e_flight :: "nat \<Rightarrow> Group \<times> 'w \<Rightarrow> Group \<times> 'w"

text \<open>
  The distributed operations also call peers: the picker's \<^verbatim>\<open>Invalidate\<close> and the methods of a client.
  \<open>e_wait\<close> is what the \<^verbatim>\<open>select\<close> of \<^verbatim>\<open>waitForTopologyRetry\<close> receives: a number of ticks, then the error
  of the context or the timer.
\<close>

record 'w env = "'w lenv" +
  e_Invalidate :: "string \<Rightarrow> string \<Rightarrow> string \<Rightarrow> Group \<times> 'w \<Rightarrow> error option \<times> Group \<times> 'w"
  e_peer_Get :: "Client \<Rightarrow> string \<Rightarrow> string \<Rightarrow> Group \<times> 'w \<Rightarrow> (error + bytes) \<times> Group \<times> 'w"
  e_peer_Set :: "Client \<Rightarrow> string \<Rightarrow> string \<Rightarrow> bytes \<Rightarrow> Group \<times> 'w \<Rightarrow> error option \<times> Group \<times> 'w"
  e_peer_Delete :: "Client \<Rightarrow> string \<Rightarrow> string \<Rightarrow> Group \<times> 'w \<Rightarrow> (error + bool) \<times> Group \<times> 'w"
  e_wait :: "Group \<times> 'w \<Rightarrow> (nat \<times> ctx_error option) \<times> Group \<times> 'w"

datatype 'a result = Ok 'a | Err error | Panicked string

abbreviation count_stat :: "(groupStats \<Rightarrow> groupStats) \<Rightarrow> Group \<times> 'w \<Rightarrow> Group \<times> 'w" where
  "count_stat f s \<equiv> (case s of (g, w) \<Rightarrow> (g\<lparr>g_stats := f (g_stats g)\<rparr>, w))"

section \<open>Key mutation states\<close>

definition update_state :: "nat \<Rightarrow> (keyMutationState \<Rightarrow> keyMutationState) \<Rightarrow> Group \<Rightarrow> Group" where
  "update_state i f g = g\<lparr>stateHeap := (stateHeap g)[i := f (stateHeap g ! i)]\<rparr>"

definition acquireKeyState :: "string \<Rightarrow> Group \<Rightarrow> nat \<times> Group" where
  "acquireKeyState key g =
     (let (i, g) =
        (case gm_get (keyStates g) key of
           Some i \<Rightarrow> (i, g)
         | None \<Rightarrow>
             (let i = length (stateHeap g)
              in (i, g\<lparr>stateHeap := stateHeap g @ [\<lparr>generation = 0, refs = 0\<rparr>],
                       keyStates := gm_put key i (keyStates g)\<rparr>)))
      in (i, update_state i (\<lambda>st. st\<lparr>refs := refs st + 1\<rparr>) g))"

definition releaseKeyState :: "string \<Rightarrow> nat \<Rightarrow> Group \<Rightarrow> Group" where
  "releaseKeyState key i g =
     (let g = update_state i (\<lambda>st. st\<lparr>refs := refs st - 1\<rparr>) g
      in if refs (stateHeap g ! i) = 0 \<and> gm_get (keyStates g) key = Some i
         then g\<lparr>keyStates := gm_del key (keyStates g)\<rparr> else g)"

definition bump :: "nat \<Rightarrow> Group \<Rightarrow> Group" where
  "bump i g = update_state i (\<lambda>st. st\<lparr>generation := generation st + 1\<rparr>) g"

section \<open>Access to the caches\<close>

definition main_Get :: "('w, 'm) lenv_scheme \<Rightarrow> string \<Rightarrow> Group \<times> 'w \<Rightarrow> bytes option \<times> Group \<times> 'w" where
  "main_Get env key s =
     (case s of (g, w) \<Rightarrow>
        (let (t, w) = e_now env w; (r, c) = Cache_Get t key (mainCache g)
         in (r, g\<lparr>mainCache := c\<rparr>, w)))"

definition near_Get :: "('w, 'm) lenv_scheme \<Rightarrow> string \<Rightarrow> Group \<times> 'w \<Rightarrow> bytes option \<times> Group \<times> 'w" where
  "near_Get env key s =
     (case s of (g, w) \<Rightarrow>
        (let (t, w) = e_now env w; (r, c) = Cache_Get t key (nearCache g)
         in (r, g\<lparr>nearCache := c\<rparr>, w)))"

text \<open>\<^verbatim>\<open>AddWithExpiration(k, v, time.Now().Add(d))\<close>: four readings of the clock.\<close>

definition add_for ::
    "('w, 'm) lenv_scheme \<Rightarrow> string \<Rightarrow> bytes \<Rightarrow> duration \<Rightarrow> Cache option \<Rightarrow> 'w \<Rightarrow> Cache option \<times> 'w" where
  "add_for env key view d c w =
     (let (t, w) = e_now env w; (t0, w) = e_now env w; (t1, w) = e_now env w; (t2, w) = e_now env w
      in (Cache_AddWithExpiration t0 t1 t2 key view (t + d) c, w))"

definition addOwnerValue :: "('w, 'm) lenv_scheme \<Rightarrow> string \<Rightarrow> bytes \<Rightarrow> Group \<times> 'w \<Rightarrow> Group \<times> 'w" where
  "addOwnerValue env key view s =
     (case s of (g, w) \<Rightarrow>
        (if 0 < expiration g then
           (let (c, w) = add_for env key view (expiration g) (mainCache g) w in (g\<lparr>mainCache := c\<rparr>, w))
         else
           (let (t1, w) = e_now env w; (t2, w) = e_now env w
            in (g\<lparr>mainCache := Cache_Add t1 t2 key view (mainCache g)\<rparr>, w))))"

definition add_near :: "('w, 'm) lenv_scheme \<Rightarrow> string \<Rightarrow> bytes \<Rightarrow> Group \<times> 'w \<Rightarrow> Group \<times> 'w" where
  "add_near env key view s =
     (case s of (g, w) \<Rightarrow>
        (let (c, w) = add_for env key view (nearTTL g) (nearCache g) w in (g\<lparr>nearCache := c\<rparr>, w)))"

definition nearKey :: "uint64 \<Rightarrow> string \<Rightarrow> string" where
  "nearKey epoch key = decimal (unat epoch) @ '':'' @ key"

definition invalidateNearKey :: "('w, 'm) lenv_scheme \<Rightarrow> string \<Rightarrow> Group \<times> 'w \<Rightarrow> Group \<times> 'w" where
  "invalidateNearKey env key s =
     (case s of (g, w) \<Rightarrow>
        (if nearCache g = None then s
         else if g_peers g then
           (case e_Epoch env (g, w) of (epoch, g, w) \<Rightarrow>
              (g\<lparr>nearCache := snd (Cache_Delete (nearKey epoch key) (nearCache g))\<rparr>, w))
         else s))"

definition invalidateLocalCopies :: "('w, 'm) lenv_scheme \<Rightarrow> string \<Rightarrow> Group \<times> 'w \<Rightarrow> Group \<times> 'w" where
  "invalidateLocalCopies env key s =
     (let s = (case s of (g, w) \<Rightarrow>
                 (if g_peers g then
                    (case e_PickOwner env key (g, w) of ((owner, _, isSelf, _, ok), g, w) \<Rightarrow>
                       (if ok \<and> owner \<noteq> [] \<and> \<not> isSelf
                        then (g\<lparr>mainCache := snd (Cache_Delete key (mainCache g))\<rparr>, w) else (g, w)))
                  else s))
      in invalidateNearKey env key s)"

definition invalidatePeerCopies :: "'w env \<Rightarrow> string \<Rightarrow> string \<Rightarrow> Group \<times> 'w \<Rightarrow> Group \<times> 'w" where
  "invalidatePeerCopies env key owner s =
     (case s of (g, w) \<Rightarrow>
        (if \<not> g_peers g then s
         else (case e_Invalidate env (g_name g) key owner s of
                 (Some err, s) \<Rightarrow> count_stat (\<lambda>st. st\<lparr>invalidationFailures := invalidationFailures st + 1\<rparr>) s
               | (None, s) \<Rightarrow> s)))"

section \<open>Local operations\<close>

definition prepareLocalOwner :: "('w, 'm) lenv_scheme \<Rightarrow> string \<Rightarrow> Group \<times> 'w \<Rightarrow> (error + uint64) \<times> Group \<times> 'w" where
  "prepareLocalOwner env key s =
     (case s of (g, w) \<Rightarrow>
        (if \<not> g_peers g then (Inr 0, s)
         else (case e_PickOwner env key s of ((owner, _, isSelf, epoch, ok), g, w) \<Rightarrow>
           (if \<not> ok \<or> owner = [] then (Inl (Sentinel ErrNoOwner), g, w)
            else if \<not> isSelf then (Inl (wrapped ''%w: owner=%s'' [S owner] (Sentinel ErrNotOwner)), g, w)
            else (Inr epoch,
                  (if ownerEpoch g = 0 then g\<lparr>ownerEpoch := epoch\<rparr>
                   else if ownerEpoch g \<noteq> epoch
                   then g\<lparr>mainCache := Cache_Clear (mainCache g), ownerEpoch := epoch\<rparr>
                   else g), w)))))"

text \<open>The function \<^verbatim>\<open>getLocal\<close> passes to the loader.\<close>

definition loadFn ::
    "('w, 'm) lenv_scheme \<Rightarrow> string \<Rightarrow> uint64 \<Rightarrow> nat \<Rightarrow> Group \<times> 'w \<Rightarrow> (bytes, error, string) outcome \<times> Group \<times> 'w" where
  "loadFn env key epoch st s =
     (case main_Get env key s of
        (Some view, s) \<Rightarrow> (Return (Some view) None, s)
      | (None, g, w) \<Rightarrow>
          (let startGeneration = generation (stateHeap g ! st);
               (start, w) = e_now env w;
               s = count_stat (\<lambda>st. st\<lparr>sourceLoads := sourceLoads st + 1\<rparr>) (g, w)
           in case e_getter env key s of
                (LoadPanic p, s) \<Rightarrow> (Panic p, s)
              | (r, g, w) \<Rightarrow>
                  (let (stop, w) = e_now env w;
                       s = count_stat (\<lambda>st. st\<lparr>sourceDuration := sourceDuration st + word_of_int (stop - start)\<rparr>) (g, w)
                   in case r of
                        LoadError err \<Rightarrow>
                          (Return None (Some err), count_stat (\<lambda>st. st\<lparr>sourceErrors := sourceErrors st + 1\<rparr>) s)
                      | Loaded view \<Rightarrow>
                          (let (moved, s) =
                             (if g_peers (fst s) then
                                (case e_PickOwner env key s of ((_, _, isSelfNow, epochNow, ok), s) \<Rightarrow>
                                   (\<not> ok \<or> \<not> isSelfNow \<or> epochNow \<noteq> epoch, s))
                              else (False, s))
                           in if moved then (Return None (Some (Sentinel ErrTopologyChanged)), s)
                              else if generation (stateHeap (fst s) ! st) \<noteq> startGeneration then
                                (case main_Get env key s of
                                   (Some view, s) \<Rightarrow> (Return (Some view) None, s)
                                 | (None, s) \<Rightarrow> (Return None (Some (Sentinel ErrCacheMiss)), s))
                              else (Return (Some view) None, addOwnerValue env key view s)))))"

text \<open>\<^verbatim>\<open>loader.Do\<close>: join a load in flight, or lead one.\<close>

definition loader_Do ::
    "('w, 'm) lenv_scheme \<Rightarrow> string \<Rightarrow> (Group \<times> 'w \<Rightarrow> (bytes, error, string) outcome \<times> Group \<times> 'w) \<Rightarrow> Group \<times> 'w \<Rightarrow>
     (bytes, error, string) outcome \<times> Group \<times> 'w" where
  "loader_Do env key fn s =
     (case s of (g, w) \<Rightarrow>
        (case Do_enter key (loader g) of
           (Running k c, l) \<Rightarrow>
             (case fn (g\<lparr>loader := l\<rparr>, w) of (r, g, w) \<Rightarrow>
                (let l = Do_done c (Do_remove key c (Do_fn c r (loader g)))
                 in (Do_result (callHeap l ! c), g\<lparr>loader := l\<rparr>, w)))
         | (Waiting k c, l) \<Rightarrow>
             (let s = e_flight env c (g\<lparr>loader := l\<rparr>, w) in (Do_result (callHeap (loader (fst s)) ! c), s))
         | (_, l) \<Rightarrow> (Panic ''unreachable'', s)))"

definition getLocal_owned :: "('w, 'm) lenv_scheme \<Rightarrow> string \<Rightarrow> uint64 \<Rightarrow> nat \<Rightarrow> Group \<times> 'w \<Rightarrow> bytes result \<times> Group \<times> 'w" where
  "getLocal_owned env key epoch st s =
     (case main_Get env key s of
        (Some view, s) \<Rightarrow> (Ok view, count_stat (\<lambda>st. st\<lparr>localHits := localHits st + 1\<rparr>) s)
      | (None, s) \<Rightarrow>
          (let s = count_stat (\<lambda>st. st\<lparr>localMisses := localMisses st + 1\<rparr>) s
           in if \<not> g_getter (fst s) then (Err (Sentinel ErrCacheMiss), s)
              else (case loader_Do env key (loadFn env key epoch st) s of
                      (Panic p, s) \<Rightarrow> (Panicked p, s)
                    | (Return v (Some err), s) \<Rightarrow>
                        (if errors_Is err ErrCacheMiss \<or> errors_Is err ErrTopologyChanged \<or> errors_Is err ErrNotOwner
                         then (Err err, s)
                         else (Err (wrapped ''load %q from source: %w'' [S key] err), s))
                    | (Return (Some view) None, s) \<Rightarrow> (Ok view, s)
                    | (Return None None, s) \<Rightarrow> (Panicked ''interface conversion'', s))))"

definition getLocal :: "('w, 'm) lenv_scheme \<Rightarrow> string \<Rightarrow> Group \<times> 'w \<Rightarrow> bytes result \<times> Group \<times> 'w" where
  "getLocal env key s =
     (if g_closed (fst s) then (Err (Sentinel ErrGroupClosed), s)
      else (case prepareLocalOwner env key s of
              (Inl err, s) \<Rightarrow> (Err err, s)
            | (Inr epoch, g, w) \<Rightarrow>
                (let (st, g) = acquireKeyState key g
                 in case getLocal_owned env key epoch st (g, w) of
                      (r, g, w) \<Rightarrow> (r, releaseKeyState key st g, w))))"

definition setLocal :: "('w, 'm) lenv_scheme \<Rightarrow> string \<Rightarrow> bytes \<Rightarrow> Group \<times> 'w \<Rightarrow> error option \<times> Group \<times> 'w" where
  "setLocal env key value s =
     (if g_closed (fst s) then (Some (Sentinel ErrGroupClosed), s)
      else (case prepareLocalOwner env key s of
              (r, g, w) \<Rightarrow>
                (if isl r \<and> g_peers g then (Some (projl r), g, w)
                 else (let (st, g) = acquireKeyState key g;
                           s = addOwnerValue env key value (bump st g, w);
                           (g, w) = invalidateNearKey env key s
                       in (None, releaseKeyState key st g, w)))))"

definition deleteLocal :: "('w, 'm) lenv_scheme \<Rightarrow> string \<Rightarrow> Group \<times> 'w \<Rightarrow> bool \<times> Group \<times> 'w" where
  "deleteLocal env key s =
     (case s of (g, w) \<Rightarrow>
        (let (st, g) = acquireKeyState key g;
             g = bump st g;
             (removed, c) = Cache_Delete key (mainCache g);
             (g, w) = invalidateNearKey env key (g\<lparr>mainCache := c\<rparr>, w)
         in (removed, releaseKeyState key st g, w)))"

definition deleteOwnerLocal :: "('w, 'm) lenv_scheme \<Rightarrow> string \<Rightarrow> Group \<times> 'w \<Rightarrow> (error + bool) \<times> Group \<times> 'w" where
  "deleteOwnerLocal env key s =
     (if g_closed (fst s) then (Inl (Sentinel ErrGroupClosed), s)
      else (case prepareLocalOwner env key s of
              (r, g, w) \<Rightarrow>
                (if isl r \<and> g_peers g then (Inl (projl r), g, w)
                 else (case deleteLocal env key (g, w) of (removed, s) \<Rightarrow> (Inr removed, s)))))"

section \<open>Distributed operations\<close>

text \<open>
  The calls through a \<^verbatim>\<open>Peer\<close> value: a method on a nil client dereferences it.
\<close>

definition nilPanic :: string where
  "nilPanic = ''invalid memory address or nil pointer dereference''"

fun waitLoop ::
    "('w, 'm) lenv_scheme \<Rightarrow> uint64 \<Rightarrow> nat \<Rightarrow> ctx_error option \<Rightarrow> Group \<times> 'w \<Rightarrow> error option \<times> Group \<times> 'w" where
  "waitLoop env epoch n final s =
     (case e_Epoch env s of (e, s) \<Rightarrow>
        (if e \<noteq> epoch then (None, s)
         else (case n of 0 \<Rightarrow> (map_option Ctx final, s) | Suc n \<Rightarrow> waitLoop env epoch n final s)))"

declare waitLoop.simps [simp del]

definition waitForTopologyRetry :: "'w env \<Rightarrow> uint64 \<Rightarrow> Group \<times> 'w \<Rightarrow> error option \<times> Group \<times> 'w" where
  "waitForTopologyRetry env epoch s =
     (if \<not> g_peers (fst s) then (None, s)
      else (case e_wait env s of ((n, final), s) \<Rightarrow> waitLoop env epoch n final s))"

text \<open>
  One pass of the loop of \<^verbatim>\<open>Get\<close> when the owner is remote, up to the call of the peer: a valid entry of
  the near cache, if any.
\<close>

definition near_lookup ::
    "('w, 'm) lenv_scheme \<Rightarrow> string \<Rightarrow> string \<Rightarrow> uint64 \<Rightarrow> Group \<times> 'w \<Rightarrow> bytes option \<times> Group \<times> 'w" where
  "near_lookup env key owner epoch s =
     (if nearCache (fst s) = None then (None, s)
      else (case near_Get env (nearKey epoch key) s of
              (Some view, s) \<Rightarrow>
                (case e_PickOwner env key s of ((ownerNow, _, _, epochNow, okNow), g, w) \<Rightarrow>
                   (if okNow \<and> ownerNow = owner \<and> epochNow = epoch
                    then (Some view, count_stat (\<lambda>st. st\<lparr>nearHits := nearHits st + 1\<rparr>) (g, w))
                    else (None, count_stat (\<lambda>st. st\<lparr>nearMisses := nearMisses st + 1\<rparr>)
                            (g\<lparr>nearCache := snd (Cache_Delete (nearKey epoch key) (nearCache g))\<rparr>, w))))
            | (None, s) \<Rightarrow> (None, count_stat (\<lambda>st. st\<lparr>nearMisses := nearMisses st + 1\<rparr>) s)))"

text \<open>The loop of \<^verbatim>\<open>Get\<close> with the number of attempts left; the last one has \<open>attempt == 3\<close>.\<close>

fun Get_loop :: "'w env \<Rightarrow> string \<Rightarrow> nat \<Rightarrow> Group \<times> 'w \<Rightarrow> bytes result \<times> Group \<times> 'w" where
  "Get_loop env key 0 s = (Err (Sentinel ErrTopologyChanged), s)"
| "Get_loop env key (Suc left) s =
     (case e_PickOwner env key s of ((owner, peer, isSelf, epoch, ok), s) \<Rightarrow>
        (if \<not> ok \<or> owner = [] then (Err (Sentinel ErrNoOwner), s)
         else if isSelf then
           (case getLocal env key s of
              (Err err, s) \<Rightarrow> (if is_moved err then Get_loop env key left s else (Err err, s))
            | (r, s) \<Rightarrow> (r, s))
         else if peer = NilPeer then (Err (wrapped ''%w: owner=%s'' [S owner] (Sentinel ErrPeerUnavailable)), s)
         else (case near_lookup env key owner epoch s of
                 (Some view, s) \<Rightarrow> (Ok view, s)
               | (None, s) \<Rightarrow>
                   (case peer of
                      ClientPeer (Some c) \<Rightarrow>
                        (case e_peer_Get env c (g_name (fst s)) key s of
                           (Inl err, s) \<Rightarrow>
                             (let s = count_stat (\<lambda>st. st\<lparr>peerMisses := peerMisses st + 1\<rparr>) s
                              in if is_moved err then
                                   (if left = 0 then (Err (Sentinel ErrTopologyChanged), s)
                                    else (case waitForTopologyRetry env epoch s of
                                            (Some waitErr, s) \<Rightarrow> (Err waitErr, s)
                                          | (None, s) \<Rightarrow> Get_loop env key left s))
                                 else (Err (wrapped ''get %q from owner %s: %w'' [S key, S owner] err), s))
                         | (Inr view, s) \<Rightarrow>
                             (case e_PickOwner env key s of ((ownerNow, _, isSelfNow, epochNow, okNow), s) \<Rightarrow>
                                (if \<not> okNow \<or> ownerNow \<noteq> owner \<or> epochNow \<noteq> epoch \<or> isSelfNow
                                 then Get_loop env key left s
                                 else (let s = count_stat (\<lambda>st. st\<lparr>peerHits := peerHits st + 1\<rparr>) s;
                                           s = (if nearCache (fst s) \<noteq> None
                                                then add_near env (nearKey epoch key) view s else s)
                                       in (Ok view, s)))))
                    | _ \<Rightarrow> (Panicked nilPanic, s)))))"

definition Get :: "'w env \<Rightarrow> string \<Rightarrow> Group \<times> 'w \<Rightarrow> bytes result \<times> Group \<times> 'w" where
  "Get env key s =
     (if g_closed (fst s) then (Err (Sentinel ErrGroupClosed), s)
      else if key = [] then (Err (Sentinel ErrKeyRequired), s)
      else if \<not> g_peers (fst s) then getLocal env key s
      else Get_loop env key 4 s)"

text \<open>
  How the loop of \<^verbatim>\<open>Set\<close> or \<^verbatim>\<open>Delete\<close> ends: by a return, a panic, or past the loop with the owner and
  epoch last stored, whether by \<^verbatim>\<open>break\<close> or because the attempts are used up.
\<close>

datatype loop_end = Past string uint64 | Return_err error | Crash string

text \<open>The test that follows a mutation: has the routing stayed the same?\<close>

definition stable :: "('w, 'm) lenv_scheme \<Rightarrow> string \<Rightarrow> string \<Rightarrow> uint64 \<Rightarrow> Group \<times> 'w \<Rightarrow> bool \<times> Group \<times> 'w" where
  "stable env key owner epoch s =
     (case e_PickOwner env key s of ((ownerNow, _, _, epochNow, okNow), s) \<Rightarrow>
        (okNow \<and> ownerNow = owner \<and> epochNow = epoch, s))"

fun Set_loop ::
    "'w env \<Rightarrow> string \<Rightarrow> bytes \<Rightarrow> nat \<Rightarrow> string \<Rightarrow> uint64 \<Rightarrow> Group \<times> 'w \<Rightarrow> loop_end \<times> Group \<times> 'w" where
  "Set_loop env key value 0 owner stableEpoch s = (Past owner stableEpoch, s)"
| "Set_loop env key value (Suc left) owner0 stableEpoch s =
     (if \<not> g_peers (fst s) then
        (case setLocal env key value s of
           (Some err, s) \<Rightarrow> (Return_err err, s)
         | (None, s) \<Rightarrow> (Past owner0 stableEpoch, s))
      else
        (case e_PickOwner env key s of ((owner, peer, isSelf, epoch, ok), s) \<Rightarrow>
           (if \<not> ok \<or> owner = [] then (Return_err (Sentinel ErrNoOwner), s)
            else
              (let check = (\<lambda>s. case stable env key owner epoch s of (st, s) \<Rightarrow>
                              (if st then (Past owner epoch, s)
                               else if left = 0 then (Return_err (Sentinel ErrTopologyChanged), s)
                               else Set_loop env key value left owner stableEpoch s))
               in if isSelf then
                    (case setLocal env key value s of
                       (Some err, s) \<Rightarrow>
                         (if is_moved err then Set_loop env key value left owner stableEpoch s
                          else (Return_err err, s))
                     | (None, s) \<Rightarrow> check s)
                  else if peer = NilPeer then
                    (Return_err (wrapped ''%w: owner=%s'' [S owner] (Sentinel ErrPeerUnavailable)), s)
                  else (case peer of
                          ClientPeer (Some c) \<Rightarrow>
                            (case e_peer_Set env c (g_name (fst s)) key value s of
                               (Some err, s) \<Rightarrow>
                                 (if is_moved err then
                                    (if left = 0 then (Return_err (Sentinel ErrTopologyChanged), s)
                                     else (case waitForTopologyRetry env epoch s of
                                             (Some waitErr, s) \<Rightarrow> (Return_err waitErr, s)
                                           | (None, s) \<Rightarrow> Set_loop env key value left owner stableEpoch s))
                                  else (Return_err (wrapped ''set %q on owner %s: %w'' [S key, S owner] err), s))
                             | (None, s) \<Rightarrow> check s)
                        | _ \<Rightarrow> (Crash nilPanic, s))))))"

text \<open>What follows the loop of \<^verbatim>\<open>Set\<close>.\<close>

definition Set_finish :: "'w env \<Rightarrow> string \<Rightarrow> bytes \<Rightarrow> string \<Rightarrow> uint64 \<Rightarrow> Group \<times> 'w \<Rightarrow> Group \<times> 'w" where
  "Set_finish env key value owner stableEpoch s =
     (let s = count_stat (\<lambda>st. st\<lparr>sets := sets st + 1\<rparr>) s;
          s = invalidateLocalCopies env key s;
          s = invalidatePeerCopies env key owner s
      in if g_peers (fst s) \<and> nearCache (fst s) \<noteq> None \<and> owner \<noteq> [] then
           (case e_PickOwner env key s of ((ownerNow, _, isSelfNow, epochNow, ok), s) \<Rightarrow>
              (if ok \<and> ownerNow = owner \<and> epochNow = stableEpoch \<and> \<not> isSelfNow
               then add_near env (nearKey stableEpoch key) value s else s))
         else s)"

definition Set :: "'w env \<Rightarrow> string \<Rightarrow> bytes \<Rightarrow> Group \<times> 'w \<Rightarrow> unit result \<times> Group \<times> 'w" where
  "Set env key value s =
     (if g_closed (fst s) then (Err (Sentinel ErrGroupClosed), s)
      else if key = [] then (Err (Sentinel ErrKeyRequired), s)
      else if length value = 0 then (Err (Sentinel ErrValueRequired), s)
      else (case Set_loop env key value 4 [] 0 s of
              (Return_err err, s) \<Rightarrow> (Err err, s)
            | (Crash p, s) \<Rightarrow> (Panicked p, s)
            | (Past owner stableEpoch, s) \<Rightarrow> (Ok (), Set_finish env key value owner stableEpoch s)))"

fun Delete_loop :: "'w env \<Rightarrow> string \<Rightarrow> nat \<Rightarrow> string \<Rightarrow> Group \<times> 'w \<Rightarrow> loop_end \<times> Group \<times> 'w" where
  "Delete_loop env key 0 owner s = (Past owner 0, s)"
| "Delete_loop env key (Suc left) owner0 s =
     (if \<not> g_peers (fst s) then (case deleteLocal env key s of (_, s) \<Rightarrow> (Past owner0 0, s))
      else
        (case e_PickOwner env key s of ((owner, peer, isSelf, epoch, ok), s) \<Rightarrow>
           (if \<not> ok \<or> owner = [] then (Return_err (Sentinel ErrNoOwner), s)
            else
              (let check = (\<lambda>s. case stable env key owner epoch s of (st, s) \<Rightarrow>
                              (if st then (Past owner 0, s)
                               else if left = 0 then (Return_err (Sentinel ErrTopologyChanged), s)
                               else Delete_loop env key left owner s))
               in if isSelf then (case deleteLocal env key s of (_, s) \<Rightarrow> check s)
                  else if peer = NilPeer then
                    (Return_err (wrapped ''%w: owner=%s'' [S owner] (Sentinel ErrPeerUnavailable)), s)
                  else (case peer of
                          ClientPeer (Some c) \<Rightarrow>
                            (case e_peer_Delete env c (g_name (fst s)) key s of
                               (Inl err, s) \<Rightarrow>
                                 (if is_moved err then
                                    (if left = 0 then (Return_err (Sentinel ErrTopologyChanged), s)
                                     else (case waitForTopologyRetry env epoch s of
                                             (Some waitErr, s) \<Rightarrow> (Return_err waitErr, s)
                                           | (None, s) \<Rightarrow> Delete_loop env key left owner s))
                                  else (Return_err (wrapped ''delete %q on owner %s: %w'' [S key, S owner] err), s))
                             | (Inr _, s) \<Rightarrow> check s)
                        | _ \<Rightarrow> (Crash nilPanic, s))))))"

definition Delete :: "'w env \<Rightarrow> string \<Rightarrow> Group \<times> 'w \<Rightarrow> unit result \<times> Group \<times> 'w" where
  "Delete env key s =
     (if g_closed (fst s) then (Err (Sentinel ErrGroupClosed), s)
      else if key = [] then (Err (Sentinel ErrKeyRequired), s)
      else (case Delete_loop env key 4 [] s of
              (Return_err err, s) \<Rightarrow> (Err err, s)
            | (Crash p, s) \<Rightarrow> (Panicked p, s)
            | (Past owner _, s) \<Rightarrow>
                (let s = count_stat (\<lambda>st. st\<lparr>deletes := deletes st + 1\<rparr>) s;
                     s = invalidateLocalCopies env key s
                 in (Ok (), invalidatePeerCopies env key owner s))))"

section \<open>Lifecycle\<close>

definition RegisterPeers :: "Group \<Rightarrow> unit result \<times> Group" where
  "RegisterPeers g =
     (if g_peers g then (Panicked ''RegisterPeers called more than once'', g) else (Ok (), g\<lparr>g_peers := True\<rparr>))"

definition Group_Clear :: "Group \<Rightarrow> Group" where
  "Group_Clear g =
     (if g_closed g then g
      else (let g = g\<lparr>mainCache := Cache_Clear (mainCache g)\<rparr>
            in if nearCache g \<noteq> None then g\<lparr>nearCache := Cache_Clear (nearCache g)\<rparr> else g))"

text \<open>The part of \<^verbatim>\<open>Close\<close> that concerns the group itself, and whether it was open.\<close>

definition Group_close :: "Group \<Rightarrow> bool \<times> Group" where
  "Group_close g =
     (if g_closed g then (False, g)
      else (True, g\<lparr>g_closed := True, mainCache := Cache_Close (mainCache g), nearCache := Cache_Close (nearCache g)\<rparr>))"

end
