(* ===== verification/Peers_Correct.thy ===== *)
theory Peers_Correct
  imports Peers
begin

text \<open>
  Correctness of the peer picker: the invariant that ties membership, ring, clients and open
  connections together, agreement of pickers on owners, the meaning of the epoch, and the
  refinement of the service registry by the watched membership.
\<close>

section \<open>The invariant\<close>

definition members_inv :: "ClientPicker \<Rightarrow> bool" where
  "members_inv p \<longleftrightarrow> ring_inv (p_ring p) \<and> 0 < hashReplicas p \<and>
     config (p_ring p) = DefaultConfig\<lparr>Replicas := hashReplicas p\<rparr> \<and>
     set (nodes (p_ring p)) = set (p_members p) \<and> distinct (p_members p) \<and>
     [] \<notin> set (p_members p) \<and> selfAddr p \<in> set (p_members p)"

abbreviation held :: "(string, Client) gomap \<Rightarrow> Client set" where
  "held cs \<equiv> snd ` set cs"

text \<open>
  Clients are filed under their address, no two share a connection, and the open connections are
  exactly theirs: no connection is leaked and none in use is closed.
\<close>

definition filed :: "(string, Client) gomap \<Rightarrow> bool" where
  "filed cs \<longleftrightarrow> gm_ok cs \<and> (\<forall>e\<in>set cs. c_addr (snd e) = fst e)"

definition conns_inv :: "Client set \<Rightarrow> net \<Rightarrow> bool" where
  "conns_inv C n \<longleftrightarrow> inj_on c_conn C \<and> set (openConns n) = c_conn ` C \<and> distinct (openConns n) \<and>
     (\<forall>i\<in>set (openConns n). i < nextConn n)"

definition picker_inv :: "ClientPicker \<Rightarrow> net \<Rightarrow> bool" where
  "picker_inv p n \<longleftrightarrow> members_inv p \<and> filed (p_clients p) \<and> conns_inv (held (p_clients p)) n \<and>
     fst ` set (p_clients p) \<subseteq> set (p_members p) - {selfAddr p}"

section \<open>Connections\<close>

lemma openClient_cases:
  obtains (failed) "openClient dial d addr n = (None, n)"
  | (opened) c where "openClient dial d addr n =
      (Some c, n\<lparr>nextConn := Suc (nextConn n), openConns := openConns n @ [nextConn n]\<rparr>)"
      "c_addr c = addr" "c_conn c = nextConn n"
  by (cases "NewClient dial (nextConn n) addr d") (auto simp: openClient_def dest: NewClient_timeout)

lemma conns_inv_open:
  assumes "conns_inv C n" "c_conn c = nextConn n"
  shows "conns_inv (insert c C) (n\<lparr>nextConn := Suc (nextConn n), openConns := openConns n @ [nextConn n]\<rparr>)"
proof -
  have "c_conn c \<notin> c_conn ` C" using assms unfolding conns_inv_def by (metis less_irrefl)
  with assms show ?thesis unfolding conns_inv_def by (auto simp: less_Suc_eq)
qed

lemma foldl_Client_Close: "foldl (\<lambda>oc c. Client_Close c oc) os cs = filter (\<lambda>i. i \<notin> c_conn ` set cs) os"
  by (induction cs arbitrary: os) (auto simp: Client_Close_def intro: filter_cong)

lemma conns_inv_close:
  assumes "conns_inv C n" "set cs \<subseteq> C"
  shows "conns_inv (C - set cs) (closeClients cs n)"
proof -
  have "c_conn ` C - c_conn ` set cs = c_conn ` (C - set cs)"
    using assms inj_on_image_set_diff [of c_conn C C "set cs"] by (auto simp: conns_inv_def)
  moreover have "inj_on c_conn (C - set cs)" using assms(1) by (auto simp: conns_inv_def inj_on_diff)
  ultimately show ?thesis
    using assms(1) by (auto simp: conns_inv_def closeClients_def foldl_Client_Close)
qed

lemma set_gm_put_new: "k \<notin> fst ` set m \<Longrightarrow> set (gm_put k v m) = insert (k, v) (set m)"
  by (induction m) auto

lemma filed_put: "filed cs \<Longrightarrow> addr \<notin> fst ` set cs \<Longrightarrow> c_addr c = addr \<Longrightarrow> filed (gm_put addr c cs)"
  by (auto simp: filed_def set_gm_put_new gomap_simps)

lemma set_gm_del: "set (gm_del k m) = {e \<in> set m. fst e \<noteq> k}"
  by (auto simp: AList.delete_eq)

lemma filed_del: "filed cs \<Longrightarrow> filed (gm_del addr cs)"
  unfolding filed_def by (simp add: set_gm_del gomap_simps)

lemma held_put: "addr \<notin> fst ` set cs \<Longrightarrow> held (gm_put addr c cs) = insert c (held cs)"
  by (simp add: set_gm_put_new)

lemma held_del:
  assumes "filed cs" "gm_get cs addr = Some c"
  shows "held (gm_del addr cs) = held cs - {c}"
proof -
  have ca: "c_addr c = addr" using map_of_SomeD [OF assms(2)] assms(1) by (auto simp: filed_def)
  have "snd e \<noteq> c" if "e \<in> set cs" "fst e \<noteq> addr" for e
    using that ca assms(1) by (auto simp: filed_def)
  moreover have "fst e \<noteq> addr" if "e \<in> set cs" "snd e \<noteq> c" for e
  proof
    assume "fst e = addr"
    then have "gm_get cs addr = Some (snd e)"
      using that(1) assms(1) map_of_is_SomeI [of cs addr "snd e"] by (cases e) (simp add: filed_def)
    with assms(2) that(2) show False by simp
  qed
  ultimately have "{e \<in> set cs. fst e \<noteq> addr} = {e \<in> set cs. snd e \<noteq> c}" by blast
  then show ?thesis unfolding set_gm_del by auto
qed

section \<open>Rebuilding the clients\<close>

text \<open>The state of the loop: the clients gathered so far and the old ones share the open connections.\<close>

definition building :: "ClientPicker \<Rightarrow> (string, Client) gomap \<Rightarrow> net \<Rightarrow> bool" where
  "building p acc n \<longleftrightarrow> filed acc \<and> conns_inv (held acc \<union> held (p_clients p)) n \<and>
     (\<forall>a c d. gm_get acc a = Some c \<longrightarrow> gm_get (p_clients p) a = Some d \<longrightarrow> c = d)"

lemma building_put_old:
  assumes "building p acc n" "gm_get (p_clients p) a = Some c" "a \<notin> fst ` set acc" "filed (p_clients p)"
  shows "building p (gm_put a c acc) n"
proof -
  have "(a, c) \<in> set (p_clients p)" using assms(2) by (rule map_of_SomeD)
  then have "c_addr c = a" "c \<in> held (p_clients p)" using assms(4) by (auto simp: filed_def intro: rev_image_eqI)
  then have "held (gm_put a c acc) \<union> held (p_clients p) = held acc \<union> held (p_clients p)" "filed (gm_put a c acc)"
    using assms by (auto simp: held_put building_def filed_put)
  then show ?thesis using assms(1,2) unfolding building_def by (simp add: gomap_simps)
qed

lemma building_put_new:
  assumes "building p acc n" "gm_get (p_clients p) a = None" "a \<notin> fst ` set acc" "c_addr c = a" "c_conn c = nextConn n"
  shows "building p (gm_put a c acc) (n\<lparr>nextConn := Suc (nextConn n), openConns := openConns n @ [nextConn n]\<rparr>)"
proof -
  have "held (gm_put a c acc) \<union> held (p_clients p) = insert c (held acc \<union> held (p_clients p))" "filed (gm_put a c acc)"
    using assms by (auto simp: held_put building_def filed_put)
  then show ?thesis
    using assms(1,2) conns_inv_open [OF _ assms(5), of "held acc \<union> held (p_clients p)"]
    unfolding building_def by (simp add: gomap_simps)
qed

lemma buildClients_building:
  assumes "buildClients dial p ms acc n = (cs, n')" "building p acc n" "filed (p_clients p)"
    "distinct ms" "set ms \<inter> fst ` set acc = {}"
  shows "building p cs n' \<and> fst ` set cs \<subseteq> fst ` set acc \<union> (set ms - {selfAddr p})"
  using assms
proof (induction dial p ms acc n rule: buildClients.induct)
  case (2 dial p a ms acc n)
  show ?case
  proof (cases "a = selfAddr p")
    case True
    with 2 show ?thesis by auto
  next
    case notself: False
    show ?thesis
    proof (cases "gm_get (p_clients p) a")
      case (Some c)
      have "building p (gm_put a c acc) n" using building_put_old [OF _ Some] "2.prems" by auto
      moreover have "set ms \<inter> fst ` set (gm_put a c acc) = {}" using "2.prems"(4,5) by (auto simp: gomap_simps)
      ultimately show ?thesis using 2 notself Some by (auto simp: gomap_simps)
    next
      case None
      show ?thesis
      proof (rule openClient_cases [of dial "rpcTO p" a n])
        assume "openClient dial (rpcTO p) a n = (None, n)"
        with 2 notself None show ?thesis by auto
      next
        fix c
        let ?n = "n\<lparr>nextConn := Suc (nextConn n), openConns := openConns n @ [nextConn n]\<rparr>"
        assume c: "openClient dial (rpcTO p) a n = (Some c, ?n)" "c_addr c = a" "c_conn c = nextConn n"
        have "building p (gm_put a c acc) ?n" using building_put_new [OF _ None _ c(2,3)] "2.prems" by auto
        moreover have "set ms \<inter> fst ` set (gm_put a c acc) = {}" using "2.prems"(4,5) by (auto simp: gomap_simps)
        ultimately show ?thesis using 2 notself None c by (auto simp: gomap_simps)
      qed
    qed
  qed
qed auto

section \<open>Every operation keeps the invariant\<close>

lemma sameMembers_iff: "distinct a \<Longrightarrow> distinct b \<Longrightarrow> sameMembers a b \<longleftrightarrow> set a = set b"
  unfolding sameMembers_def list_all_iff
  by (metis List.finite_set card_subset_eq distinct_card subsetI)

lemma New_ring: "0 < r \<Longrightarrow> ring_inv (New [WithReplicas r]) \<and>
    config (New [WithReplicas r]) = DefaultConfig\<lparr>Replicas := r\<rparr> \<and> nodes (New [WithReplicas r]) = []"
  by (simp add: New_def WithReplicas_def ring_inv_def ring_points_def)

lemma desiredMembers_set:
  "set (desiredMembers svc d kvs) = set d \<union> (kv_addr svc ` set kvs - {[]})"
  by (induction svc d kvs rule: desiredMembers.induct) (auto simp: Let_def)

lemma desiredMembers_distinct: "distinct d \<Longrightarrow> distinct (desiredMembers svc d kvs)"
  by (induction svc d kvs rule: desiredMembers.induct) (auto simp: Let_def)

text \<open>Fields that no membership change writes.\<close>

definition same_identity :: "ClientPicker \<Rightarrow> ClientPicker \<Rightarrow> bool" where
  "same_identity p q \<longleftrightarrow> selfAddr q = selfAddr p \<and> svcName q = svcName p \<and> hashReplicas q = hashReplicas p"

lemma same_identity_trans: "same_identity p q \<Longrightarrow> same_identity q r \<Longrightarrow> same_identity p r"
  by (simp add: same_identity_def)

text \<open>
  What a membership change may do: nothing, or the members change and the epoch advances by one.
\<close>

definition one_change :: "ClientPicker \<Rightarrow> ClientPicker \<Rightarrow> bool" where
  "one_change p q \<longleftrightarrow> same_identity p q \<and>
     (q = p \<or> (set (p_members q) \<noteq> set (p_members p) \<and> p_epoch q = p_epoch p + 1))"

lemma building_init: "conns_inv (held (p_clients p)) n \<Longrightarrow> building p [] n"
  by (simp add: building_def filed_def)

lemma building_close:
  assumes "building p cs n" "filed (p_clients p)"
  shows "conns_inv (held cs) (closeClients (map snd (filter (\<lambda>e. gm_get cs (fst e) = None) (p_clients p))) n)"
proof -
  let ?old = "map snd (filter (\<lambda>e. gm_get cs (fst e) = None) (p_clients p))"
  have fcs: "filed cs" using assms(1) by (simp add: building_def)
  have gone: "c \<notin> held cs" if old: "c \<in> set ?old" for c
  proof
    assume "c \<in> held cs"
    then obtain b where b: "(b, c) \<in> set cs" by auto
    obtain a where a: "(a, c) \<in> set (p_clients p)" "gm_get cs a = None" using old by auto
    have "b = a" using a(1) b fcs assms(2) by (fastforce simp: filed_def)
    with a(2) b show False by (auto simp: map_of_eq_None_iff image_iff)
  qed
  have kept: "c \<in> held cs" if c: "c \<in> held (p_clients p)" "c \<notin> set ?old" for c
  proof -
    obtain a where a: "(a, c) \<in> set (p_clients p)" using c(1) by auto
    have "gm_get (p_clients p) a = Some c" using a assms(2) by (simp add: filed_def)
    moreover obtain d where d: "gm_get cs a = Some d" using a c(2) by force
    ultimately have "d = c" using assms(1) by (simp add: building_def)
    with d show ?thesis by (auto dest: map_of_SomeD intro: rev_image_eqI)
  qed
  have "held cs \<union> held (p_clients p) - set ?old = held cs" using gone kept by blast
  moreover have "conns_inv (held cs \<union> held (p_clients p) - set ?old) (closeClients ?old n)"
    using assms(1) by (intro conns_inv_close) (auto simp: building_def)
  ultimately show ?thesis by simp
qed

lemma replaceMembership_inv:
  assumes inv: "picker_inv p n" and des: "distinct desired" "[] \<notin> set desired" "selfAddr p \<in> set desired"
    and rep: "replaceMembership dial desired p n = (q, n')"
  shows "picker_inv q n' \<and> set (p_members q) = set desired \<and> one_change p q"
proof (cases "sameMembers (p_members p) desired")
  case True
  with rep inv des show ?thesis
    by (auto simp: replaceMembership_def picker_inv_def members_inv_def sameMembers_iff one_change_def same_identity_def)
next
  case False
  then have diff: "set (p_members p) \<noteq> set desired"
    using inv des by (simp add: picker_inv_def members_inv_def sameMembers_iff)
  let ?ring = "snd (ring_Add (sort desired) (New [WithReplicas (hashReplicas p)]))"
  obtain cs n1 where bc: "buildClients dial p (sort desired) [] n = (cs, n1)" by fastforce
  let ?old = "map snd (filter (\<lambda>e. gm_get cs (fst e) = None) (p_clients p))"
  have q: "q = p\<lparr>p_members := desired, p_clients := cs, p_ring := ?ring, p_epoch := p_epoch p + 1\<rparr>"
    "n' = closeClients ?old n1"
    using rep False bc by (auto simp: replaceMembership_def Let_def)
  have b: "building p cs n1" "fst ` set cs \<subseteq> set desired - {selfAddr p}"
    using buildClients_building [OF bc] inv des building_init [of p n] by (auto simp: picker_inv_def)
  have rep: "0 < hashReplicas p" using inv by (simp add: picker_inv_def members_inv_def)
  have ring: "ring_inv ?ring \<and> config ?ring = DefaultConfig\<lparr>Replicas := hashReplicas p\<rparr> \<and> set (nodes ?ring) = set desired"
    using New_ring [OF rep] ring.changes [of "New [WithReplicas (hashReplicas p)]"] des(2) by auto
  have "conns_inv (held cs) n'" unfolding q by (rule building_close [OF b(1)]) (use inv in \<open>simp add: picker_inv_def\<close>)
  then show ?thesis
    using q(1) b ring des rep diff by (simp add: picker_inv_def members_inv_def building_def one_change_def same_identity_def)
qed

lemma refreshSnapshot_inv:
  assumes "picker_inv p n" "refreshSnapshot dial resp p n = (r, q, n')"
  shows "picker_inv q n' \<and> one_change p q"
proof (cases resp)
  case (Inl err)
  with assms show ?thesis by (auto simp: refreshSnapshot_def one_change_def same_identity_def)
next
  case (Inr b)
  have "distinct (desiredMembers (svcName p) [selfAddr p] (fst b))" by (rule desiredMembers_distinct) simp
  moreover have "[] \<notin> set (desiredMembers (svcName p) [selfAddr p] (fst b))"
      "selfAddr p \<in> set (desiredMembers (svcName p) [selfAddr p] (fst b))"
    using assms(1) by (auto simp: desiredMembers_set picker_inv_def members_inv_def)
  ultimately show ?thesis
    using assms(2) Inr replaceMembership_inv [OF assms(1)]
    by (cases b) (auto simp: refreshSnapshot_def split: prod.splits)
qed

lemma addMember_members:
  assumes inv: "members_inv p" and new: "addr \<noteq> []" "addr \<notin> set (p_members p)"
  shows "members_inv (p\<lparr>p_members := p_members p @ [addr], p_ring := snd (ring_Add [addr] (p_ring p))\<rparr>)"
  using inv new ring.changes [of "p_ring p"] by (auto simp: members_inv_def)

lemma addMember_inv:
  assumes inv: "picker_inv p n" and add: "addMember dial addr p n = (q, n')"
  shows "picker_inv q n' \<and> set (p_members q) = set (p_members p) \<union> ({addr} - {[]}) \<and> one_change p q"
proof (cases "addr = [] \<or> addr \<in> set (p_members p)")
  case True
  then have "q = p" "n' = n" using add by (auto simp: addMember_def split: if_splits)
  with True inv show ?thesis by (auto simp: one_change_def same_identity_def)
next
  case False
  then have new: "addr \<noteq> []" "addr \<notin> set (p_members p)" by auto
  let ?p = "p\<lparr>p_members := p_members p @ [addr], p_ring := snd (ring_Add [addr] (p_ring p))\<rparr>"
  have m: "members_inv ?p" using inv addMember_members [OF _ new] by (simp add: picker_inv_def)
  have key: "addr \<notin> fst ` set (p_clients p)" "addr \<noteq> selfAddr p"
    using inv new by (auto simp: picker_inv_def members_inv_def)
  have cl: "filed (p_clients p)" "conns_inv (held (p_clients p)) n"
      "fst ` set (p_clients p) \<subseteq> set (p_members p) - {selfAddr p}"
    using inv by (simp_all add: picker_inv_def)
  show ?thesis
  proof (rule openClient_cases [of dial "rpcTO p" addr n])
    assume "openClient dial (rpcTO p) addr n = (None, n)"
    then have "q = ?p\<lparr>p_epoch := p_epoch p + 1\<rparr>" "n' = n"
      using add new key by (auto simp: addMember_def Let_def)
    with m cl new show ?thesis by (auto simp: picker_inv_def members_inv_def one_change_def same_identity_def)
  next
    fix c
    let ?n = "n\<lparr>nextConn := Suc (nextConn n), openConns := openConns n @ [nextConn n]\<rparr>"
    assume c: "openClient dial (rpcTO p) addr n = (Some c, ?n)" "c_addr c = addr" "c_conn c = nextConn n"
    then have q: "q = ?p\<lparr>p_clients := gm_put addr c (p_clients p), p_epoch := p_epoch p + 1\<rparr>" "n' = ?n"
      using add new key by (auto simp: addMember_def Let_def)
    have "conns_inv (held (gm_put addr c (p_clients p))) ?n"
      unfolding held_put [OF key(1)] by (rule conns_inv_open [OF cl(2) c(3)])
    with m cl new key c(2) q show ?thesis
      by (auto simp: picker_inv_def members_inv_def one_change_def same_identity_def filed_put gomap_simps)
  qed
qed

lemma removeMember_inv:
  assumes inv: "picker_inv p n" and rem: "removeMember addr p n = (q, n')"
  shows "picker_inv q n' \<and> set (p_members q) = set (p_members p) - ({addr} - {selfAddr p}) \<and> one_change p q"
proof (cases "addr = [] \<or> addr = selfAddr p \<or> addr \<notin> set (p_members p)")
  case True
  then have "q = p" "n' = n" using rem by (auto simp: removeMember_def split: if_splits)
  with True inv show ?thesis by (auto simp: one_change_def same_identity_def picker_inv_def members_inv_def)
next
  case False
  let ?n = "case gm_get (p_clients p) addr of Some c \<Rightarrow> closeClients [c] n | None \<Rightarrow> n"
  have q: "q = p\<lparr>p_members := filter (\<lambda>a. a \<noteq> addr) (p_members p), p_ring := snd (ring_Remove addr (p_ring p)),
      p_clients := gm_del addr (p_clients p), p_epoch := p_epoch p + 1\<rparr>" "n' = ?n"
    using rem False by (auto simp: removeMember_def Let_def)
  have m: "members_inv q" using inv False ring.changes [of "p_ring p"] by (auto simp: q picker_inv_def members_inv_def)
  have cl: "filed (p_clients p)" "conns_inv (held (p_clients p)) n" using inv by (simp_all add: picker_inv_def)
  have "conns_inv (held (gm_del addr (p_clients p))) ?n"
  proof (cases "gm_get (p_clients p) addr")
    case None
    then have "gm_del addr (p_clients p) = p_clients p" by (simp add: AList.delete_idem map_of_eq_None_iff)
    with cl(2) None show ?thesis by simp
  next
    case (Some c)
    then have "c \<in> held (p_clients p)" by (auto dest: map_of_SomeD intro: rev_image_eqI)
    with conns_inv_close [OF cl(2), of "[c]"] Some show ?thesis by (simp add: held_del [OF cl(1) Some])
  qed
  then show ?thesis
    using m cl inv False by (auto simp: picker_inv_def q filed_del gomap_simps one_change_def same_identity_def)
qed

lemma handleEvent_inv:
  assumes "picker_inv p n" "handleEvent dial ev p n = (q, n')"
  shows "picker_inv q n' \<and> one_change p q"
proof (cases ev)
  case (PutEvent k v)
  with assms addMember_inv [OF assms(1)] show ?thesis by (simp add: handleEvent_def)
next
  case (DeleteEvent k prev)
  with assms removeMember_inv [OF assms(1)] show ?thesis by (simp add: handleEvent_def Let_def)
qed

lemma Picker_Close_inv:
  assumes "picker_inv p n" "Picker_Close timeout closeErrs etcdErr p n = (e, q, n')"
  shows "picker_inv q n' \<and> (\<not> p_closeOnce p \<longrightarrow> openConns n' = [] \<and> p_clients q = [])"
proof (cases "p_closeOnce p")
  case False
  let ?cs = "map snd (p_clients p)"
  have q: "q = p\<lparr>p_closeOnce := True, p_cancelled := True, p_clients := [], etcdOpen := False\<rparr>" "n' = closeClients ?cs n"
    using assms(2) False by (auto simp: Picker_Close_def Let_def)
  have "conns_inv (held (p_clients p) - set ?cs) n'"
    unfolding q by (rule conns_inv_close) (use assms(1) in \<open>auto simp: picker_inv_def\<close>)
  with assms(1) show ?thesis by (simp add: q(1) picker_inv_def members_inv_def filed_def conns_inv_def)
qed (use assms in \<open>simp add: Picker_Close_def\<close>)

section \<open>Construction\<close>

definition picker_options :: "PickerOption set" where
  "picker_options = range WithServiceName \<union> range WithPickerEtcdEndpoints \<union> range WithPickerDialTimeout \<union>
     range WithPeerRPCTimeout \<union> range WithHashReplicas"

definition fresh_picker :: "string \<Rightarrow> ClientPicker \<Rightarrow> bool" where
  "fresh_picker self p \<longleftrightarrow> selfAddr p = self \<and> p_members p = [] \<and> p_clients p = [] \<and> nodes (p_ring p) = [] \<and>
     ring_inv (p_ring p) \<and> 0 < hashReplicas p \<and> config (p_ring p) = DefaultConfig\<lparr>Replicas := hashReplicas p\<rparr>"

lemma fresh_picker_option: "opt \<in> picker_options \<Longrightarrow> fresh_picker self p \<Longrightarrow> fresh_picker self (opt p)"
  unfolding picker_options_def
  by (auto simp: fresh_picker_def WithServiceName_def WithPickerEtcdEndpoints_def WithPickerDialTimeout_def
      WithPeerRPCTimeout_def WithHashReplicas_def New_ring)

lemma fresh_picker_options:
  "set opts \<subseteq> picker_options \<Longrightarrow> fresh_picker self p \<Longrightarrow> fresh_picker self (foldl (\<lambda>p opt. opt p) p opts)"
  by (induction opts arbitrary: p) (auto simp: fresh_picker_option)

lemma NormalizeAddress_not_Nil: "NormalizeAddress ifs a = Inr b \<Longrightarrow> b \<noteq> []"
  by (erule NormalizeAddress_Inr) (simp add: JoinHostPort_def)

lemma fresh_picker_start:
  assumes "fresh_picker self p" "self \<noteq> []"
  shows "members_inv (p\<lparr>etcdOpen := True, p_members := [selfAddr p],
    p_ring := snd (ring_Add [selfAddr p] (p_ring p)), p_epoch := 1\<rparr>)"
  using assms ring.changes [of "p_ring p"] by (auto simp: fresh_picker_def members_inv_def)

lemma NewClientPicker_inv:
  assumes new: "NewClientPicker ifs dial etcd resp addr opts n0 = Inr (p, rv, n)"
    and opts: "set opts \<subseteq> picker_options" and n0: "openConns n0 = []"
  shows "picker_inv p n \<and> NormalizeAddress ifs addr = Inr (selfAddr p)"
proof -
  obtain self where self: "NormalizeAddress ifs addr = Inr self"
    using new by (auto simp: NewClientPicker_def split: sum.splits)
  define q where "q = foldl (\<lambda>p opt. opt p)
    \<lparr>selfAddr = self, svcName = defaultSvcName, p_ring = New [], p_members = [], p_clients = [],
     p_endpoints = Endpoints DefaultRegistryConfig, dialTO = RegistryConfig.DialTimeout DefaultRegistryConfig,
     rpcTO = 3 * second, hashReplicas = Replicas DefaultConfig, p_epoch = 0,
     p_cancelled = False, p_closeOnce = False, etcdOpen = False\<rparr> opts"
  have fresh: "fresh_picker self q"
    unfolding q_def by (rule fresh_picker_options [OF opts])
      (simp add: fresh_picker_def New_def ring_inv_def ring_points_def DefaultConfig_def)
  let ?q = "q\<lparr>etcdOpen := True, p_members := [selfAddr q], p_ring := snd (ring_Add [selfAddr q] (p_ring q)), p_epoch := 1\<rparr>"
  have "picker_inv ?q n0"
    using fresh_picker_start [OF fresh NormalizeAddress_not_Nil [OF self]] fresh n0
    by (simp add: picker_inv_def fresh_picker_def filed_def conns_inv_def)
  moreover have "\<exists>r. refreshSnapshot dial resp ?q n0 = (r, p, n)"
    using new self by (auto simp: NewClientPicker_def q_def Let_def split: option.splits prod.splits sum.splits)
  ultimately have "picker_inv p n \<and> one_change ?q p" using refreshSnapshot_inv by blast
  with fresh self show ?thesis by (simp add: fresh_picker_def one_change_def same_identity_def)
qed

section \<open>Histories of a picker\<close>

inductive picker_step :: "ClientPicker \<Rightarrow> net \<Rightarrow> ClientPicker \<Rightarrow> net \<Rightarrow> bool" where
  refresh: "refreshSnapshot dial resp p n = (r, q, n') \<Longrightarrow> picker_step p n q n'"
| event: "handleEvent dial ev p n = (q, n') \<Longrightarrow> picker_step p n q n'"
| close: "Picker_Close timeout closeErrs etcdErr p n = (e, q, n') \<Longrightarrow> picker_step p n q n'"

inductive picker_reachable :: "ClientPicker \<Rightarrow> net \<Rightarrow> bool" where
  new: "\<lbrakk>NewClientPicker ifs dial etcd resp addr opts n0 = Inr (p, rv, n); set opts \<subseteq> picker_options;
    openConns n0 = []\<rbrakk> \<Longrightarrow> picker_reachable p n"
| step: "picker_reachable p n \<Longrightarrow> picker_step p n q n' \<Longrightarrow> picker_reachable q n'"

lemma picker_step_inv: "picker_step p n q n' \<Longrightarrow> picker_inv p n \<Longrightarrow> picker_inv q n'"
proof (induction rule: picker_step.induct)
  case (close timeout closeErrs etcdErr p n e q n')
  then show ?case using Picker_Close_inv [of p n] by simp
qed (use refreshSnapshot_inv handleEvent_inv in blast)+

lemma picker_reachable_picker_inv: "picker_reachable p n \<Longrightarrow> picker_inv p n"
  by (induction rule: picker_reachable.induct) (use NewClientPicker_inv picker_step_inv in blast)+

lemma PickOwner_owner:
  assumes "members_inv p"
  shows "fst (PickOwner key p) = owner_of (DefaultConfig\<lparr>Replicas := hashReplicas p\<rparr>) (set (p_members p)) key"
  using assms by (auto simp: PickOwner_def members_inv_def ring.get_owner Let_def)

lemma picker_step_change:
  assumes "picker_step p n q n'" "picker_inv p n"
  shows "same_identity p q \<and> (if p_epoch q = p_epoch p then set (p_members q) = set (p_members p)
    else set (p_members q) \<noteq> set (p_members p) \<and> p_epoch q = p_epoch p + 1)"
  using assms(1)
proof cases
  case (refresh dial resp r)
  with refreshSnapshot_inv [OF assms(2)] show ?thesis by (fastforce simp: one_change_def)
next
  case (event dial ev)
  with handleEvent_inv [OF assms(2)] show ?thesis by (fastforce simp: one_change_def)
next
  case (close timeout closeErrs etcdErr e)
  then show ?thesis by (auto simp: Picker_Close_def Let_def same_identity_def split: if_splits)
qed

section \<open>Properties\<close>

text \<open>C27. In every state a picker can reach, the ring holds exactly the members, the node itself is a
  member, every client belongs to another member and is filed under its address, and the open
  connections are exactly those of the clients: none leaks and none in use is closed.\<close>

theorem picker_reachable_inv:
  assumes "picker_reachable p n"
  shows "picker_inv p n"
  by (rule picker_reachable_picker_inv [OF assms])

lemma pickers_agree_owner:
  assumes "picker_reachable p n" "picker_reachable q n'" "hashReplicas p = hashReplicas q"
    "set (p_members p) = set (p_members q)" "key \<noteq> []"
  shows "\<exists>owner \<in> set (p_members p). fst (PickOwner key p) = owner \<and> fst (PickOwner key q) = owner \<and>
    (fst (snd (snd (PickOwner key p))) \<longleftrightarrow> owner = selfAddr p) \<and>
    (fst (snd (snd (PickOwner key q))) \<longleftrightarrow> owner = selfAddr q)"
proof -
  have inv: "members_inv p" "members_inv q"
    using assms(1,2) picker_reachable_picker_inv by (auto simp: picker_inv_def)
  let ?owner = "owner_of (DefaultConfig\<lparr>Replicas := hashReplicas p\<rparr>) (set (p_members p)) key"
  have own: "?owner \<noteq> []"
    by (rule owner_of_nonempty) (use inv assms(5) in \<open>auto simp: members_inv_def\<close>)
  then have mem: "?owner \<in> set (p_members p)" by (intro ring.owner_member) simp_all
  have "fst (PickOwner key p) = ?owner" "fst (PickOwner key q) = ?owner"
    using PickOwner_owner [OF inv(1)] PickOwner_owner [OF inv(2)] assms(3,4) by simp_all
  then show ?thesis
    using own mem by (intro bexI [of _ ?owner]) (auto simp: PickOwner_def Let_def split: if_splits)
qed

text \<open>C10. Pickers that see the same members agree on the owner of every key; the owner is a member, and
  only the picker of the owner says that the owner is itself.\<close>

theorem pickers_agree:
  assumes "picker_reachable p n" "picker_reachable q n'" "hashReplicas p = hashReplicas q"
    "set (p_members p) = set (p_members q)" "key \<noteq> []"
  shows "\<exists>owner \<in> set (p_members p). fst (PickOwner key p) = owner \<and> fst (PickOwner key q) = owner \<and>
    (fst (snd (snd (PickOwner key p))) \<longleftrightarrow> owner = selfAddr p) \<and>
    (fst (snd (snd (PickOwner key q))) \<longleftrightarrow> owner = selfAddr q)"
  by (rule pickers_agree_owner [OF assms])

text \<open>C28. The epoch advances by one exactly when the members change; while it stays, every key keeps its
  owner.\<close>

theorem epoch_tracks_members:
  assumes "picker_reachable p n" "picker_step p n q n'"
  shows "(p_epoch q = p_epoch p + 1 \<longleftrightarrow> set (p_members q) \<noteq> set (p_members p)) \<and>
    (p_epoch q = p_epoch p \<longrightarrow> fst (PickOwner key q) = fst (PickOwner key p))"
proof -
  have inv: "picker_inv p n" by (rule picker_reachable_picker_inv [OF assms(1)])
  have inv': "picker_inv q n'" by (rule picker_step_inv [OF assms(2) inv])
  show ?thesis
    using picker_step_change [OF assms(2) inv] PickOwner_owner [of p key] PickOwner_owner [of q key] inv inv'
    by (auto simp: picker_inv_def same_identity_def split: if_splits)
qed

section \<open>The registry and the watch\<close>

text \<open>
  The part of the etcd store under the service prefix, as \<^verbatim>\<open>Register\<close> writes it: an address under the
  key of that address.
\<close>

definition registered :: "string \<Rightarrow> string \<times> string \<Rightarrow> bool" where
  "registered svc kv \<longleftrightarrow> snd kv \<noteq> [] \<and> fst kv = ServiceKey svc (snd kv)"

fun service_event :: "string \<Rightarrow> event \<Rightarrow> bool" where
  "service_event svc (PutEvent k v) = registered svc (k, v)"
| "service_event svc (DeleteEvent k prev) = (\<exists>a. a \<noteq> [] \<and> k = ServiceKey svc a)"

fun apply_event :: "(string, string) gomap \<Rightarrow> event \<Rightarrow> (string, string) gomap" where
  "apply_event reg (PutEvent k v) = gm_put k v reg"
| "apply_event reg (DeleteEvent k prev) = gm_del k reg"

definition reg_ok :: "string \<Rightarrow> (string, string) gomap \<Rightarrow> bool" where
  "reg_ok svc reg \<longleftrightarrow> gm_ok reg \<and> (\<forall>kv\<in>set reg. registered svc kv)"

abbreviation addrs :: "(string, string) gomap \<Rightarrow> string set" where
  "addrs reg \<equiv> snd ` set reg"

lemma parseAddrFromKey_ServiceKey [simp]: "parseAddrFromKey (ServiceKey svc a) svc = a"
  by (simp add: parseAddrFromKey_def ServiceKey_def Let_def)

lemma ServiceKey_inj [simp]: "ServiceKey svc a = ServiceKey svc b \<longleftrightarrow> a = b"
  by (simp add: ServiceKey_def)

lemma kv_addr_registered: "registered svc kv \<Longrightarrow> kv_addr svc kv = snd kv"
  by (simp add: registered_def kv_addr_def)

lemma set_gm_put: "gm_ok m \<Longrightarrow> set (gm_put k v m) = insert (k, v) {e \<in> set m. fst e \<noteq> k}"
  by (induction m) (auto simp: image_iff)

lemma apply_event_ok: "reg_ok svc reg \<Longrightarrow> service_event svc ev \<Longrightarrow> reg_ok svc (apply_event reg ev)"
  by (cases ev) (auto simp: reg_ok_def set_gm_put set_gm_del gomap_simps)

lemma apply_event_addrs:
  assumes "reg_ok svc reg" "service_event svc ev"
  shows "addrs (apply_event reg ev) =
    (case ev of PutEvent k v \<Rightarrow> insert v (addrs reg) | DeleteEvent k prev \<Rightarrow> addrs reg - {parseAddrFromKey k svc})"
proof (cases ev)
  case (PutEvent k v)
  then have k: "k = ServiceKey svc v" using assms(2) by (simp add: registered_def)
  have "snd e = v" if "e \<in> set reg" "fst e = k" for e
    using that assms(1) k by (auto simp: reg_ok_def registered_def)
  moreover have "set (gm_put k v reg) = insert (k, v) {e \<in> set reg. fst e \<noteq> k}"
    using assms(1) by (intro set_gm_put) (simp add: reg_ok_def)
  ultimately show ?thesis using PutEvent by (auto intro: rev_image_eqI)
next
  case (DeleteEvent k prev)
  then obtain a where a: "k = ServiceKey svc a" using assms(2) by auto
  have "fst e = k \<longleftrightarrow> snd e = a" if "e \<in> set reg" for e
    using that assms(1) a by (auto simp: reg_ok_def registered_def)
  then have "{e \<in> set reg. fst e \<noteq> k} = {e \<in> set reg. snd e \<noteq> a}" by blast
  then show ?thesis using DeleteEvent a by (auto simp: set_gm_del)
qed

definition tracks :: "ClientPicker \<Rightarrow> (string, string) gomap \<Rightarrow> bool" where
  "tracks p reg \<longleftrightarrow> reg_ok (svcName p) reg \<and> set (p_members p) = insert (selfAddr p) (addrs reg)"

lemma tracks_event:
  assumes inv: "picker_inv p n" and tr: "tracks p reg" and ev: "service_event (svcName p) ev"
    and h: "handleEvent dial ev p n = (q, n')"
  shows "tracks q (apply_event reg ev)"
proof -
  have reg: "reg_ok (svcName p) reg" using tr by (simp add: tracks_def)
  have same: "same_identity p q" using handleEvent_inv [OF inv h] by (simp add: one_change_def)
  have "set (p_members q) = insert (selfAddr p) (addrs (apply_event reg ev))"
  proof (cases ev)
    case (PutEvent k v)
    then have "addMember dial v p n = (q, n')" "v \<noteq> []"
      using h ev by (auto simp: handleEvent_def kv_addr_registered registered_def)
    then show ?thesis
      using addMember_inv [OF inv] tr apply_event_addrs [OF reg ev] PutEvent by (auto simp: tracks_def)
  next
    case (DeleteEvent k prev)
    then obtain a where a: "a \<noteq> []" "k = ServiceKey (svcName p) a" using ev by auto
    then have "removeMember a p n = (q, n')" using h DeleteEvent by (simp add: handleEvent_def)
    then show ?thesis
      using removeMember_inv [OF inv] tr apply_event_addrs [OF reg ev] DeleteEvent a by (auto simp: tracks_def)
  qed
  then show ?thesis using same apply_event_ok [OF reg ev] by (simp add: tracks_def same_identity_def)
qed

lemma tracks_events:
  assumes "picker_inv p n" "tracks p reg" "list_all (service_event (svcName p)) es"
    "foldl (\<lambda>(p, n) ev. handleEvent dial ev p n) (p, n) es = (q, n')"
  shows "picker_inv q n' \<and> tracks q (foldl apply_event reg es) \<and> same_identity p q"
  using assms
proof (induction es arbitrary: p n reg)
  case Nil
  then show ?case by (simp add: same_identity_def)
next
  case (Cons ev es)
  obtain p1 n1 where h: "handleEvent dial ev p n = (p1, n1)" by fastforce
  have p1: "picker_inv p1 n1" "same_identity p p1" "tracks p1 (apply_event reg ev)"
    using handleEvent_inv [OF Cons.prems(1) h] tracks_event [OF Cons.prems(1,2) _ h] Cons.prems(3)
    by (auto simp: one_change_def)
  have "list_all (service_event (svcName p1)) es" using Cons.prems(3) p1(2) by (simp add: same_identity_def)
  with Cons.IH [OF p1(1,3)] Cons.prems(4) h p1(2) show ?case by (auto intro: same_identity_trans)
qed

fun seen :: "watch_resp list \<Rightarrow> (event list \<times> int) list" where
  "seen (WatchEvents es r # rs) = (es, r) # seen rs"
| "seen _ = []"

lemma watchChannel_tracks:
  assumes "picker_inv p n" "tracks p reg" "\<forall>(es, r)\<in>set (seen rs). list_all (service_event (svcName p)) es"
    "watchChannel dial rs rv p n = (rv', failed, q, n')"
  shows "picker_inv q n' \<and> tracks q (foldl apply_event reg (concat (map fst (seen rs)))) \<and> same_identity p q \<and>
    rv \<le> rv' \<and> (\<forall>(es, r)\<in>set (seen rs). r < rv')"
  using assms
proof (induction dial rs rv p n arbitrary: reg rule: watchChannel.induct)
  case (3 dial es revision rs rv p n)
  obtain p1 n1 where h: "foldl (\<lambda>(p, n) ev. handleEvent dial ev p n) (p, n) es = (p1, n1)" by fastforce
  let ?rv = "if rv \<le> revision then revision + 1 else rv"
  have p1: "picker_inv p1 n1" "tracks p1 (foldl apply_event reg es)" "same_identity p p1"
    using tracks_events [OF "3.prems"(1,2) _ h] "3.prems"(3) by auto
  have "\<forall>(es, r)\<in>set (seen rs). list_all (service_event (svcName p1)) es"
    using "3.prems"(3) p1(3) by (auto simp: same_identity_def)
  then have "picker_inv q n' \<and> tracks q (foldl apply_event (foldl apply_event reg es) (concat (map fst (seen rs)))) \<and>
      same_identity p1 q \<and> ?rv \<le> rv' \<and> (\<forall>(es, r)\<in>set (seen rs). r < rv')"
    using "3.prems"(4) h p1 by (intro "3.IH" [OF h [symmetric] refl refl]) (auto simp: Let_def)
  then show ?case using same_identity_trans [OF p1(3)] by (auto split: if_splits)
qed (auto simp: same_identity_def)

lemma refreshSnapshot_tracks:
  assumes inv: "picker_inv p n" and ok: "reg_ok (svcName p) kvs"
    and r: "refreshSnapshot dial (Inr (kvs, r0)) p n = (Inr rv, q, n')"
  shows "picker_inv q n' \<and> tracks q kvs \<and> same_identity p q \<and> rv = r0 + 1"
proof -
  let ?d = "desiredMembers (svcName p) [selfAddr p] kvs"
  have rep: "replaceMembership dial ?d p n = (q, n')" "rv = r0 + 1" using r by (auto simp: refreshSnapshot_def)
  have "kv_addr (svcName p) ` set kvs = addrs kvs"
    by (rule image_cong) (use ok kv_addr_registered in \<open>auto simp: reg_ok_def\<close>)
  moreover have nonempty: "[] \<notin> addrs kvs" using ok by (auto simp: reg_ok_def registered_def)
  ultimately have d: "set ?d = insert (selfAddr p) (addrs kvs)" by (simp add: desiredMembers_set)
  have "[] \<notin> set ?d" using d nonempty inv by (auto simp: picker_inv_def members_inv_def)
  then have "picker_inv q n' \<and> set (p_members q) = set ?d \<and> one_change p q"
    using replaceMembership_inv [OF inv _ _ _ rep(1)] desiredMembers_distinct [of "[selfAddr p]"] d by simp
  then show ?thesis using d ok rep(2) by (simp add: tracks_def one_change_def same_identity_def)
qed

text \<open>C11. The membership refines the service registry: after a snapshot and the events watched since, the
  members are the node itself and the addresses registered in the store the events produce, and
  the watch resumes after everything it has seen.\<close>

theorem watch_refines_registry:
  assumes "picker_reachable p n" "reg_ok (svcName p) kvs"
    "refreshSnapshot dial (Inr (kvs, r0)) p n = (Inr rv, p1, n1)"
    "\<forall>(es, r)\<in>set (seen rs). list_all (service_event (svcName p)) es"
    "watchChannel dial rs rv p1 n1 = (rv', failed, q, n2)"
  shows "set (p_members q) = insert (selfAddr q) (addrs (foldl apply_event kvs (concat (map fst (seen rs))))) \<and>
    r0 < rv' \<and> (\<forall>(es, r)\<in>set (seen rs). r < rv')"
proof -
  note p1 = refreshSnapshot_tracks [OF picker_reachable_picker_inv [OF assms(1)] assms(2,3)]
  have "\<forall>(es, r)\<in>set (seen rs). list_all (service_event (svcName p1)) es"
    using assms(4) p1 by (simp add: same_identity_def)
  with watchChannel_tracks [of p1 n1 kvs rs dial rv] p1 assms(5) show ?thesis by (simp add: tracks_def)
qed

text \<open>A member whose client could not be created still owns keys, and for these the picker returns a
  nil client inside a non-nil \<^verbatim>\<open>Peer\<close> value, which a comparison with nil does not detect.\<close>

lemma PickOwner_typed_nil:
  assumes "picker_reachable p n" "fst (PickOwner key p) \<notin> {[], selfAddr p}"
    "gm_get (p_clients p) (fst (PickOwner key p)) = None"
  shows "PickOwner key p = (fst (PickOwner key p), ClientPeer None, False, p_epoch p, True) \<and>
    ClientPeer None \<noteq> NilPeer"
  using assms by (auto simp: PickOwner_def Let_def split: if_splits)

section \<open>Instances\<close>

definition demo_picker :: "(string \<Rightarrow> error option) \<Rightarrow> string \<Rightarrow> string list \<Rightarrow> error + ClientPicker \<times> int \<times> net" where
  "demo_picker dial self others =
     NewClientPicker (Inr []) dial None (Inr (map (\<lambda>a. (ServiceKey ''locache'' a, a)) others, 5)) self
       [WithHashReplicas 2] \<lparr>nextConn = 0, openConns = []\<rparr>"

lemma demo_picker_reachable: "demo_picker dial self others = Inr (p, rv, n) \<Longrightarrow> picker_reachable p n"
  unfolding demo_picker_def by (erule picker_reachable.new) (simp_all add: picker_options_def)

lemma buildClients_failing:
  "\<forall>a. dial a \<noteq> None \<Longrightarrow> p_clients p = [] \<Longrightarrow> buildClients dial p ms acc n = (acc, n)"
proof (induction ms)
  case (Cons a ms)
  obtain err where "dial a = Some err" using Cons.prems(1) by blast
  then have "openClient dial (rpcTO p) a n = (None, n)" by (simp add: openClient_def NewClient_def Let_def)
  with Cons show ?case by simp
qed simp

lemma buildClients_complete:
  assumes "\<forall>a. dial a = None" "m \<in> dom (gm_get acc) \<or> m \<in> set ms \<and> m \<noteq> selfAddr p"
  shows "m \<in> dom (gm_get (fst (buildClients dial p ms acc n)))"
  using assms(2)
proof (induction ms arbitrary: acc n)
  case (Cons a ms)
  obtain c n' where c: "openClient dial (rpcTO p) a n = (Some c, n')"
    using assms(1) by (simp add: openClient_def NewClient_def Let_def)
  have put: "m \<in> dom (gm_get (gm_put a x acc)) \<or> m \<in> set ms \<and> m \<noteq> selfAddr p" if "a \<noteq> selfAddr p" for x
    using Cons.prems that by (auto simp: gomap_simps)
  show ?case
  proof (cases "a = selfAddr p")
    case True
    with Cons show ?thesis by auto
  next
    case False
    then show ?thesis
      using c Cons.IH [OF put] by (cases "gm_get (p_clients p) a") simp_all
  qed
qed simp

lemma demo_picker_two:
  fixes dial :: "string \<Rightarrow> error option"
  assumes "NormalizeAddress (Inr []) self = Inr self" "self \<noteq> other" "other \<noteq> []"
  obtains p n where "picker_reachable p n" "p_members p = [self, other]" "hashReplicas p = 2" "selfAddr p = self"
    "svcName p = ''locache''" "(\<forall>a. dial a \<noteq> None) \<longrightarrow> p_clients p = []"
    "(\<forall>a. dial a = None) \<longrightarrow> other \<in> dom (gm_get (p_clients p))"
proof -
  obtain p rv n where p: "demo_picker dial self [other] = Inr (p, rv, n)" "p_members p = [self, other]" "hashReplicas p = 2"
    "selfAddr p = self" "svcName p = ''locache''" "(\<forall>a. dial a \<noteq> None) \<longrightarrow> p_clients p = []"
    "(\<forall>a. dial a = None) \<longrightarrow> other \<in> dom (gm_get (p_clients p))"
    using assms by (simp add: buildClients_complete demo_picker_def NewClientPicker_def refreshSnapshot_def replaceMembership_def sameMembers_def
      WithHashReplicas_def kv_addr_def Let_def case_prod_beta defaultSvcName_def buildClients_failing)
  show ?thesis by (rule that [OF demo_picker_reachable [OF p(1)] p(2-7)])
qed

lemma demo_addresses: "NormalizeAddress (Inr []) ''a:1'' = Inr ''a:1''" "NormalizeAddress (Inr []) ''b:1'' = Inr ''b:1''"
  by code_simp+

theorem picker_reachable_inv_witness:
  "\<exists>p n. p_members p = [''a:1'', ''b:1''] \<and> picker_inv p n"
proof (rule demo_picker_two [OF demo_addresses(1), of "''b:1''" "\<lambda>_. None"])
  fix p n assume "picker_reachable p n" "p_members p = [''a:1'', ''b:1'']"
  then show ?thesis using picker_reachable_inv by blast
qed simp_all

theorem pickers_agree_witness:
  "\<exists>p q. selfAddr p = ''a:1'' \<and> selfAddr q = ''b:1'' \<and> fst (PickOwner ''k'' p) = fst (PickOwner ''k'' q) \<and>
     fst (PickOwner ''k'' p) \<in> {''a:1'', ''b:1''}"
proof (rule demo_picker_two [OF demo_addresses(1), of "''b:1''" "\<lambda>_. None"],
    rule_tac [3] demo_picker_two [OF demo_addresses(2), of "''a:1''" "\<lambda>_. None"])
  fix p n q n'
  assume p: "picker_reachable p n" "p_members p = [''a:1'', ''b:1'']" "hashReplicas p = 2" "selfAddr p = ''a:1''"
    and q: "picker_reachable q n'" "p_members q = [''b:1'', ''a:1'']" "hashReplicas q = 2" "selfAddr q = ''b:1''"
  have "set (p_members p) = set (p_members q)" using p q by auto
  with pickers_agree [OF p(1) q(1), of "''k''"] p q
  have "fst (PickOwner ''k'' p) = fst (PickOwner ''k'' q) \<and> fst (PickOwner ''k'' p) \<in> {''a:1'', ''b:1''}" by auto
  with p(4) q(4) show ?thesis by blast
qed simp_all

theorem epoch_tracks_members_witness:
  "\<exists>(p :: ClientPicker) (q :: ClientPicker). p_members p = [''a:1'', ''b:1''] \<and> p_members q = [''a:1''] \<and> p_epoch q = p_epoch p + 1"
proof (rule demo_picker_two [OF demo_addresses(1), of "''b:1''" "\<lambda>_. None"])
  fix p n
  assume p: "picker_reachable p n" "p_members p = [''a:1'', ''b:1'']" "selfAddr p = ''a:1''" "svcName p = ''locache''"
  let ?ev = "DeleteEvent (ServiceKey ''locache'' ''b:1'') None"
  obtain q n' where q: "handleEvent (\<lambda>_. None) ?ev p n = (q, n')" by fastforce
  then have m: "p_members q = [''a:1'']" using p by (auto simp: handleEvent_def removeMember_def Let_def)
  have "p_epoch q = p_epoch p + 1"
    using epoch_tracks_members [OF p(1) picker_step.event [OF q], of "''k''"] m p(2) by auto
  with m p(2) show ?thesis by blast
qed simp_all

theorem watch_refines_registry_witness:
  "\<exists>q :: ClientPicker. selfAddr q = ''a:1'' \<and> set (p_members q) = {''a:1'', ''c:1''}"
proof (rule demo_picker_two [OF demo_addresses(1), of "''b:1''" "\<lambda>_. None"])
  fix p n
  assume p: "picker_reachable p n" "selfAddr p = ''a:1''" "svcName p = ''locache''"
  let ?kvs = "[(ServiceKey ''locache'' ''b:1'', ''b:1'')]"
  let ?rs = "[WatchEvents [PutEvent (ServiceKey ''locache'' ''c:1'') ''c:1''] 8,
    WatchEvents [DeleteEvent (ServiceKey ''locache'' ''b:1'') None] 9]"
  obtain p1 n1 where r: "refreshSnapshot (\<lambda>_. None) (Inr (?kvs, 7)) p n = (Inr 8, p1, n1)"
    by (fastforce simp: refreshSnapshot_def)
  obtain rv' failed q n2 where w: "watchChannel (\<lambda>_. None) ?rs 8 p1 n1 = (rv', failed, q, n2)"
    by (metis prod.exhaust)
  have ok: "reg_ok (svcName p) ?kvs" using p(3) by (simp add: reg_ok_def registered_def)
  have evs: "\<forall>(es, r)\<in>set (seen ?rs). list_all (service_event (svcName p)) es" using p(3) by (auto simp: registered_def)
  note res = watch_refines_registry [OF p(1) ok r evs w]
  have "selfAddr q = ''a:1''"
    using refreshSnapshot_tracks [OF picker_reachable_picker_inv [OF p(1)] ok r]
      watchChannel_tracks [OF _ _ _ w, of ?kvs] evs p(2) by (simp add: same_identity_def)
  moreover from this res have "set (p_members q) = {''a:1'', ''c:1''}" by (auto simp: ServiceKey_def)
  ultimately show ?thesis by blast
qed simp_all

end
