(* ===== verification/Group_Correct.thy ===== *)
theory Group_Correct
  imports Group Peers_Correct
begin

text \<open>
  Correctness of the local operations of a group: the life of key mutation states under any
  interleaving, what a read, a write and a deletion at the owner do, and that a load from the source never
  overrides a mutation that overlaps it. Then groups without peers, the bound on near copies, and two
  situations in which the distributed operations go wrong.
\<close>

section \<open>Key mutation states\<close>

lemma update_state_simps [simp]:
  "keyStates (update_state i f g) = keyStates g" "length (stateHeap (update_state i f g)) = length (stateHeap g)"
  "stateHeap (update_state i f g) = (stateHeap g)[i := f (stateHeap g ! i)]"
  by (simp_all add: update_state_def)

lemma acquireKeyState_cases:
  obtains (held) i where "gm_get (keyStates g) key = Some i"
      "acquireKeyState key g = (i, update_state i (\<lambda>st. st\<lparr>refs := refs st + 1\<rparr>) g)"
  | (new) "gm_get (keyStates g) key = None"
      "acquireKeyState key g = (length (stateHeap g),
         g\<lparr>stateHeap := stateHeap g @ [\<lparr>generation = 0, refs = 1\<rparr>],
           keyStates := gm_put key (length (stateHeap g)) (keyStates g)\<rparr>)"
  by (cases "gm_get (keyStates g) key") (auto simp: acquireKeyState_def update_state_def Let_def)

text \<open>
  A group with the states its callers hold. Callers acquire, mutate and release in any order, and the
  group changes elsewhere at any time.
\<close>

type_synonym holders = "(string \<times> nat) multiset"

inductive ks_step :: "Group \<times> holders \<Rightarrow> Group \<times> holders \<Rightarrow> bool" where
  acquire: "acquireKeyState key g = (i, g') \<Longrightarrow> ks_step (g, H) (g', add_mset (key, i) H)"
| mutate: "(key, i) \<in># H \<Longrightarrow> ks_step (g, H) (bump i g, H)"
| release: "(key, i) \<in># H \<Longrightarrow> ks_step (g, H) (releaseKeyState key i g, H - {#(key, i)#})"
| other: "keyStates g' = keyStates g \<Longrightarrow> stateHeap g' = stateHeap g \<Longrightarrow> ks_step (g, H) (g', H)"

inductive ks_reachable :: "Group \<times> holders \<Rightarrow> bool" where
  init: "keyStates g = [] \<Longrightarrow> stateHeap g = [] \<Longrightarrow> ks_reachable (g, {#})"
| step: "ks_reachable s \<Longrightarrow> ks_step s s' \<Longrightarrow> ks_reachable s'"

inductive_cases ks_stepE: "ks_step (g, H) (g', H')"

abbreviation holding :: "nat \<Rightarrow> holders \<Rightarrow> nat" where
  "holding i H \<equiv> size (filter_mset (\<lambda>e. snd e = i) H)"

definition ks_inv :: "Group \<Rightarrow> holders \<Rightarrow> bool" where
  "ks_inv g H \<longleftrightarrow> gm_ok (keyStates g) \<and>
     (\<forall>key i. gm_get (keyStates g) key = Some i \<longleftrightarrow> (key, i) \<in># H) \<and>
     (\<forall>key i. (key, i) \<in># H \<longrightarrow> i < length (stateHeap g)) \<and>
     (\<forall>i < length (stateHeap g). refs (stateHeap g ! i) = int (holding i H)) \<and>
     (\<forall>k k' i. (k, i) \<in># H \<longrightarrow> (k', i) \<in># H \<longrightarrow> k = k')"

lemma ks_invD:
  assumes "ks_inv g H"
  shows "gm_ok (keyStates g)" "gm_get (keyStates g) key = Some i \<longleftrightarrow> (key, i) \<in># H"
    "(key, i) \<in># H \<Longrightarrow> i < length (stateHeap g)"
    "i < length (stateHeap g) \<Longrightarrow> refs (stateHeap g ! i) = int (holding i H)"
    "(k, i) \<in># H \<Longrightarrow> (k', i) \<in># H \<Longrightarrow> k = k'"
  using assms unfolding ks_inv_def by blast+

lemma holding_zero: "holding i H = 0 \<longleftrightarrow> (\<forall>key. (key, i) \<notin># H)"
  by (auto simp: multiset_eq_iff count_eq_zero_iff)

lemma ks_inv_acquire:
  assumes inv: "ks_inv g H" and acq: "acquireKeyState key g = (i, g')"
  shows "ks_inv g' (add_mset (key, i) H)"
proof (cases rule: acquireKeyState_cases [of g key])
  case (held j)
  with acq have g': "g' = update_state i (\<lambda>st. st\<lparr>refs := refs st + 1\<rparr>) g" and "j = i" by auto
  with held ks_invD(2) [OF inv] have "(key, i) \<in># H" by simp
  with ks_invD [OF inv] g' show ?thesis
    unfolding ks_inv_def by (auto simp: nth_list_update)
next
  case new
  with acq have i: "i = length (stateHeap g)"
    and g': "g' = g\<lparr>stateHeap := stateHeap g @ [\<lparr>generation = 0, refs = 1\<rparr>], keyStates := gm_put key i (keyStates g)\<rparr>"
    by auto
  have fresh: "(k, i) \<notin># H" "(key, j) \<notin># H" for k j
    using ks_invD(2) [OF inv, of key j] ks_invD(3) [OF inv, of k i] new(1) i by auto
  then have "holding i H = 0" by (simp only: holding_zero) simp
  with fresh ks_invD [OF inv] i g' show ?thesis
    unfolding ks_inv_def by (auto simp: gomap_simps nth_append less_Suc_eq)
qed

lemma ks_inv_release:
  assumes inv: "ks_inv g H" and held: "(key, i) \<in># H"
  shows "ks_inv (releaseKeyState key i g) (H - {#(key, i)#})"
proof -
  let ?H = "H - {#(key, i)#}"
  obtain H' where H: "H = add_mset (key, i) H'" using held by (metis insert_DiffM)
  have i: "i < length (stateHeap g)" using ks_invD(3) [OF inv held] .
  have cnt: "refs (stateHeap g ! i) - 1 = int (holding i H')"
    using ks_invD(4) [OF inv i] by (simp add: H)
  have mine: "k = key" if "(k, i) \<in># H'" for k
    using ks_invD(5) [OF inv, of k i key] that held by (simp add: H)
  have get: "gm_get (keyStates g) key = Some i" using ks_invD(2) [OF inv] held by simp
  have rest: "(\<forall>k j. (k, j) \<in># H' \<longrightarrow> j < length (stateHeap g)) \<and>
     (\<forall>k k' j. (k, j) \<in># H' \<longrightarrow> (k', j) \<in># H' \<longrightarrow> k = k')"
    using ks_invD(3,5) [OF inv] by (simp add: H) blast
  have refs': "\<forall>j < length (stateHeap g).
      refs ((stateHeap g)[i := (stateHeap g ! i)\<lparr>refs := refs (stateHeap g ! i) - 1\<rparr>] ! j) = int (holding j H')"
    using cnt ks_invD(4) [OF inv] i by (auto simp: nth_list_update H)
  show ?thesis
  proof (cases "holding i H' = 0")
    case True
    then have "(k, i) \<notin># H'" for k by (simp only: holding_zero) simp
    moreover have "j = i" if "(key, j) \<in># H'" for j
      using ks_invD(2) [OF inv, of key j] get that by (simp add: H)
    ultimately have "\<forall>k j. gm_get (gm_del key (keyStates g)) k = Some j \<longleftrightarrow> (k, j) \<in># H'"
      using ks_invD(2) [OF inv] by (auto simp: gomap_simps H)
    moreover have "releaseKeyState key i g =
        (update_state i (\<lambda>st. st\<lparr>refs := refs st - 1\<rparr>) g)\<lparr>keyStates := gm_del key (keyStates g)\<rparr>"
      using True cnt i get by (simp add: releaseKeyState_def Let_def)
    ultimately show ?thesis
      using rest refs' ks_invD(1) [OF inv] unfolding ks_inv_def by (simp add: H gomap_simps)
  next
    case False
    then have "(key, i) \<in># H'" using mine by (simp only: holding_zero) blast
    then have "\<forall>k j. gm_get (keyStates g) k = Some j \<longleftrightarrow> (k, j) \<in># H'"
      using ks_invD(2) [OF inv] by (auto simp: H)
    moreover have "releaseKeyState key i g = update_state i (\<lambda>st. st\<lparr>refs := refs st - 1\<rparr>) g"
      using False cnt i by (simp add: releaseKeyState_def Let_def del: size_eq_0_iff_empty)
    ultimately show ?thesis
      using rest refs' ks_invD(1) [OF inv] unfolding ks_inv_def by (simp add: H)
  qed
qed

lemma ks_inv_step: "ks_step (g, H) (g', H') \<Longrightarrow> ks_inv g H \<Longrightarrow> ks_inv g' H'"
proof (erule ks_stepE)
  fix key i
  assume a: "g' = bump i g" "H' = H" "(key, i) \<in># H" and inv: "ks_inv g H"
  then have "i < length (stateHeap g)" using ks_invD(3) by blast
  with a inv show "ks_inv g' H'" unfolding ks_inv_def bump_def by (auto simp: nth_list_update)
next
  assume "keyStates g' = keyStates g" "stateHeap g' = stateHeap g" "H' = H" "ks_inv g H"
  then show "ks_inv g' H'" by (simp add: ks_inv_def)
qed (auto intro: ks_inv_acquire ks_inv_release)

lemma ks_reachable_inv: "ks_reachable (g, H) \<Longrightarrow> ks_inv g H"
proof (induction "(g, H)" arbitrary: g H rule: ks_reachable.induct)
  case (step s)
  obtain g0 H0 where "s = (g0, H0)" by fastforce
  with step show ?case by (blast intro: ks_inv_step)
qed (simp add: ks_inv_def)

text \<open>
  C15. Callers that use a key at the same time share one mutation state, and callers of different keys
  never do. The reference count of a state is the number of its holders, and the map has an entry for
  exactly the keys in use, so that it does not grow with the keys ever seen.
\<close>

theorem keyStates_shared:
  assumes "ks_reachable (g, H)"
  shows "((k, i) \<in># H \<longrightarrow> (k', j) \<in># H \<longrightarrow> (i = j \<longleftrightarrow> k = k')) \<and>
    fst ` set (keyStates g) = fst ` set_mset H \<and>
    ((k, i) \<in># H \<longrightarrow> refs (stateHeap g ! i) = int (holding i H))"
proof -
  note inv = ks_reachable_inv [OF assms]
  have "fst ` set (keyStates g) = dom (gm_get (keyStates g))" by (simp add: dom_map_of_conv_image_fst)
  also have "\<dots> = fst ` set_mset H" using ks_invD(2) [OF inv] by (force simp: dom_def image_iff)
  finally show ?thesis
    using ks_invD(2) [OF inv] ks_invD(5) [OF inv] ks_invD(4) [OF inv] ks_invD(3) [OF inv]
    by (metis option.inject)
qed

section \<open>The owner of a key\<close>

text \<open>
  A group serves a key itself when it has no picker, or when its picker names it the owner in a fixed
  epoch.
\<close>

definition owns :: "('w, 'm) lenv_scheme \<Rightarrow> string \<Rightarrow> uint64 \<Rightarrow> Group \<Rightarrow> bool" where
  "owns env key epoch g \<longleftrightarrow>
     (if g_peers g
      then (\<exists>owner peer. owner \<noteq> [] \<and> (\<forall>s. e_PickOwner env key s = ((owner, peer, True, epoch, True), s))) \<and>
        (\<forall>s. e_Epoch env s = (epoch, s))
      else epoch = 0)"

text \<open>What \<^verbatim>\<open>prepareLocalOwner\<close> makes of the group.\<close>

definition claim :: "uint64 \<Rightarrow> Group \<Rightarrow> Group" where
  "claim epoch g =
     (if \<not> g_peers g \<or> ownerEpoch g = epoch then g
      else g\<lparr>ownerEpoch := epoch, mainCache := (if ownerEpoch g = 0 then mainCache g else Cache_Clear (mainCache g))\<rparr>)"

lemma prepare_owns: "owns env key epoch g \<Longrightarrow> prepareLocalOwner env key (g, w) = (Inr epoch, claim epoch g, w)"
  by (auto simp: owns_def prepareLocalOwner_def claim_def split: if_splits)

definition near_dropped :: "uint64 \<Rightarrow> string \<Rightarrow> Group \<Rightarrow> Cache option" where
  "near_dropped epoch key g = (if g_peers g then snd (Cache_Delete (nearKey epoch key) (nearCache g)) else nearCache g)"

lemma invalidateNearKey_eq:
  assumes "g_peers g \<Longrightarrow> \<forall>s. e_Epoch env s = (epoch, s)"
  shows "invalidateNearKey env key (g, w) = (g\<lparr>nearCache := near_dropped epoch key g\<rparr>, w)"
  using assms by (auto simp: invalidateNearKey_def near_dropped_def Cache_Delete_def)

lemma near_owns: "owns env key epoch g \<Longrightarrow> invalidateNearKey env key (g, w) = (g\<lparr>nearCache := near_dropped epoch key g\<rparr>, w)"
  by (rule invalidateNearKey_eq) (simp add: owns_def)

text \<open>
  Two readings of the clock in a row are less than a TTL apart; otherwise a value expires before it is
  stored.
\<close>

definition prompt :: "('w, 'm) lenv_scheme \<Rightarrow> Group \<Rightarrow> bool" where
  "prompt env g \<longleftrightarrow>
     (0 < expiration g \<longrightarrow> (\<forall>w t w1 t' w2. e_now env w = (t, w1) \<longrightarrow> e_now env w1 = (t', w2) \<longrightarrow> t' < t + expiration g))"

text \<open>A value stored at any moment is still alive at the times \<open>X\<close>.\<close>

definition outlives :: "('w, 'm) lenv_scheme \<Rightarrow> Group \<Rightarrow> time set \<Rightarrow> bool" where
  "outlives env g X \<longleftrightarrow>
     (0 < expiration g \<longrightarrow> (\<forall>w t w1 t0 w2 t1 w3 t2 w4. e_now env w = (t, w1) \<longrightarrow> e_now env w1 = (t0, w2) \<longrightarrow>
        e_now env w2 = (t1, w3) \<longrightarrow> e_now env w3 = (t2, w4) \<longrightarrow> (\<forall>x\<in>insert t2 X. x < t1 + (t + expiration g - t0))))"

lemma addOwnerValue_effect:
  assumes "cache_inv (mainCache g)" "prompt env g"
  obtains c w' where "addOwnerValue env key v (g, w) = (g\<lparr>mainCache := c\<rparr>, w')" "cache_inv c"
    "\<And>t. cache_view c t key \<in> {None, Some v}" "\<And>t k. k \<noteq> key \<Longrightarrow> cache_view c t k \<in> {None, cache_view (mainCache g) t k}"
    "expiration g \<le> 0 \<Longrightarrow> cache_room (mainCache g) key v \<Longrightarrow> (\<forall>t. cache_view c t key = Some v)"
    "\<And>X. outlives env g X \<Longrightarrow> cache_room (mainCache g) key v \<Longrightarrow> (\<forall>t\<in>X. cache_view c t key = Some v)"
proof (cases "0 < expiration g")
  case True
  obtain t w1 t0 w2 t1 w3 t2 w4 where e: "e_now env w = (t, w1)" "e_now env w1 = (t0, w2)"
    "e_now env w2 = (t1, w3)" "e_now env w3 = (t2, w4)" by (metis surj_pair)
  let ?c = "Cache_AddWithExpiration t0 t1 t2 key v (t + expiration g) (mainCache g)"
  have p: "t0 < t + expiration g" using assms(2) True e unfolding prompt_def by blast
  with assms(1) have "cache_view ?c x key \<in> {None, Some v}" for x
    using view_AddWithExpiration_same [of "mainCache g" t0 t1 t2 key v "t + expiration g" x] by simp
  moreover have "\<forall>x\<in>X. cache_view ?c x key = Some v" if "outlives env g X" "cache_room (mainCache g) key v" for X
  proof -
    have "\<forall>x\<in>insert t2 X. x < t1 + (t + expiration g - t0)" using that(1) True e unfolding outlives_def by blast
    then show ?thesis by (auto intro!: view_AddWithExpiration_room [OF assms(1) that(2) p])
  qed
  ultimately show ?thesis
    using True e assms(1) by (intro that [of ?c w4])
      (auto simp: addOwnerValue_def add_for_def cache_inv_ops dest: view_AddWithExpiration_other [OF assms(1)])
next
  case False
  obtain t1 w1 t2 w2 where e: "e_now env w = (t1, w1)" "e_now env w1 = (t2, w2)" by (metis surj_pair)
  show ?thesis
    using False e assms(1) by (intro that [of "Cache_Add t1 t2 key v (mainCache g)" w2])
      (use view_Add_same [OF assms(1)] view_Add_other [OF assms(1)] in
        \<open>auto simp: addOwnerValue_def cache_inv_ops view_Add_room\<close>)
qed

section \<open>Local mutations\<close>

text \<open>A write or an eviction at the owner.\<close>

fun mutate :: "('w, 'm) lenv_scheme \<Rightarrow> string \<Rightarrow> bytes option \<Rightarrow> Group \<times> 'w \<Rightarrow> Group \<times> 'w" where
  "mutate env key (Some v) s = snd (setLocal env key v s)"
| "mutate env key None s = snd (deleteLocal env key s)"

text \<open>Somebody holds the mutation state \<open>i\<close> of the key.\<close>

definition held :: "string \<Rightarrow> nat \<Rightarrow> Group \<Rightarrow> bool" where
  "held key i g \<longleftrightarrow> gm_get (keyStates g) key = Some i \<and> i < length (stateHeap g) \<and> 0 < refs (stateHeap g ! i)"

text \<open>The group with other caches and \<open>n\<close> more mutations of the state \<open>i\<close>.\<close>

definition advanced :: "nat \<Rightarrow> nat \<Rightarrow> Cache option \<Rightarrow> Cache option \<Rightarrow> Group \<Rightarrow> Group" where
  "advanced i n c c' g = g\<lparr>mainCache := c, nearCache := c',
     stateHeap := (stateHeap g)[i := (stateHeap g ! i)\<lparr>generation := generation (stateHeap g ! i) + of_nat n\<rparr>]\<rparr>"

lemma advanced_simps [simp]:
  "mainCache (advanced i n c c' g) = c" "nearCache (advanced i n c c' g) = c'"
  "g_closed (advanced i n c c' g) = g_closed g" "g_peers (advanced i n c c' g) = g_peers g"
  "g_getter (advanced i n c c' g) = g_getter g" "expiration (advanced i n c c' g) = expiration g"
  "loader (advanced i n c c' g) = loader g" "ownerEpoch (advanced i n c c' g) = ownerEpoch g"
  "keyStates (advanced i n c c' g) = keyStates g" "g_stats (advanced i n c c' g) = g_stats g"
  "owns env key epoch (advanced i n c c' g) = owns env key epoch g"
  "prompt env (advanced i n c c' g) = prompt env g"
  by (simp_all add: advanced_def owns_def prompt_def)

lemma held_advanced [simp]: "held key i (advanced i n c c' g) = held key i g"
  by (auto simp: held_def advanced_def nth_list_update)

lemma advanced_advanced: "i < length (stateHeap g) \<Longrightarrow> advanced i n c c' (advanced i m d d' g) = advanced i (m + n) c c' g"
  by (simp add: advanced_def algebra_simps)

lemma acquire_held:
  "held key i g \<Longrightarrow> acquireKeyState key g = (i, g\<lparr>stateHeap := (stateHeap g)[i := (stateHeap g ! i)\<lparr>refs := refs (stateHeap g ! i) + 1\<rparr>]\<rparr>)"
  by (auto simp: held_def acquireKeyState_def update_state_def)

lemma mutation_held:
  assumes "held key i g" "acquireKeyState key g = (i, g')"
  shows "releaseKeyState key i ((bump i g')\<lparr>mainCache := c, nearCache := c'\<rparr>) = advanced i 1 c c' g"
  using assms acquire_held [OF assms(1)]
  by (auto simp: held_def releaseKeyState_def bump_def update_state_def advanced_def Let_def)

lemma mutate_held:
  assumes "held key i g" "\<not> g_closed g" "owns env key epoch g" "g_peers g \<longrightarrow> ownerEpoch g = epoch"
    "cache_inv (mainCache g)" "prompt env g"
  obtains c c' w' where "mutate env key m (g, w) = (advanced i 1 c c' g, w')" "cache_inv c"
    "\<And>t. cache_view c t key \<in> {None, m}" "\<And>t k. k \<noteq> key \<Longrightarrow> cache_view c t k \<in> {None, cache_view (mainCache g) t k}"
proof -
  obtain g' where acq: "acquireKeyState key g = (i, g')" and g': "g' = g\<lparr>stateHeap := stateHeap g'\<rparr>"
    using acquire_held [OF assms(1)] by auto
  have cl: "claim epoch g = g" using assms(4) by (simp add: claim_def)
  have b: "bump i g' = g\<lparr>stateHeap := stateHeap (bump i g')\<rparr>"
    by (subst g') (simp add: bump_def update_state_def)
  have eqs: "mainCache (bump i g') = mainCache g" "nearCache (bump i g') = nearCache g"
    "owns env key epoch (bump i g')" "prompt env (bump i g')"
    using assms(3,6) by (subst b, simp add: owns_def prompt_def)+
  show thesis
  proof (cases m)
    case (Some v)
    obtain c w1 where c: "addOwnerValue env key v (bump i g', w) = ((bump i g')\<lparr>mainCache := c\<rparr>, w1)"
      "cache_inv c" "\<And>t. cache_view c t key \<in> {None, Some v}"
      "\<And>t k. k \<noteq> key \<Longrightarrow> cache_view c t k \<in> {None, cache_view (mainCache g) t k}"
      using addOwnerValue_effect [of "bump i g'" env key v w] eqs assms(5) by metis
    obtain c' where "invalidateNearKey env key ((bump i g')\<lparr>mainCache := c\<rparr>, w1) = ((bump i g')\<lparr>mainCache := c, nearCache := c'\<rparr>, w1)"
      using near_owns [of env key epoch "(bump i g')\<lparr>mainCache := c\<rparr>" w1] eqs by (auto simp: owns_def)
    then show thesis
      using c assms(2) prepare_owns [OF assms(3)] acq mutation_held [OF assms(1) acq, where c = c and c' = c'] Some
      by (intro that [of c c' w1]) (auto simp: setLocal_def cl)
  next
    case None
    obtain c' where "invalidateNearKey env key ((bump i g')\<lparr>mainCache := snd (Cache_Delete key (mainCache g))\<rparr>, w) =
        ((bump i g')\<lparr>mainCache := snd (Cache_Delete key (mainCache g)), nearCache := c'\<rparr>, w)"
      using near_owns [of env key epoch "(bump i g')\<lparr>mainCache := snd (Cache_Delete key (mainCache g))\<rparr>" w] eqs by (auto simp: owns_def)
    then show thesis
      using assms(5) acq mutation_held [OF assms(1) acq, where c = "snd (Cache_Delete key (mainCache g))" and c' = c'] None
      by (intro that [of "snd (Cache_Delete key (mainCache g))" c' w])
        (auto simp: deleteLocal_def eqs case_prod_beta Let_def cache_inv_ops view_Delete)
  qed
qed

abbreviation mutations :: "('w, 'm) lenv_scheme \<Rightarrow> string \<Rightarrow> bytes option list \<Rightarrow> Group \<times> 'w \<Rightarrow> Group \<times> 'w" where
  "mutations env key ms s \<equiv> foldl (\<lambda>s m. mutate env key m s) s ms"

lemma mutations_held:
  assumes "held key i g" "\<not> g_closed g" "owns env key epoch g" "g_peers g \<longrightarrow> ownerEpoch g = epoch"
    "cache_inv (mainCache g)" "prompt env g"
  shows "\<exists>c c' w'. mutations env key ms (g, w) = (advanced i (length ms) c c' g, w') \<and> cache_inv c \<and>
    (ms = [] \<longrightarrow> c = mainCache g) \<and> (ms \<noteq> [] \<longrightarrow> (\<forall>t. cache_view c t key \<in> {None, last ms})) \<and>
    (\<forall>t k. k \<noteq> key \<longrightarrow> cache_view c t k \<in> {None, cache_view (mainCache g) t k})"
proof (induction ms rule: rev_induct)
  case Nil
  show ?case using assms(5) by (intro exI [of _ "mainCache g"] exI [of _ "nearCache g"]) (simp add: advanced_def)
next
  case (snoc m ms)
  then obtain c c' w' where ms: "mutations env key ms (g, w) = (advanced i (length ms) c c' g, w')" "cache_inv c"
    "\<And>t k. k \<noteq> key \<Longrightarrow> cache_view c t k \<in> {None, cache_view (mainCache g) t k}" by blast
  let ?g = "advanced i (length ms) c c' g"
  have pre: "held key i ?g" "\<not> g_closed ?g" "owns env key epoch ?g" "g_peers ?g \<longrightarrow> ownerEpoch ?g = epoch"
    "cache_inv (mainCache ?g)" "prompt env ?g" using assms ms(2) by simp_all
  obtain d d' w'' where d: "mutate env key m (?g, w') = (advanced i 1 d d' ?g, w'')"
    "cache_inv d" "\<And>t. cache_view d t key \<in> {None, m}" "\<And>t k. k \<noteq> key \<Longrightarrow> cache_view d t k \<in> {None, cache_view (mainCache ?g) t k}"
    by (rule mutate_held [OF pre, of m w']) (rule that)
  have "cache_view d t k \<in> {None, cache_view (mainCache g) t k}" if "k \<noteq> key" for t k
    using d(4) [OF that, of t] ms(3) [OF that, of t] by auto
  then show ?case using d(1-3) ms(1) assms(1) by (auto simp: advanced_advanced held_def)
qed

section \<open>Loading from the source\<close>

lemma view_Get_any:
  assumes "cache_inv c"
  shows "cache_view (snd (Cache_Get now k c)) t k' \<in> {None, cache_view c t k'}"
proof (cases c)
  case (Some c')
  obtain r s where g: "store_Get now k (cstore c') = (r, s)" by fastforce
  then have "store_content s k' \<in> {None, store_content (cstore c') k'}"
    using st.get_content [of "cstore c'" now k k'] assms Some by simp
  with g show ?thesis by (auto simp: Some Cache_Get_def split: option.split Value.split)
qed (simp add: Cache_Get_def)

lemma main_Get_effect:
  assumes "cache_inv (mainCache g)"
  obtains t c w' where "main_Get env key (g, w) = (cache_view (mainCache g) t key, g\<lparr>mainCache := c\<rparr>, w')" "cache_inv c"
    "\<And>x k. cache_view c x k \<in> {None, cache_view (mainCache g) x k}"
    "\<And>k v. cache_room (mainCache g) k v \<Longrightarrow> cache_room c k v" "w' = snd (e_now env w)"
    "t = fst (e_now env w)"
proof -
  obtain t w' where e: "e_now env w = (t, w')" by fastforce
  obtain r c where r: "Cache_Get t key (mainCache g) = (r, c)" by fastforce
  then have "r = cache_view (mainCache g) t key" "cache_inv c" using Cache_Get_view [OF assms, of t key] cache_inv_ops(3) [OF assms, of t key] by simp_all
  with e r show thesis
    using view_Get_any [OF assms, of t key] cache_room_ops(1) [OF assms, of _ _ t key]
    by (intro that [of t c w']) (simp_all add: main_Get_def)
qed

lemma near_Get_effect:
  assumes "cache_inv (nearCache g)"
  obtains t c w' where "near_Get env key (g, w) = (cache_view (nearCache g) t key, g\<lparr>nearCache := c\<rparr>, w')" "cache_inv c"
    "\<And>x k. cache_view c x k \<in> {None, cache_view (nearCache g) x k}" "w' = snd (e_now env w)"
proof -
  obtain t w' where e: "e_now env w = (t, w')" by fastforce
  obtain r c where r: "Cache_Get t key (nearCache g) = (r, c)" by fastforce
  then have "r = cache_view (nearCache g) t key" "cache_inv c" using Cache_Get_view [OF assms, of t key] cache_inv_ops(3) [OF assms, of t key] by simp_all
  with e r show thesis
    using view_Get_any [OF assms, of t key] by (intro that [of t c w']) (simp_all add: near_Get_def)
qed

lemma add_near_effect:
  assumes "cache_inv (nearCache g)"
  obtains c w' where "add_near env key v (g, w) = (g\<lparr>nearCache := c\<rparr>, w')" "cache_inv c"
    "\<And>t. cache_view c t key \<in> {None, Some v, cache_view (nearCache g) t key}"
    "w' = ((\<lambda>w. snd (e_now env w)) ^^ 4) w"
proof -
  obtain t w1 t0 w2 t1 w3 t2 w4 where e: "e_now env w = (t, w1)" "e_now env w1 = (t0, w2)"
    "e_now env w2 = (t1, w3)" "e_now env w3 = (t2, w4)" by (metis surj_pair)
  let ?c = "Cache_AddWithExpiration t0 t1 t2 key v (t + nearTTL g) (nearCache g)"
  have "cache_view ?c x key \<in> {None, Some v, cache_view (nearCache g) x key}" for x
    using view_AddWithExpiration_same [OF assms, of t0 t1 t2 key v "t + nearTTL g" x] by (auto split: if_splits)
  with e assms show thesis
    by (intro that [of ?c w4]) (simp_all add: add_near_def add_for_def cache_inv_ops eval_nat_numeral)
qed

text \<open>What a load answers after the mutations \<open>ms\<close> that overlapped it.\<close>

fun load_answer :: "bytes \<Rightarrow> bytes option list \<Rightarrow> (bytes, error, string) outcome set" where
  "load_answer v [] = {Return (Some v) None}"
| "load_answer v ms = {Return None (Some (Sentinel ErrCacheMiss))} \<union>
     (case last ms of Some v' \<Rightarrow> {Return (Some v') None} | None \<Rightarrow> {})"

text \<open>A load up to the test of the generation, with the mutations \<open>ms\<close> during the call of the getter.\<close>

lemma loadFn_run:
  assumes h: "held key i g" and g: "\<not> g_closed g" "owns env key epoch g" "g_peers g \<longrightarrow> ownerEpoch g = epoch"
    "cache_inv (mainCache g)" "prompt env g" and none: "\<And>t. cache_view (mainCache g) t key = None"
    and getter: "\<And>s. e_getter env key s = (Loaded v, mutations env key ms s)"
  obtains c c' st w' where "loadFn env key epoch i (g, w) =
     (if (of_nat (length ms) :: uint64) \<noteq> 0
      then (case main_Get env key ((advanced i (length ms) c c' g)\<lparr>g_stats := st\<rparr>, w') of
              (Some view, s) \<Rightarrow> (Return (Some view) None, s)
            | (None, s) \<Rightarrow> (Return None (Some (Sentinel ErrCacheMiss)), s))
      else (Return (Some v) None, addOwnerValue env key v ((advanced i (length ms) c c' g)\<lparr>g_stats := st\<rparr>, w')))"
    "cache_inv c" "sourceLoads st = sourceLoads (g_stats g) + 1"
    "ms \<noteq> [] \<Longrightarrow> \<forall>t. cache_view c t key \<in> {None, last ms}"
    "ms = [] \<Longrightarrow> cache_room (mainCache g) key v \<Longrightarrow> cache_room c key v"
    "\<And>t k. k \<noteq> key \<Longrightarrow> cache_view c t k \<in> {None, cache_view (mainCache g) t k}"
proof -
  obtain t c1 w1 where m: "main_Get env key (g, w) = (cache_view (mainCache g) t key, g\<lparr>mainCache := c1\<rparr>, w1)" "cache_inv c1"
    "\<And>x k. cache_view c1 x k \<in> {None, cache_view (mainCache g) x k}" "\<And>k v. cache_room (mainCache g) k v \<Longrightarrow> cache_room c1 k v"
    by (rule main_Get_effect [OF g(4), of env key w]) (rule that)
  obtain start w2 where e2: "e_now env w1 = (start, w2)" by fastforce
  let ?g1 = "g\<lparr>mainCache := c1, g_stats := (g_stats g)\<lparr>sourceLoads := sourceLoads (g_stats g) + 1\<rparr>\<rparr>"
  have g1: "held key i ?g1" "owns env key epoch ?g1" "prompt env ?g1"
    using h g by (simp_all add: held_def owns_def prompt_def)
  have "\<exists>c c' w'. mutations env key ms (?g1, w2) = (advanced i (length ms) c c' ?g1, w') \<and> cache_inv c \<and>
      (ms = [] \<longrightarrow> c = c1) \<and> (ms \<noteq> [] \<longrightarrow> (\<forall>t. cache_view c t key \<in> {None, last ms})) \<and>
      (\<forall>t k. k \<noteq> key \<longrightarrow> cache_view c t k \<in> {None, cache_view c1 t k})"
    using mutations_held [OF g1(1) _ g1(2) _ _ g1(3), of w2 ms] g m(2) by simp
  then obtain c c' w3 where ms: "mutations env key ms (?g1, w2) = (advanced i (length ms) c c' ?g1, w3)" "cache_inv c"
    "ms \<noteq> [] \<Longrightarrow> \<forall>t. cache_view c t key \<in> {None, last ms}" and c: "ms = [] \<Longrightarrow> c = c1"
    and rest: "\<And>t k. k \<noteq> key \<Longrightarrow> cache_view c t k \<in> {None, cache_view c1 t k}" by blast
  obtain stop w4 where e4: "e_now env w3 = (stop, w4)" by fastforce
  let ?st = "(g_stats ?g1)\<lparr>sourceDuration := sourceDuration (g_stats g) + word_of_int (stop - start)\<rparr>"
  let ?g2 = "(advanced i (length ms) c c' g)\<lparr>g_stats := ?st\<rparr>"
  have pick: "g_peers g \<Longrightarrow> \<exists>q p. e_PickOwner env key s = ((q, p, True, epoch, True), s)" for s
    using g(2) by (cases s) (auto simp: owns_def)
  have gen: "generation (stateHeap ?g2 ! i) = generation (stateHeap g ! i) + of_nat (length ms)"
    using h by (simp add: advanced_def held_def)
  have adv: "advanced i (length ms) c c' ?g1 = (advanced i (length ms) c c' g)\<lparr>g_stats := g_stats ?g1\<rparr>"
    by (simp add: advanced_def)
  have "loadFn env key epoch i (g, w) =
     (if generation (stateHeap ?g2 ! i) \<noteq> generation (stateHeap g ! i)
      then (case main_Get env key (?g2, w4) of
              (Some view, s) \<Rightarrow> (Return (Some view) None, s)
            | (None, s) \<Rightarrow> (Return None (Some (Sentinel ErrCacheMiss)), s))
      else (Return (Some v) None, addOwnerValue env key v (?g2, w4)))"
    using m(1) none e2 e4 ms(1) pick [of "(?g2, w4)"]
    by (auto simp: loadFn_def getter adv Let_def)
  then have run: "loadFn env key epoch i (g, w) =
     (if (of_nat (length ms) :: uint64) \<noteq> 0
      then (case main_Get env key (?g2, w4) of
              (Some view, s) \<Rightarrow> (Return (Some view) None, s)
            | (None, s) \<Rightarrow> (Return None (Some (Sentinel ErrCacheMiss)), s))
      else (Return (Some v) None, addOwnerValue env key v (?g2, w4)))"
    unfolding gen by simp
  have "cache_view c t k \<in> {None, cache_view (mainCache g) t k}" if "k \<noteq> key" for t k
    using rest [OF that, of t] m(3) [of t k] by auto
  with m(4) c show thesis by (intro that [OF run ms(2) _ ms(3)]) auto
qed

text \<open>The read that follows a mutation during the load.\<close>

lemma reread_effect:
  assumes "cache_inv (mainCache g)" "ms \<noteq> []" "\<forall>t. cache_view (mainCache g) t key \<in> {None, last ms}"
  obtains r c w' where "(case main_Get env key (g, w) of
      (Some view, s) \<Rightarrow> (Return (Some view) None, s)
    | (None, s) \<Rightarrow> (Return None (Some (Sentinel ErrCacheMiss)), s)) = (r, g\<lparr>mainCache := c\<rparr>, w')"
    "r \<in> load_answer v ms" "cache_inv c" "\<And>x k. cache_view c x k \<in> {None, cache_view (mainCache g) x k}"
proof -
  obtain x c w' where c: "main_Get env key (g, w) = (cache_view (mainCache g) x key, g\<lparr>mainCache := c\<rparr>, w')"
    "cache_inv c" "\<And>x k. cache_view c x k \<in> {None, cache_view (mainCache g) x k}"
    by (rule main_Get_effect [OF assms(1), of env key w]) (rule that)
  let ?r = "case cache_view (mainCache g) x key of
    Some v' \<Rightarrow> Return (Some v') None | None \<Rightarrow> Return None (Some (Sentinel ErrCacheMiss))"
  have "?r \<in> load_answer v ms"
    using spec [OF assms(3), of x] assms(2) by (cases ms; cases "cache_view (mainCache g) x key"; cases "last ms") auto
  with c show thesis by (intro that [of ?r c w']) (auto split: option.splits)
qed

lemma loadFn_effect:
  assumes h: "held key i g" and g: "\<not> g_closed g" "owns env key epoch g" "g_peers g \<longrightarrow> ownerEpoch g = epoch"
    "cache_inv (mainCache g)" "prompt env g" and none: "\<And>t. cache_view (mainCache g) t key = None"
    and getter: "\<And>s. e_getter env key s = (Loaded v, mutations env key ms s)" and small: "length ms < 2 ^ 64"
  obtains r c c' st w' where "loadFn env key epoch i (g, w) = (r, (advanced i (length ms) c c' g)\<lparr>g_stats := st\<rparr>, w')"
    "r \<in> load_answer v ms" "cache_inv c" "sourceLoads st = sourceLoads (g_stats g) + 1"
    "\<And>t. cache_view c t key \<in> {None, if ms = [] then Some v else last ms}"
    "ms = [] \<Longrightarrow> expiration g \<le> 0 \<Longrightarrow> cache_room (mainCache g) key v \<Longrightarrow> \<forall>t. cache_view c t key = Some v"
    "\<And>t k. k \<noteq> key \<Longrightarrow> cache_view c t k \<in> {None, cache_view (mainCache g) t k}"
proof (rule loadFn_run [OF h g none getter, of w])
  fix c2 c2' st w4
  let ?g2 = "(advanced i (length ms) c2 c2' g)\<lparr>g_stats := st\<rparr>"
  assume load: "loadFn env key epoch i (g, w) =
     (if (of_nat (length ms) :: uint64) \<noteq> 0
      then (case main_Get env key (?g2, w4) of
              (Some view, s) \<Rightarrow> (Return (Some view) None, s)
            | (None, s) \<Rightarrow> (Return None (Some (Sentinel ErrCacheMiss)), s))
      else (Return (Some v) None, addOwnerValue env key v (?g2, w4)))"
    and c2: "cache_inv c2" "sourceLoads st = sourceLoads (g_stats g) + 1" "ms \<noteq> [] \<Longrightarrow> \<forall>t. cache_view c2 t key \<in> {None, last ms}"
      "ms = [] \<Longrightarrow> cache_room (mainCache g) key v \<Longrightarrow> cache_room c2 key v"
    and rest: "\<And>t k. k \<noteq> key \<Longrightarrow> cache_view c2 t k \<in> {None, cache_view (mainCache g) t k}"
  have frame: "?g2\<lparr>mainCache := c\<rparr> = (advanced i (length ms) c c2' g)\<lparr>g_stats := st\<rparr>" for c by (simp add: advanced_def)
  show thesis
  proof (cases "ms = []")
    case True
    have pre: "cache_inv (mainCache ?g2)" "prompt env ?g2" using c2(1) g(5) by (simp_all add: prompt_def)
    obtain c w5 where add: "addOwnerValue env key v (?g2, w4) = (?g2\<lparr>mainCache := c\<rparr>, w5)" "cache_inv c"
      "\<And>t. cache_view c t key \<in> {None, Some v}"
      "expiration ?g2 \<le> 0 \<Longrightarrow> cache_room (mainCache ?g2) key v \<Longrightarrow> (\<forall>t. cache_view c t key = Some v)"
      and ot: "\<And>t k. k \<noteq> key \<Longrightarrow> cache_view c t k \<in> {None, cache_view (mainCache ?g2) t k}"
      by (rule addOwnerValue_effect [OF pre, of key v w4]) (rule that)
    have ot': "cache_view c t k \<in> {None, cache_view (mainCache g) t k}" if "k \<noteq> key" for t k
      using ot [OF that, of t] rest [OF that, of t] by auto
    show thesis
      using add True c2(2,4) load ot' unfolding frame
      by - (rule that [where r = "Return (Some v) None" and c = c and c' = c2' and st = st and w' = w5]; simp)
  next
    case False
    with small have "(of_nat (length ms) :: uint64) \<noteq> 0"
      by (auto simp: word_of_nat_eq_0_iff dest: dvd_imp_le)
    moreover have "cache_inv (mainCache ?g2)" "\<forall>t. cache_view (mainCache ?g2) t key \<in> {None, last ms}" using c2(1,3) False by simp_all
    then obtain r c w5 where r: "(case main_Get env key (?g2, w4) of
        (Some view, s) \<Rightarrow> (Return (Some view) None, s)
      | (None, s) \<Rightarrow> (Return None (Some (Sentinel ErrCacheMiss)), s)) = (r, ?g2\<lparr>mainCache := c\<rparr>, w5)"
      "r \<in> load_answer v ms" "cache_inv c" "\<And>x k. cache_view c x k \<in> {None, cache_view (mainCache ?g2) x k}"
      by (rule reread_effect [OF _ False, of ?g2 key env w4 v]) (rule that)
    ultimately have load': "loadFn env key epoch i (g, w) = (r, (advanced i (length ms) c c2' g)\<lparr>g_stats := st\<rparr>, w5)"
      using load r(1) unfolding frame by simp
    have "cache_view c t key \<in> {None, last ms}" for t using r(4) [of t key] spec [OF c2(3) [OF False], of t] by auto
    moreover have "cache_view c t k \<in> {None, cache_view (mainCache g) t k}" if "k \<noteq> key" for t k
      using r(4) [of t k] rest [OF that, of t] by auto
    ultimately show thesis using False by (intro that [OF load' r(2,3) c2(2)]) auto
  qed
qed

lemma loader_Do_lead:
  assumes "inflight (loader g) key = None" "fn (g\<lparr>loader := snd (Do_enter key (loader g))\<rparr>, w) = (r, g', w')"
    "loader g' = snd (Do_enter key (loader g))"
  obtains l where "loader_Do env key fn (g, w) = (r, g'\<lparr>loader := l\<rparr>, w')" "inflight l = inflight (loader g)"
proof -
  let ?c = "length (callHeap (loader g))"
  let ?l = "(loader g)\<lparr>callHeap := callHeap (loader g) @ [new_call\<lparr>wg := 1\<rparr>], sf_m := Some (gm_put key ?c (entries (loader g)))\<rparr>"
  have e: "Do_enter key (loader g) = (Running key ?c, ?l)"
    by (rule Do_enter_cases [of "loader g" key]) (use assms(1) in auto)
  let ?l' = "Do_done ?c (Do_remove key ?c (Do_fn ?c r ?l))"
  have "Do_result (callHeap ?l' ! ?c) = r"
    by (simp add: Do_done_result Do_fn_other Do_result_fn new_call_def)
  moreover have "inflight ?l' = inflight (loader g)"
    using assms(1) by (auto simp: fun_eq_iff Do_done_def Do_remove_def Do_fn_def gomap_simps)
  ultimately show thesis using e assms(2,3) by (intro that [of ?l']) (simp_all add: loader_Do_def Let_def)
qed

text \<open>Acquiring and releasing a state leaves everything else alone.\<close>

lemma acquire_frame:
  obtains i ks h where "acquireKeyState key g = (i, g\<lparr>keyStates := ks, stateHeap := h\<rparr>)"
proof -
  obtain i g' where a: "acquireKeyState key g = (i, g')" by fastforce
  have "g' = g\<lparr>keyStates := keyStates g', stateHeap := stateHeap g'\<rparr>"
    by (rule acquireKeyState_cases [of g key]) (use a in \<open>auto simp: update_state_def intro!: Group.Group.equality\<close>)
  with a show thesis by (intro that [where ks = "keyStates g'" and h = "stateHeap g'" and i = i]) simp
qed

lemma release_frame:
  obtains ks h where "releaseKeyState key i g = g\<lparr>keyStates := ks, stateHeap := h\<rparr>"
proof -
  let ?g = "releaseKeyState key i g"
  have "?g = g\<lparr>keyStates := keyStates ?g, stateHeap := stateHeap ?g\<rparr>"
    by (intro Group.Group.equality) (simp_all add: releaseKeyState_def update_state_def Let_def)
  then show thesis by (rule that)
qed

lemma release_simps [simp]:
  "mainCache (releaseKeyState key i g) = mainCache g" "nearCache (releaseKeyState key i g) = nearCache g"
  "g_closed (releaseKeyState key i g) = g_closed g" "g_peers (releaseKeyState key i g) = g_peers g"
  "g_getter (releaseKeyState key i g) = g_getter g" "expiration (releaseKeyState key i g) = expiration g"
  "loader (releaseKeyState key i g) = loader g" "ownerEpoch (releaseKeyState key i g) = ownerEpoch g"
  "g_stats (releaseKeyState key i g) = g_stats g" "g_name (releaseKeyState key i g) = g_name g"
  "nearTTL (releaseKeyState key i g) = nearTTL g"
  by (rule release_frame [of key i g], simp)+

definition keys_ok :: "Group \<Rightarrow> bool" where
  "keys_ok g \<longleftrightarrow> (\<forall>k i. gm_get (keyStates g) k = Some i \<longrightarrow> i < length (stateHeap g) \<and> 0 < refs (stateHeap g ! i))"

lemma acquire_gives_held:
  assumes "keys_ok g" "acquireKeyState key g = (i, g')"
  shows "held key i g'"
  by (rule acquireKeyState_cases [of g key])
    (use assms in \<open>auto simp: keys_ok_def held_def update_state_def gomap_simps intro: less_imp_le\<close>)

fun answer :: "(bytes, error, string) outcome \<Rightarrow> bytes result" where
  "answer (Return (Some v) None) = Ok v"
| "answer (Return v (Some err)) = Err err"
| "answer (Return None None) = Panicked ''interface conversion''"
| "answer (Panic p) = Panicked p"

lemma claim_simps [simp]:
  "g_closed (claim e g) = g_closed g" "g_peers (claim e g) = g_peers g" "g_getter (claim e g) = g_getter g"
  "expiration (claim e g) = expiration g" "loader (claim e g) = loader g" "keyStates (claim e g) = keyStates g"
  "stateHeap (claim e g) = stateHeap g" "g_stats (claim e g) = g_stats g" "nearCache (claim e g) = nearCache g"
  "g_name (claim e g) = g_name g" "nearTTL (claim e g) = nearTTL g"
  "owns env key e' (claim e g) = owns env key e' g" "prompt env (claim e g) = prompt env g" "keys_ok (claim e g) = keys_ok g"
  "g_peers g \<Longrightarrow> ownerEpoch (claim e g) = e"
  by (auto simp: claim_def owns_def prompt_def keys_ok_def)

lemma claim_cache:
  assumes "cache_inv (mainCache g)"
  shows "cache_inv (mainCache (claim e g))" "cache_view (mainCache (claim e g)) t k \<in> {None, cache_view (mainCache g) t k}"
    "cache_room (mainCache g) k v \<Longrightarrow> cache_room (mainCache (claim e g)) k v"
  using assms by (auto simp: claim_def cache_inv_ops view_Clear cache_room_ops)

lemma getLocal_load:
  assumes g: "\<not> g_closed g" "g_getter g" "owns env key epoch g" "prompt env g" "cache_inv (mainCache g)" "keys_ok g"
    and none: "\<And>t. cache_view (mainCache (claim epoch g)) t key = None" and alone: "inflight (loader g) key = None"
    and getter: "\<And>s. e_getter env key s = (Loaded v, mutations env key ms s)" and small: "length ms < 2 ^ 64"
  obtains r c c' st l ks h w' where
    "getLocal env key (g, w) = (answer r, (claim epoch g)\<lparr>mainCache := c, nearCache := c', g_stats := st, loader := l, keyStates := ks, stateHeap := h\<rparr>, w')"
    "r \<in> load_answer v ms" "cache_inv c" "sourceLoads st = sourceLoads (g_stats g) + 1" "inflight l = inflight (loader g)"
    "\<And>t. cache_view c t key \<in> {None, if ms = [] then Some v else last ms}"
    "ms = [] \<Longrightarrow> expiration g \<le> 0 \<Longrightarrow> cache_room (mainCache g) key v \<Longrightarrow> \<forall>t. cache_view c t key = Some v"
    "\<And>t k. k \<noteq> key \<Longrightarrow> cache_view c t k \<in> {None, cache_view (mainCache (claim epoch g)) t k}"
proof -
  let ?g = "claim epoch g"
  obtain i ks1 h1 where acq: "acquireKeyState key ?g = (i, ?g\<lparr>keyStates := ks1, stateHeap := h1\<rparr>)" by (rule acquire_frame)
  let ?g1 = "?g\<lparr>keyStates := ks1, stateHeap := h1\<rparr>"
  have pre: "cache_inv (mainCache ?g1)" using claim_cache [OF g(5)] by simp
  obtain t c1 w1 where m: "main_Get env key (?g1, w) = (cache_view (mainCache ?g1) t key, ?g1\<lparr>mainCache := c1\<rparr>, w1)"
    "cache_inv c1" "\<And>x k. cache_view c1 x k \<in> {None, cache_view (mainCache ?g1) x k}"
    "\<And>k v. cache_room (mainCache ?g1) k v \<Longrightarrow> cache_room c1 k v"
    by (rule main_Get_effect [OF pre, of env key w]) (rule that)
  have none1: "cache_view (mainCache ?g1) t key = None" for t
    using none by simp
  then have none2: "cache_view c1 t key = None" for t using m(3) [of t key] by simp
  let ?st = "(g_stats g)\<lparr>localMisses := localMisses (g_stats g) + 1\<rparr>" and ?l = "snd (Do_enter key (loader g))"
  let ?g2 = "?g1\<lparr>mainCache := c1, g_stats := ?st\<rparr>"
  have "held key i ?g1" using acquire_gives_held [OF _ acq] g(6) by simp
  then have g2: "held key i (?g2\<lparr>loader := ?l\<rparr>)" "\<not> g_closed (?g2\<lparr>loader := ?l\<rparr>)" "owns env key epoch (?g2\<lparr>loader := ?l\<rparr>)"
    "g_peers (?g2\<lparr>loader := ?l\<rparr>) \<longrightarrow> ownerEpoch (?g2\<lparr>loader := ?l\<rparr>) = epoch"
    "cache_inv (mainCache (?g2\<lparr>loader := ?l\<rparr>))" "prompt env (?g2\<lparr>loader := ?l\<rparr>)"
    "cache_view (mainCache (?g2\<lparr>loader := ?l\<rparr>)) t key = None" for t
    using g m(2) none2 by (simp_all add: held_def owns_def prompt_def)
  obtain r c c' st w' where L: "loadFn env key epoch i (?g2\<lparr>loader := ?l\<rparr>, w1) =
      (r, (advanced i (length ms) c c' (?g2\<lparr>loader := ?l\<rparr>))\<lparr>g_stats := st\<rparr>, w')"
    "r \<in> load_answer v ms" "cache_inv c" "sourceLoads st = sourceLoads (g_stats (?g2\<lparr>loader := ?l\<rparr>)) + 1"
    "\<And>t. cache_view c t key \<in> {None, if ms = [] then Some v else last ms}"
    "ms = [] \<Longrightarrow> expiration (?g2\<lparr>loader := ?l\<rparr>) \<le> 0 \<Longrightarrow> cache_room (mainCache (?g2\<lparr>loader := ?l\<rparr>)) key v \<Longrightarrow> \<forall>t. cache_view c t key = Some v"
    and ot: "\<And>t k. k \<noteq> key \<Longrightarrow> cache_view c t k \<in> {None, cache_view (mainCache (?g2\<lparr>loader := ?l\<rparr>)) t k}"
    by (rule loadFn_effect [OF g2 getter small, of w1]) (rule that)
  have ot': "cache_view c t k \<in> {None, cache_view (mainCache ?g) t k}" if "k \<noteq> key" for t k
    using ot [OF that, of t] m(3) [of t k] by auto
  let ?g3 = "(advanced i (length ms) c c' (?g2\<lparr>loader := ?l\<rparr>))\<lparr>g_stats := st\<rparr>"
  obtain l where l: "loader_Do env key (loadFn env key epoch i) (?g2, w1) = (r, ?g3\<lparr>loader := l\<rparr>, w')" "inflight l = inflight (loader g)"
    using loader_Do_lead [of ?g2 key "loadFn env key epoch i" w1 r ?g3 w' env] L(1) alone by auto
  obtain ks h where rel: "releaseKeyState key i (?g3\<lparr>loader := l\<rparr>) = ?g3\<lparr>loader := l, keyStates := ks, stateHeap := h\<rparr>"
    by (rule release_frame) (rule that)
  have "getLocal_owned env key epoch i (?g1, w) = (answer r, ?g3\<lparr>loader := l\<rparr>, w')"
    using m(1) none1 l(1) g(2) L(2)
    by (cases ms) (auto simp: getLocal_owned_def split: option.splits)
  then have "getLocal env key (g, w) = (answer r, releaseKeyState key i (?g3\<lparr>loader := l\<rparr>), w')"
    using g(1) acq by (simp add: getLocal_def prepare_owns [OF g(3)])
  moreover have "releaseKeyState key i (?g3\<lparr>loader := l\<rparr>) =
      ?g\<lparr>mainCache := c, nearCache := c', g_stats := st, loader := l, keyStates := ks, stateHeap := h\<rparr>"
    unfolding rel by (simp add: advanced_def)
  ultimately show thesis
    using L l(2) m(4) claim_cache(3) [OF g(5)] ot'
    by - (rule that [where r = r and c = c and c' = c' and st = st and l = l and ks = ks and h = h]; simp)
qed

lemma getLocal_hit:
  assumes g: "\<not> g_closed g" "owns env key epoch g" "g_peers g \<longrightarrow> ownerEpoch g = epoch" "cache_inv (mainCache g)"
    and hit: "cache_view (mainCache g) (fst (e_now env w)) key = Some v"
  obtains c st ks h w' where
    "getLocal env key (g, w) = (Ok v, g\<lparr>mainCache := c, g_stats := st, keyStates := ks, stateHeap := h\<rparr>, w')"
    "cache_inv c" "sourceLoads st = sourceLoads (g_stats g)" "w' = snd (e_now env w)"
    "\<And>t k. cache_view c t k \<in> {None, cache_view (mainCache g) t k}"
proof -
  have cl: "claim epoch g = g" using g(3) by (simp add: claim_def)
  obtain i ks1 h1 where acq: "acquireKeyState key g = (i, g\<lparr>keyStates := ks1, stateHeap := h1\<rparr>)" by (rule acquire_frame)
  let ?g1 = "g\<lparr>keyStates := ks1, stateHeap := h1\<rparr>"
  have pre: "cache_inv (mainCache ?g1)" using g(4) by simp
  obtain t c w1 where m: "main_Get env key (?g1, w) = (cache_view (mainCache ?g1) t key, ?g1\<lparr>mainCache := c\<rparr>, w1)" "cache_inv c"
    "w1 = snd (e_now env w)" "t = fst (e_now env w)" and views: "\<And>x k. cache_view c x k \<in> {None, cache_view (mainCache ?g1) x k}"
    by (rule main_Get_effect [OF pre, of env key w]) (rule that)
  let ?g2 = "?g1\<lparr>mainCache := c, g_stats := (g_stats g)\<lparr>localHits := localHits (g_stats g) + 1\<rparr>\<rparr>"
  obtain ks h where rel: "releaseKeyState key i ?g2 = ?g2\<lparr>keyStates := ks, stateHeap := h\<rparr>"
    by (rule release_frame) (rule that)
  have "getLocal env key (g, w) = (Ok v, releaseKeyState key i ?g2, w1)"
    using g(1) acq m(1) hit unfolding m(4) by (simp add: getLocal_def prepare_owns [OF g(2)] cl getLocal_owned_def)
  then show thesis using m(2,3) views
    by - (rule that [where c = c and st = "g_stats ?g2" and ks = ks and h = h]; simp add: rel)
qed

lemma getLocal_miss:
  assumes g: "\<not> g_closed g" "\<not> g_getter g" "owns env key epoch g" "cache_inv (mainCache g)"
    and none: "\<And>t. cache_view (mainCache (claim epoch g)) t key = None"
  obtains g' w' where "getLocal env key (g, w) = (Err (Sentinel ErrCacheMiss), g', w')"
    "\<And>t k. cache_view (mainCache g') t k \<in> {None, cache_view (mainCache (claim epoch g)) t k}"
proof -
  obtain i ks1 h1 where acq: "acquireKeyState key (claim epoch g) = (i, (claim epoch g)\<lparr>keyStates := ks1, stateHeap := h1\<rparr>)"
    by (rule acquire_frame)
  let ?g1 = "(claim epoch g)\<lparr>keyStates := ks1, stateHeap := h1\<rparr>"
  have pre: "cache_inv (mainCache ?g1)" using claim_cache [OF g(4)] by simp
  obtain t c w1 where m: "main_Get env key (?g1, w) = (cache_view (mainCache ?g1) t key, ?g1\<lparr>mainCache := c\<rparr>, w1)"
    "\<And>x k. cache_view c x k \<in> {None, cache_view (mainCache ?g1) x k}"
    by (rule main_Get_effect [OF pre, of env key w]) (rule that)
  let ?g2 = "?g1\<lparr>mainCache := c, g_stats := (g_stats g)\<lparr>localMisses := localMisses (g_stats g) + 1\<rparr>\<rparr>"
  have e: "getLocal env key (g, w) = (Err (Sentinel ErrCacheMiss), releaseKeyState key i ?g2, w1)"
    using g(1,2) acq m(1) none by (simp add: getLocal_def prepare_owns [OF g(3)] getLocal_owned_def)
  show thesis by (rule that [OF e]) (use m(2) in simp)
qed

lemma setLocal_effect:
  assumes g: "\<not> g_closed g" "owns env key epoch g" "cache_inv (mainCache g)" "prompt env g"
  obtains c ks h w' where
    "setLocal env key v (g, w) = (None, (claim epoch g)\<lparr>mainCache := c, nearCache := near_dropped epoch key g, keyStates := ks, stateHeap := h\<rparr>, w')"
    "cache_inv c" "\<And>t. cache_view c t key \<in> {None, Some v}"
    "\<And>t k. k \<noteq> key \<Longrightarrow> cache_view c t k \<in> {None, cache_view (mainCache g) t k}"
    "expiration g \<le> 0 \<Longrightarrow> cache_room (mainCache g) key v \<Longrightarrow> \<forall>t. cache_view c t key = Some v"
    "\<And>X. outlives env g X \<Longrightarrow> cache_room (mainCache g) key v \<Longrightarrow> \<forall>t\<in>X. cache_view c t key = Some v"
proof -
  let ?g = "claim epoch g"
  obtain i ks1 h1 where acq: "acquireKeyState key ?g = (i, ?g\<lparr>keyStates := ks1, stateHeap := h1\<rparr>)" by (rule acquire_frame)
  let ?g1 = "bump i (?g\<lparr>keyStates := ks1, stateHeap := h1\<rparr>)"
  have b: "?g1 = ?g\<lparr>keyStates := ks1, stateHeap := stateHeap ?g1\<rparr>" by (simp add: bump_def update_state_def)
  have fr: "mainCache ?g1 = mainCache ?g" "expiration ?g1 = expiration g" "g_peers ?g1 = g_peers g" "nearCache ?g1 = nearCache g"
    "owns env key epoch ?g1" "prompt env ?g1"
    using g by (subst b, simp add: owns_def prompt_def)+
  have pre: "cache_inv (mainCache ?g1)" "prompt env ?g1" using claim_cache [OF g(3)] fr by simp_all
  obtain c w1 where c: "addOwnerValue env key v (?g1, w) = (?g1\<lparr>mainCache := c\<rparr>, w1)" "cache_inv c"
    "\<And>t. cache_view c t key \<in> {None, Some v}"
    "\<And>t k. k \<noteq> key \<Longrightarrow> cache_view c t k \<in> {None, cache_view (mainCache ?g1) t k}"
    "expiration ?g1 \<le> 0 \<Longrightarrow> cache_room (mainCache ?g1) key v \<Longrightarrow> (\<forall>t. cache_view c t key = Some v)"
    and alive: "\<And>X. outlives env ?g1 X \<Longrightarrow> cache_room (mainCache ?g1) key v \<Longrightarrow> (\<forall>t\<in>X. cache_view c t key = Some v)"
    by (rule addOwnerValue_effect [OF pre, of key v w]) (rule that)
  have alive': "\<forall>t\<in>X. cache_view c t key = Some v" if "outlives env g X" "cache_room (mainCache g) key v" for X
    using alive [of X] that claim_cache(3) [OF g(3)] fr(1,2) by (simp add: outlives_def)
  let ?g2 = "?g1\<lparr>mainCache := c, nearCache := near_dropped epoch key g\<rparr>"
  have "invalidateNearKey env key (?g1\<lparr>mainCache := c\<rparr>, w1) = (?g2, w1)"
  proof -
    have "owns env key epoch (?g1\<lparr>mainCache := c\<rparr>)" using fr(5) by (simp add: owns_def)
    moreover have "near_dropped epoch key (?g1\<lparr>mainCache := c\<rparr>) = near_dropped epoch key g"
      using fr by (simp add: near_dropped_def)
    ultimately show ?thesis using near_owns [of env key epoch "?g1\<lparr>mainCache := c\<rparr>" w1] by metis
  qed
  then have "setLocal env key v (g, w) = (None, releaseKeyState key i ?g2, w1)"
    using g(1) acq c(1) by (simp add: setLocal_def prepare_owns [OF g(2)])
  moreover obtain ks h where "releaseKeyState key i ?g2 = ?g2\<lparr>keyStates := ks, stateHeap := h\<rparr>"
    by (rule release_frame) (rule that)
  moreover have "?g2\<lparr>keyStates := ks, stateHeap := h\<rparr> =
      ?g\<lparr>mainCache := c, nearCache := near_dropped epoch key g, keyStates := ks, stateHeap := h\<rparr>"
    by (subst b) simp
  moreover have "cache_view c t k \<in> {None, cache_view (mainCache g) t k}" if "k \<noteq> key" for t k
    using c(4) [OF that, of t] claim_cache(2) [OF g(3), of epoch t k] fr by auto
  ultimately show thesis
    using c(2,3,5) alive' fr claim_cache(3) [OF g(3)] by (intro that [where c = c and ks = ks and h = h]) auto
qed

lemma mutations_not_Nil: "ms \<noteq> [] \<Longrightarrow> load_answer v ms = {Return None (Some (Sentinel ErrCacheMiss))} \<union>
     (case last ms of Some v' \<Rightarrow> {Return (Some v') None} | None \<Rightarrow> {})"
  by (cases ms) auto

text \<open>
  C2. A load from the source never overrides a mutation that overlaps it. When the owner sets or deletes
  the key while the getter runs, the read answers with the last value set, or with a miss, and the cache
  holds nothing but that value. The counter of mutations is 64 bits wide, so this holds for less than
  $2^{64}$ mutations during one load.
\<close>

theorem load_never_overrides_mutation:
  assumes "\<not> g_closed g" "g_getter g" "owns env key epoch g" "prompt env g" "cache_inv (mainCache g)" "keys_ok g"
    "inflight (loader g) key = None" "\<And>t. cache_view (mainCache g) t key = None"
    "\<And>s. e_getter env key s = (Loaded v, mutations env key ms s)" "ms \<noteq> []" "length ms < 2 ^ 64"
    "getLocal env key (g, w) = (r, g', w')"
  shows "(r = Err (Sentinel ErrCacheMiss) \<or> (\<exists>v'. last ms = Some v' \<and> r = Ok v')) \<and>
    (\<forall>t. cache_view (mainCache g') t key \<in> {None, last ms})"
proof -
  have none: "cache_view (mainCache (claim epoch g)) t key = None" for t
    using claim_cache(2) [OF assms(5), of epoch t key] assms(8) by simp
  show ?thesis
    by (rule getLocal_load [OF assms(1-6) none assms(7,9,11), where w = w])
      (use assms(10,12) in \<open>auto simp: mutations_not_Nil split: option.splits\<close>)
qed

text \<open>
  C19. A read of an uncached key loads it from the source once and caches it: the next read answers with the
  same value and does not call the getter.
\<close>

theorem read_through_loads_once:
  assumes "\<not> g_closed g" "g_getter g" "owns env key epoch g" "cache_inv (mainCache g)" "keys_ok g"
    "inflight (loader g) key = None" "\<And>t. cache_view (mainCache g) t key = None" "expiration g \<le> 0"
    "cache_room (mainCache g) key v" "\<And>s. e_getter env key s = (Loaded v, s)"
    "getLocal env key (g, w) = (r, g', w')" "getLocal env key (g', w1) = (r', g'', w1')"
  shows "r = Ok v \<and> sourceLoads (g_stats g') = sourceLoads (g_stats g) + 1 \<and>
    r' = Ok v \<and> sourceLoads (g_stats g'') = sourceLoads (g_stats g')"
proof -
  have none: "cache_view (mainCache (claim epoch g)) t key = None" for t
    using claim_cache(2) [OF assms(4), of epoch t key] assms(7) by simp
  have p: "prompt env g" using assms(8) by (simp add: prompt_def)
  have ms: "e_getter env key s = (Loaded v, mutations env key [] s)" for s using assms(10) by simp
  obtain a c c' st l ks h u where L:
    "getLocal env key (g, w) = (answer a, (claim epoch g)\<lparr>mainCache := c, nearCache := c', g_stats := st, loader := l, keyStates := ks, stateHeap := h\<rparr>, u)"
    "a \<in> load_answer v []" "cache_inv c" "sourceLoads st = sourceLoads (g_stats g) + 1"
    "[] = ([] :: bytes option list) \<Longrightarrow> expiration g \<le> 0 \<Longrightarrow> cache_room (mainCache g) key v \<Longrightarrow> \<forall>t. cache_view c t key = Some v"
    by (rule getLocal_load [OF assms(1-3) p assms(4,5) none assms(6) ms, where w = w]) (simp, rule that)
  have g': "g' = (claim epoch g)\<lparr>mainCache := c, nearCache := c', g_stats := st, loader := l, keyStates := ks, stateHeap := h\<rparr>"
    and r: "r = Ok v" using assms(11) L(1,2) by auto
  have "\<not> g_closed g'" "owns env key epoch g'" "g_peers g' \<longrightarrow> ownerEpoch g' = epoch" "cache_inv (mainCache g')"
    "cache_view (mainCache g') t key = Some v" for t
    using assms(1,3,8,9) L(3,5) by (simp_all add: g' owns_def)
  then show ?thesis
    by (rule getLocal_hit [where w = w1]) (use assms(12) r L(4) in \<open>auto simp: g'\<close>)
qed

text \<open>
  C6. When ownership of a key has moved since the owner last served it, nothing cached before is served
  again: a read forgets every entry of the owner cache and answers with the source, or with a miss when
  there is none.
\<close>

theorem new_epoch_forgets:
  assumes "\<not> g_closed g" "owns env key epoch g" "g_peers g" "ownerEpoch g \<noteq> 0" "ownerEpoch g \<noteq> epoch"
    "prompt env g" "cache_inv (mainCache g)" "keys_ok g" "inflight (loader g) key = None"
    "\<And>s. e_getter env key s = (Loaded v, s)" "getLocal env key (g, w) = (r, g', w')"
  shows "(if g_getter g then r = Ok v else r = Err (Sentinel ErrCacheMiss)) \<and>
    (\<forall>t k. cache_view (mainCache g') t k \<in> {None, if g_getter g \<and> k = key then Some v else None})"
proof -
  have none: "cache_view (mainCache (claim epoch g)) t k = None" for t k
    using assms(3-5,7) by (simp add: claim_def view_Clear)
  have ms: "e_getter env key s = (Loaded v, mutations env key [] s)" for s using assms(10) by simp
  show ?thesis
  proof (cases "g_getter g")
    case True
    show ?thesis
      by (rule getLocal_load [OF assms(1) True assms(2,6-8) none assms(9) ms, where w = w])
        (use assms(11) True none in \<open>auto split: if_splits\<close>)
  next
    case False
    show ?thesis
      by (rule getLocal_miss [OF assms(1) False assms(2,7) none, where w = w]) (use assms(11) False none in auto)
  qed
qed

section \<open>Groups without peers\<close>

lemma deleteLocal_effect:
  assumes "g_peers g \<Longrightarrow> \<forall>s. e_Epoch env s = (epoch, s)"
  obtains ks h where "deleteLocal env key (g, w) = (fst (Cache_Delete key (mainCache g)),
    g\<lparr>mainCache := snd (Cache_Delete key (mainCache g)), nearCache := near_dropped epoch key g, keyStates := ks, stateHeap := h\<rparr>, w)"
proof -
  obtain i ks1 h1 where acq: "acquireKeyState key g = (i, g\<lparr>keyStates := ks1, stateHeap := h1\<rparr>)" by (rule acquire_frame)
  let ?g1 = "bump i (g\<lparr>keyStates := ks1, stateHeap := h1\<rparr>)"
  have b: "?g1 = g\<lparr>keyStates := ks1, stateHeap := stateHeap ?g1\<rparr>" by (simp add: bump_def update_state_def)
  have fr: "mainCache ?g1 = mainCache g" "g_peers ?g1 = g_peers g" "nearCache ?g1 = nearCache g"
    by (subst b, simp)+
  let ?c = "snd (Cache_Delete key (mainCache g))"
  let ?g2 = "?g1\<lparr>mainCache := ?c, nearCache := near_dropped epoch key g\<rparr>"
  have "near_dropped epoch key (?g1\<lparr>mainCache := ?c\<rparr>) = near_dropped epoch key g"
    using fr by (simp add: near_dropped_def)
  then have "invalidateNearKey env key (?g1\<lparr>mainCache := ?c\<rparr>, w) = (?g2, w)"
    using invalidateNearKey_eq [of "?g1\<lparr>mainCache := ?c\<rparr>" env epoch key w] assms fr(2) by simp
  then have "deleteLocal env key (g, w) = (fst (Cache_Delete key (mainCache g)), releaseKeyState key i ?g2, w)"
    using acq by (simp add: deleteLocal_def case_prod_beta Let_def fr)
  moreover obtain ks h where "releaseKeyState key i ?g2 = ?g2\<lparr>keyStates := ks, stateHeap := h\<rparr>"
    by (rule release_frame) (rule that)
  moreover have "?g2\<lparr>keyStates := ks, stateHeap := h\<rparr> =
      g\<lparr>mainCache := ?c, nearCache := near_dropped epoch key g, keyStates := ks, stateHeap := h\<rparr>"
    by (subst b) simp
  ultimately show thesis by (intro that [where ks = ks and h = h]) simp
qed

lemma Set_alone:
  assumes "\<not> g_closed g" "\<not> g_peers g" "key \<noteq> []" "v \<noteq> []" "setLocal env key v (g, w) = (None, g', w')" "\<not> g_peers g'"
  shows "Set env key v (g, w) = (Ok (), g'\<lparr>g_stats := (g_stats g')\<lparr>sets := sets (g_stats g') + 1\<rparr>\<rparr>, w')"
  using assms by (simp add: Set_def eval_nat_numeral Set_finish_def invalidateLocalCopies_def invalidateNearKey_def invalidatePeerCopies_def Let_def)

lemma Delete_alone:
  assumes "\<not> g_closed g" "\<not> g_peers g" "key \<noteq> []" "deleteLocal env key (g, w) = (b, g', w')" "\<not> g_peers g'"
  shows "Delete env key (g, w) = (Ok (), g'\<lparr>g_stats := (g_stats g')\<lparr>deletes := deletes (g_stats g') + 1\<rparr>\<rparr>, w')"
  using assms by (simp add: Delete_def eval_nat_numeral invalidateLocalCopies_def invalidateNearKey_def invalidatePeerCopies_def Let_def)

lemma Delete_alone_miss:
  assumes "\<not> g_closed g" "\<not> g_peers g" "\<not> g_getter g" "key \<noteq> []" "cache_inv (mainCache g)"
  shows "\<exists>s. Delete env key (g, w) = (Ok (), s) \<and> fst (Get env key s) = Err (Sentinel ErrCacheMiss)"
proof -
  obtain ks h where del: "deleteLocal env key (g, w) = (fst (Cache_Delete key (mainCache g)),
      g\<lparr>mainCache := snd (Cache_Delete key (mainCache g)), nearCache := near_dropped 0 key g, keyStates := ks, stateHeap := h\<rparr>, w)"
    by (rule deleteLocal_effect [of g env 0 key w]) (use assms(2) in simp, rule that)
  let ?g1 = "g\<lparr>mainCache := snd (Cache_Delete key (mainCache g)), nearCache := near_dropped 0 key g, keyStates := ks, stateHeap := h\<rparr>"
  let ?g2 = "?g1\<lparr>g_stats := (g_stats ?g1)\<lparr>deletes := deletes (g_stats ?g1) + 1\<rparr>\<rparr>"
  have "Delete env key (g, w) = (Ok (), ?g2, w)"
    using Delete_alone [OF assms(1,2,4) del] assms(2) by simp
  moreover have g2: "\<not> g_closed ?g2" "\<not> g_getter ?g2" "owns env key 0 ?g2" "cache_inv (mainCache ?g2)"
    "cache_view (mainCache (claim 0 ?g2)) t key = None" for t
    using assms by (simp_all add: owns_def cache_inv_ops claim_def view_Delete)
  have "fst (getLocal env key (?g2, w)) = Err (Sentinel ErrCacheMiss)"
    by (rule getLocal_miss [OF g2, of w]) simp
  then have "fst (Get env key (?g2, w)) = Err (Sentinel ErrCacheMiss)"
    using assms(1,2,4) by (simp add: Get_def)
  ultimately show ?thesis by blast
qed


section \<open>The near cache\<close>

lemma nearKey_inj: "nearKey e k = nearKey e' k' \<longleftrightarrow> e = e' \<and> k = k'"
proof
  assume "nearKey e k = nearKey e' k'"
  then have "decimal (unat e) @ CHR '':'' # k = decimal (unat e') @ CHR '':'' # k'" by (simp add: nearKey_def)
  moreover have "CHR '':'' \<notin> set (decimal n)" for n using decimal_digits [of "CHR '':''" n] by auto
  ultimately have "decimal (unat e) = decimal (unat e') \<and> k = k'" using append_sep_inj by metis
  then show "e = e' \<and> k = k'" using decimal_inj word_unat_eq_iff by blast
qed simp

lemma view_AddWithExpiration_deadline:
  assumes "cache_inv c" "now0 < e" "cache_view (Cache_AddWithExpiration now0 now now' k v e c) t k = Some u"
  shows "u = v \<and> t < now + (e - now0)"
proof (cases c)
  case (Some c')
  with assms st.put_same [of "cstore c'" now now' k "ByteViewV v" "e - now0"] show ?thesis
    by (auto simp: Cache_AddWithExpiration_def Let_def deadline_def split: if_splits)
qed (use assms in \<open>simp add: Cache_AddWithExpiration_def\<close>)

lemma near_lookup_view:
  assumes "cache_inv (nearCache g)" "near_lookup env key owner epoch (g, w) = (Some u, s)"
  shows "cache_view (nearCache g) (fst (e_now env w)) (nearKey epoch key) = Some u"
proof -
  obtain t w' where e: "e_now env w = (t, w')" by fastforce
  obtain r c where r: "Cache_Get t (nearKey epoch key) (nearCache g) = (r, c)" by fastforce
  then have "r = cache_view (nearCache g) t (nearKey epoch key)" using Cache_Get_view [OF assms(1), of t] by (metis fst_conv)
  with assms(2) e r show ?thesis
    by (auto simp: near_lookup_def near_Get_def split: if_splits option.splits prod.splits)
qed

text \<open>
  What can happen to the near cache, one section at a time: \<^verbatim>\<open>Get\<close> looks a key up or drops it, \<^verbatim>\<open>Get\<close> and
  \<^verbatim>\<open>Set\<close> add a copy, an invalidation deletes one, \<^verbatim>\<open>Clear\<close>, \<^verbatim>\<open>Close\<close> and the background sweep run, and
  anything else leaves it alone. The list has the copies added, newest first, with the epoch, the key, the
  value and the time the store read when it kept the copy.
\<close>

type_synonym near_adds = "(uint64 \<times> string \<times> bytes \<times> time) list"

inductive near_trace :: "('w, 'm) lenv_scheme \<Rightarrow> near_adds \<Rightarrow> Group \<Rightarrow> 'w \<Rightarrow> bool" for env where
  start: "\<lbrakk>cache_inv (nearCache g); \<forall>t k. cache_view (nearCache g) t k = None\<rbrakk> \<Longrightarrow> near_trace env [] g w"
| lookup: "\<lbrakk>near_trace env A g w; near_Get env key (g, w) = (r, g', w')\<rbrakk> \<Longrightarrow> near_trace env A g' w'"
| add: "\<lbrakk>near_trace env A g w; add_near env (nearKey epoch key) v (g, w) = (g', w');
    t1 = fst (e_now env (snd (e_now env (snd (e_now env w)))))\<rbrakk> \<Longrightarrow> near_trace env ((epoch, key, v, t1) # A) g' w'"
| delete: "near_trace env A g w \<Longrightarrow> near_trace env A (g\<lparr>nearCache := snd (Cache_Delete key (nearCache g))\<rparr>) w"
| clear: "near_trace env A g w \<Longrightarrow> near_trace env A (Group_Clear g) w"
| close: "near_trace env A g w \<Longrightarrow> near_trace env A (snd (Group_close g)) w"
| sweep: "near_trace env A g w \<Longrightarrow>
    near_trace env A (g\<lparr>nearCache := map_option (\<lambda>c. c\<lparr>cstore := store_cleanupLoop ss (cstore c)\<rparr>) (nearCache g)\<rparr>) w"
| other: "\<lbrakk>near_trace env A g w; nearCache g' = nearCache g; nearTTL g' = nearTTL g\<rbrakk> \<Longrightarrow> near_trace env A g' w'"

text \<open>The last copy added for a key in an epoch.\<close>

fun last_add :: "uint64 \<Rightarrow> string \<Rightarrow> near_adds \<Rightarrow> (bytes \<times> time) option" where
  "last_add epoch key [] = None"
| "last_add epoch key ((e, k, v, t) # A) = (if e = epoch \<and> k = key then Some (v, t) else last_add epoch key A)"

text \<open>The clock does not run backwards while a copy is added, and not a whole TTL forward.\<close>

definition near_prompt :: "('w, 'm) lenv_scheme \<Rightarrow> duration \<Rightarrow> bool" where
  "near_prompt env d \<longleftrightarrow> (\<forall>w t w1 t0 w2. e_now env w = (t, w1) \<longrightarrow> e_now env w1 = (t0, w2) \<longrightarrow> t \<le> t0 \<and> t0 < t + d)"

definition near_ok :: "near_adds \<Rightarrow> duration \<Rightarrow> Cache option \<Rightarrow> bool" where
  "near_ok A d c \<longleftrightarrow> cache_inv c \<and>
     (\<forall>x e k u. cache_view c x (nearKey e k) = Some u \<longrightarrow> (\<exists>t1. last_add e k A = Some (u, t1) \<and> x < t1 + d))"

lemma near_ok_shrink:
  assumes "near_ok A d c" "cache_inv c'" "\<And>x k. cache_view c' x k \<in> {None, cache_view c x k}"
  shows "near_ok A d c'"
  unfolding near_ok_def
proof (intro conjI allI impI)
  fix x e k u assume "cache_view c' x (nearKey e k) = Some u"
  then have "cache_view c x (nearKey e k) = Some u" using assms(3) [of x "nearKey e k"] by auto
  then show "\<exists>t1. last_add e k A = Some (u, t1) \<and> x < t1 + d" using assms(1) unfolding near_ok_def by blast
qed (rule assms(2))

lemma view_sweep:
  assumes "cache_inv c" "c' = map_option (\<lambda>c. c\<lparr>cstore := store_cleanupLoop ss (cstore c)\<rparr>) c"
  shows "cache_inv c'" "cache_view c' x k \<in> {None, cache_view c x k}"
proof -
  show "cache_inv c'" using assms store_cleanupLoop_content by (cases c) auto
  show "cache_view c' x k \<in> {None, cache_view c x k}"
  proof (cases c)
    case (Some d)
    then have "store_content (store_cleanupLoop ss (cstore d)) k \<in> {None, store_content (cstore d) k}"
      using assms(1) store_cleanupLoop_content by simp
    with assms(2) Some show ?thesis by auto
  qed (simp add: assms(2))
qed

lemma near_ok_add:
  assumes ok: "near_ok A d c" and prompt: "t \<le> t0" "t0 < t + d"
  shows "near_ok ((epoch, key, v, t1) # A) d (Cache_AddWithExpiration t0 t1 t2 (nearKey epoch key) v (t + d) c)"
    (is "near_ok _ _ ?c")
  unfolding near_ok_def
proof (intro conjI allI impI)
  have inv: "cache_inv c" using ok by (simp add: near_ok_def)
  then show "cache_inv ?c" by (rule cache_inv_ops)
  fix x e k u assume view: "cache_view ?c x (nearKey e k) = Some u"
  show "\<exists>t1'. last_add e k ((epoch, key, v, t1) # A) = Some (u, t1') \<and> x < t1' + d"
  proof (cases "e = epoch \<and> k = key")
    case True
    with view_AddWithExpiration_deadline [OF inv prompt(2), of t1 t2 "nearKey epoch key" v x u] view prompt(1) show ?thesis by auto
  next
    case False
    then have "nearKey e k \<noteq> nearKey epoch key" by (auto simp: nearKey_inj)
    then have "cache_view c x (nearKey e k) = Some u"
      using view_AddWithExpiration_other [OF inv, of "nearKey e k" "nearKey epoch key" t0 t1 t2 v "t + d" x] view by auto
    with ok False show ?thesis unfolding near_ok_def by auto
  qed
qed

lemma near_trace_ok: "near_trace env A g w \<Longrightarrow> near_prompt env (nearTTL g) \<Longrightarrow> near_ok A (nearTTL g) (nearCache g)"
proof (induction rule: near_trace.induct)
  case (start g w)
  then show ?case by (simp add: near_ok_def)
next
  case (lookup A g w key r g' w')
  obtain t w'' where e: "e_now env w = (t, w'')" by fastforce
  then have g': "g' = g\<lparr>nearCache := snd (Cache_Get t key (nearCache g))\<rparr>"
    using lookup.hyps(2) by (auto simp: near_Get_def split: prod.splits)
  with lookup have ok: "near_ok A (nearTTL g) (nearCache g)" by simp
  then have inv: "cache_inv (nearCache g)" by (simp add: near_ok_def)
  show ?case unfolding g' using near_ok_shrink [OF ok cache_inv_ops(3) [OF inv] view_Get_any [OF inv]] by simp
next
  case (add A g w epoch key v g' w' t1)
  obtain t w1 t0 w2 x w3 t2 w4 where e: "e_now env w = (t, w1)" "e_now env w1 = (t0, w2)" "e_now env w2 = (x, w3)" "e_now env w3 = (t2, w4)"
    by (meson surj_pair)
  then have g': "g' = g\<lparr>nearCache := Cache_AddWithExpiration t0 t1 t2 (nearKey epoch key) v (t + nearTTL g) (nearCache g)\<rparr>"
    using add.hyps(2,3) by (simp add: add_near_def add_for_def)
  with add have "near_ok A (nearTTL g) (nearCache g)" "near_prompt env (nearTTL g)" by simp_all
  moreover from this(2) e have "t \<le> t0" "t0 < t + nearTTL g" unfolding near_prompt_def by blast+
  ultimately show ?case unfolding g' using near_ok_add by simp
next
  case (delete A g w key)
  then have ok: "near_ok A (nearTTL g) (nearCache g)" by simp
  then have "cache_inv (nearCache g)" by (simp add: near_ok_def)
  then show ?case using near_ok_shrink [OF ok, of "snd (Cache_Delete key (nearCache g))"] by (simp add: cache_inv_ops view_Delete)
next
  case (clear A g w)
  then have ok: "near_ok A (nearTTL g) (nearCache g)" by (simp add: Group_Clear_def Let_def split: if_splits)
  then have "cache_inv (nearCache g)" by (simp add: near_ok_def)
  then have "near_ok A (nearTTL g) (Cache_Clear (nearCache g))"
    using near_ok_shrink [OF ok, of "Cache_Clear (nearCache g)"] by (simp add: cache_inv_ops view_Clear)
  with ok show ?case by (cases "nearCache g") (simp_all add: Group_Clear_def Let_def)
next
  case (close A g w)
  then have ok: "near_ok A (nearTTL g) (nearCache g)" by (simp add: Group_close_def split: if_splits)
  then have "cache_inv (nearCache g)" by (simp add: near_ok_def)
  with ok show ?case using near_ok_shrink [OF ok, of "Cache_Close (nearCache g)"]
    by (simp add: Group_close_def cache_inv_ops view_Close)
next
  case (sweep A g w ss)
  then have ok: "near_ok A (nearTTL g) (nearCache g)" by simp
  then have "cache_inv (nearCache g)" by (simp add: near_ok_def)
  from near_ok_shrink [OF ok view_sweep [OF this refl]] show ?case by simp
next
  case (other A g w g' w')
  then show ?case by simp
qed

text \<open>A whole lookup is a sequence of these sections.\<close>

lemma near_lookup_trace:
  assumes "near_trace env A g w" "\<And>k g w g' w' pk. \<lbrakk>near_trace env A g w; e_PickOwner env k (g, w) = (pk, g', w')\<rbrakk> \<Longrightarrow> near_trace env A g' w'"
    "near_lookup env key owner epoch (g, w) = (r, g', w')"
  shows "near_trace env A g' w'"
proof -
  have stats: "near_trace env A (g\<lparr>g_stats := st\<rparr>) w" if "near_trace env A g w" for g w st
    by (rule near_trace.other [OF that]) simp_all
  have picked: "near_trace env A g2 w2"
    if "near_Get env k (g, w) = (q, g1, w1)" "e_PickOwner env key (g1, w1) = (pk, g2, w2)" for k q g1 w1 pk g2 w2
    by (rule assms(2) [OF near_trace.lookup [OF assms(1) that(1)] that(2)])
  show ?thesis
    using assms(1,3) by (auto simp: near_lookup_def split: if_splits prod.splits option.splits
      intro!: stats near_trace.delete intro: near_trace.lookup picked)
qed

text \<open>
  C13. Whatever happens to the near cache, and however often a copy is served, a lookup answers only with the
  last copy added for its own key and epoch, and only until the near TTL has passed since the store kept
  that copy: serving a copy never extends its life, and once the time is up or the membership has changed a
  read goes to the owner, even if every invalidation was lost.
\<close>

theorem near_staleness_bound:
  assumes "near_trace env A g w" "near_prompt env (nearTTL g)" "near_lookup env' key owner epoch (g, w') = (Some u, s)"
  shows "\<exists>t1. last_add epoch key A = Some (u, t1) \<and> fst (e_now env' w') < t1 + nearTTL g"
proof -
  note ok = near_trace_ok [OF assms(1,2)]
  then have "cache_inv (nearCache g)" by (simp add: near_ok_def)
  from near_lookup_view [OF this assms(3)] ok show ?thesis unfolding near_ok_def by blast
qed

section \<open>Where the distributed operations go wrong\<close>

text \<open>
  An unsettled membership: the picker names the node the owner each time \<^verbatim>\<open>Set\<close> asks and another node each
  time \<^verbatim>\<open>setLocal\<close> asks, with an epoch that grows at each change. The world counts the questions and records whether a peer was called.
\<close>

definition flapping :: "(nat \<times> bool) env" where
  "flapping =
     \<lparr>e_PickOwner = (\<lambda>key (g, n, called). ((if even n then (''a'', NilPeer, True, of_nat (n + 1), True)
        else (''b'', ClientPeer (Some \<lparr>c_addr = ''b'', c_rpcTimeout = 1, c_conn = 0\<rparr>), False, of_nat (n + 1), True)), g, n + 1, called)),
      e_Epoch = (\<lambda>(g, n, called). (of_nat (n + 1), g, n, called)),
      e_getter = (\<lambda>key s. (LoadError (Text ''no source''), s)), e_now = (\<lambda>w. (0, w)), e_flight = (\<lambda>c s. s),
      e_Invalidate = (\<lambda>grp key owner s. (None, s)),
      e_peer_Get = (\<lambda>c grp key (g, n, called). (Inl (Text ''down''), g, n, True)),
      e_peer_Set = (\<lambda>c grp key v (g, n, called). (Some (Text ''down''), g, n, True)),
      e_peer_Delete = (\<lambda>c grp key (g, n, called). (Inl (Text ''down''), g, n, True)),
      e_wait = (\<lambda>s. ((0, None), s))\<rparr>"

text \<open>A group as \<^verbatim>\<open>NewGroup\<close> makes it, around a given owner cache.\<close>

definition fresh_group :: "bool \<Rightarrow> bool \<Rightarrow> Cache \<Rightarrow> Group" where
  "fresh_group getter peers c = \<lparr>g_name = ''g'', g_getter = getter, mainCache = Some c, nearCache = None, nearTTL = 0,
     g_peers = peers, loader = \<lparr>sf_m = None, callHeap = []\<rparr>, expiration = 0, g_closed = False, g_stats = zeroStats,
     ownerEpoch = 0, keyStates = [], stateHeap = []\<rparr>"

lemma flapping_prepare:
  "odd n \<Longrightarrow> prepareLocalOwner flapping key (fresh_group gt True c, n, b) =
     (Inl (wrapped ''%w: owner=%s'' [S ''b''] (Sentinel ErrNotOwner)), fresh_group gt True c, n + 1, b)"
  by (simp add: prepareLocalOwner_def flapping_def fresh_group_def)

lemma flapping_loop:
  "even n \<Longrightarrow> Set_loop flapping key v left owner 0 (fresh_group gt True c, n, b) =
     (Past (if left = 0 then owner else ''a'') 0, fresh_group gt True c, n + 2 * left, b)"
proof (induction left arbitrary: n owner)
  case (Suc left)
  have "setLocal flapping key v (fresh_group gt True c, Suc n, b) =
      (Some (wrapped ''%w: owner=%s'' [S ''b''] (Sentinel ErrNotOwner)), fresh_group gt True c, n + 2, b)"
    using Suc.prems flapping_prepare [of "Suc n" key gt c b] by (simp add: setLocal_def fresh_group_def)
  moreover have "g_peers (fresh_group gt True c)" by (simp add: fresh_group_def)
  moreover have "e_PickOwner flapping key (fresh_group gt True c, n, b) = ((''a'', NilPeer, True, of_nat (n + 1), True), fresh_group gt True c, Suc n, b)"
    using Suc.prems by (simp add: flapping_def)
  ultimately show ?case using Suc.IH [of "n + 2" "''a''"] Suc.prems by simp
qed simp

text \<open>
  C38. \<^verbatim>\<open>Set\<close> can report success without having written anything: when the node believes to be the owner
  but loses the ownership at each of its four attempts, the loop ends and the error is dropped. The
  write is counted, no peer was called and the caches are as before.
\<close>

theorem Set_success_without_write:
  assumes "key \<noteq> []" "v \<noteq> []"
  shows "\<exists>g n. Set flapping key v (fresh_group getter True c, 0, False) = (Ok (), g, n, False) \<and>
    mainCache g = Some c \<and> nearCache g = None \<and> sets (g_stats g) = 1"
proof -
  have "Set_loop flapping key v 4 [] 0 (fresh_group getter True c, 0, False) =
      (Past ''a'' 0, fresh_group getter True c, 8, False)"
    using flapping_loop [of 0 key v 4 "[]" getter c False] by simp
  with assms show ?thesis
    by (simp add: Set_def fresh_group_def Set_finish_def invalidateLocalCopies_def invalidateNearKey_def
        invalidatePeerCopies_def flapping_def zeroStats_def)
qed

text \<open>A member that joins while no client can be opened for it is on the ring, but has no client.\<close>

lemma joined_without_client:
  assumes "picker_reachable p n" "handleEvent dial (PutEvent rk rv) p n = (q, n')" "kv_addr (svcName p) (rk, rv) = addr"
    "addr \<noteq> []" "addr \<notin> set (p_members p)" "dial addr = Some err"
  shows "picker_reachable q n'" "addr \<in> set (p_members q)" "selfAddr q \<noteq> addr" "gm_get (p_clients q) addr = None"
proof -
  show "picker_reachable q n'" using picker_reachable.step [OF assms(1) picker_step.event [OF assms(2)]] .
  have inv: "picker_inv p n" by (rule picker_reachable_picker_inv [OF assms(1)])
  then have self: "selfAddr p \<noteq> addr" using assms(5) by (auto simp: picker_inv_def members_inv_def)
  then have "openClient dial (rpcTO p) addr n = (None, n)" using assms(6) by (simp add: openClient_def NewClient_def)
  then have q: "q = p\<lparr>p_members := p_members p @ [addr], p_ring := snd (ring_Add [addr] (p_ring p)), p_epoch := p_epoch p + 1\<rparr>"
    using assms(2-5) self by (simp add: handleEvent_def addMember_def Let_def)
  have "addr \<notin> fst ` set (p_clients p)" using inv assms(5) by (auto simp: picker_inv_def)
  with q self show "addr \<in> set (p_members q)" "selfAddr q \<noteq> addr" "gm_get (p_clients q) addr = None"
    by (simp_all add: map_of_eq_None_iff)
qed

text \<open>
  C39. When a member joins while no client can be opened for it, the picker keeps it on the ring, and for a key
  it owns \<^verbatim>\<open>Set\<close> and \<^verbatim>\<open>Delete\<close> panic, and so does \<^verbatim>\<open>Get\<close> in a group without a near cache, instead of
  returning \<^verbatim>\<open>ErrPeerUnavailable\<close>.
\<close>

theorem missing_client_panics:
  assumes "picker_reachable p n" "handleEvent dial (PutEvent rk rv) p n = (q, n')" "kv_addr (svcName p) (rk, rv) = addr"
    "addr \<noteq> []" "addr \<notin> set (p_members p)" "dial addr = Some err" "ring_Get key (p_ring q) = addr"
    "\<And>s. e_PickOwner env key s = (PickOwner key q, s)" "\<not> g_closed g" "g_peers g" "v \<noteq> []"
  shows "picker_reachable q n' \<and> addr \<in> set (p_members q) \<and>
    fst (Set env key v (g, w)) = Panicked nilPanic \<and> fst (Delete env key (g, w)) = Panicked nilPanic \<and>
    (nearCache g = None \<longrightarrow> fst (Get env key (g, w)) = Panicked nilPanic)"
proof -
  note q = joined_without_client [OF assms(1-6)]
  have "key \<noteq> []" using assms(4,7) by (auto simp: ring_Get_def)
  moreover have "PickOwner key q = (addr, ClientPeer None, False, p_epoch q, True)"
    using assms(4,7) q(3,4) by (simp add: PickOwner_def)
  ultimately show ?thesis
    using q(1,2) assms(4,8-11) by (simp add: Get_def Set_def Delete_def eval_nat_numeral near_lookup_def)
qed

section \<open>Instances\<close>

definition demo_cache :: Cache where
  "demo_cache = \<lparr>cstore = LRUStore (newLRUCache \<lparr>MaxBytes = 64, ShardCount = 1, CleanupInterval = 0, OnEvicted = False\<rparr>),
     hits = 0, misses = 0, cclosed = False\<rparr>"

lemma demo_cache_facts:
  "cache_inv (Some demo_cache)" "cache_view (Some demo_cache) t k = None" "cache_room (Some demo_cache) ''k'' [1]"
  by (simp_all add: demo_cache_def newLRUCache_def newLRU_inv newLRU_content)
    (simp add: lru_room_def newLRUCacheInternal_def absl_def a_del_def sized_def)

text \<open>A node that owns every key in epoch 1, with a source and a clock that stands still.\<close>

definition demo_env :: "(string \<Rightarrow> Group \<times> unit \<Rightarrow> loaded \<times> Group \<times> unit) \<Rightarrow> unit lenv" where
  "demo_env getter = \<lparr>e_PickOwner = (\<lambda>key s. ((''a'', NilPeer, True, 1, True), s)), e_Epoch = (\<lambda>s. (1, s)),
     e_getter = getter, e_now = (\<lambda>w. (0, w)), e_flight = (\<lambda>c s. s)\<rparr>"

lemma demo_env_owns: "owns (demo_env f) key 1 (fresh_group gt True c)" "prompt (demo_env f) (fresh_group gt ps c)"
  by (simp_all add: owns_def demo_env_def fresh_group_def prompt_def)

lemma demo_env_simps:
  "e_PickOwner (demo_env f) = (\<lambda>key s. ((''a'', NilPeer, True, 1, True), s))" "e_Epoch (demo_env f) = (\<lambda>s. (1, s))"
  "e_now (demo_env f) = (\<lambda>w. (0, w))" "e_getter (demo_env f) = f"
  by (simp_all add: demo_env_def)

lemma mutate_demo_env: "mutate (demo_env f) key m s = mutate (demo_env f') key m s"
  by (cases m) (simp_all only: mutate.simps setLocal_def deleteLocal_def prepareLocalOwner_def addOwnerValue_def add_for_def
      invalidateNearKey_def demo_env_simps)

text \<open>A source that answers \<open>[7]\<close> while somebody deletes the key and then sets it to \<open>[1]\<close>.\<close>

definition busy_source :: "string \<Rightarrow> Group \<times> unit \<Rightarrow> loaded \<times> Group \<times> unit" where
  "busy_source key s = (Loaded [7], mutations (demo_env (\<lambda>key s. (Loaded [], s))) key [None, Some [1]] s)"

theorem keyStates_shared_witness:
  "\<exists>g. ks_reachable (g, {#(''k'', 0), (''k'', 0)#}) \<and> fst ` set (keyStates g) = {''k''} \<and> refs (stateHeap g ! 0) = 2"
proof -
  let ?g0 = "fresh_group True True demo_cache"
  let ?g1 = "snd (acquireKeyState ''k'' ?g0)"
  let ?g2 = "snd (acquireKeyState ''k'' ?g1)"
  have "ks_reachable (?g0, {#})" by (rule ks_reachable.init) (simp_all add: fresh_group_def)
  moreover have "ks_step (?g0, {#}) (?g1, {#(''k'', 0)#})"
    by (rule ks_step.acquire) (simp add: fresh_group_def acquireKeyState_def)
  moreover have "ks_step (?g1, {#(''k'', 0)#}) (?g2, add_mset (''k'', 0) {#(''k'', 0)#})"
    by (rule ks_step.acquire) (simp add: fresh_group_def acquireKeyState_def update_state_def)
  ultimately have "ks_reachable (?g2, add_mset (''k'', 0) {#(''k'', 0)#})" by (blast intro: ks_reachable.step)
  with keyStates_shared [OF this, of "''k''" 0 "''k''" 0] show ?thesis by auto
qed

theorem load_never_overrides_mutation_witness:
  "\<exists>r g'. getLocal (demo_env busy_source) ''k'' (fresh_group True True demo_cache, ()) = (r, g', ()) \<and>
     r \<in> {Err (Sentinel ErrCacheMiss), Ok [1]} \<and> cache_view (mainCache g') 5 ''k'' \<noteq> Some [7]"
proof -
  let ?g = "fresh_group True True demo_cache" and ?env = "demo_env busy_source"
  obtain r g' u where e: "getLocal ?env ''k'' (?g, ()) = (r, g', u)" by (metis surj_pair)
  have "(\<lambda>s m. mutate (demo_env (\<lambda>key s. (Loaded [], s))) ''k'' m s) = (\<lambda>s m. mutate ?env ''k'' m s)"
    by (intro ext mutate_demo_env)
  then have src: "e_getter ?env ''k'' s = (Loaded [7], mutations ?env ''k'' [None, Some [1]] s)" for s
    by (simp only: demo_env_simps busy_source_def [of _ s])
  have "(r = Err (Sentinel ErrCacheMiss) \<or> (\<exists>v'. last [None, Some [1]] = Some v' \<and> r = Ok v')) \<and>
      (\<forall>t. cache_view (mainCache g') t ''k'' \<in> {None, last [None, Some [1]]})"
    using load_never_overrides_mutation [of ?g ?env "''k''" 1 "[7]" "[None, Some [1]]" "()" r g' u] src e
      demo_env_owns demo_cache_facts by (simp add: fresh_group_def keys_ok_def entries_def)
  then have "r \<in> {Err (Sentinel ErrCacheMiss), Ok [1]}" "cache_view (mainCache g') 5 ''k'' \<in> {None, Some [1]}" by auto
  with e show ?thesis by auto
qed

theorem read_through_loads_once_witness:
  "\<exists>g' g''. getLocal (demo_env (\<lambda>key s. (Loaded [1], s))) ''k'' (fresh_group True True demo_cache, ()) = (Ok [1], g', ()) \<and>
     getLocal (demo_env (\<lambda>key s. (Loaded [1], s))) ''k'' (g', ()) = (Ok [1], g'', ()) \<and> sourceLoads (g_stats g'') = 1"
proof -
  let ?g = "fresh_group True True demo_cache" and ?env = "demo_env (\<lambda>key s. (Loaded [1], s))"
  obtain r g' u where e: "getLocal ?env ''k'' (?g, ()) = (r, g', u)" by (metis surj_pair)
  obtain r' g'' u' where e': "getLocal ?env ''k'' (g', ()) = (r', g'', u')" by (metis surj_pair)
  have src: "e_getter ?env ''k'' s = (Loaded [1], s)" for s by (simp add: demo_env_def)
  show ?thesis
    using read_through_loads_once [of ?g ?env "''k''" 1 "[1]" "()" r g' u "()" r' g'' u'] src e e'
      demo_env_owns demo_cache_facts by (auto simp: fresh_group_def keys_ok_def entries_def zeroStats_def)
qed

theorem new_epoch_forgets_witness:
  "\<exists>c g'. cache_view (mainCache c) 0 ''old'' = Some [9] \<and>
     getLocal (demo_env (\<lambda>key s. (Loaded [1], s))) ''k'' (c, ()) = (Ok [1], g', ()) \<and> cache_view (mainCache g') 0 ''old'' = None"
proof -
  let ?env = "demo_env (\<lambda>key s. (Loaded [1], s))"
  let ?m = "Cache_Add 0 0 ''old'' [9] (Some demo_cache)"
  let ?g = "(fresh_group True True demo_cache)\<lparr>mainCache := ?m, ownerEpoch := 2\<rparr>"
  have room: "cache_room (Some demo_cache) ''old'' [9]"
    by (simp add: demo_cache_def newLRUCache_def lru_room_def newLRUCacheInternal_def absl_def a_del_def sized_def)
  then have old: "cache_view ?m 0 ''old'' = Some [9]" by (rule view_Add_room [OF demo_cache_facts(1)])
  obtain r g' u where e: "getLocal ?env ''k'' (?g, ()) = (r, g', u)" by (metis surj_pair)
  have src: "e_getter ?env ''k'' s = (Loaded [1], s)" for s by (simp add: demo_env_def)
  have "owns ?env ''k'' 1 ?g" "prompt ?env ?g" by (simp_all add: owns_def prompt_def demo_env_def fresh_group_def)
  then have "(if g_getter ?g then r = Ok [1] else r = Err (Sentinel ErrCacheMiss)) \<and>
    (\<forall>t k. cache_view (mainCache g') t k \<in> {None, if g_getter ?g \<and> k = ''k'' then Some [1] else None})"
    using src e cache_inv_ops(1) [OF demo_cache_facts(1)]
    by (intro new_epoch_forgets [of ?g ?env "''k''" 1 "[1]" "()" r g' u]) (simp_all add: fresh_group_def keys_ok_def entries_def)
  moreover have "g_getter ?g" by (simp add: fresh_group_def)
  ultimately have "r = Ok [1]" "\<forall>t k. cache_view (mainCache g') t k \<in> {None, if k = ''k'' then Some [1] else None}" by simp_all
  from this(1) spec [OF spec [OF this(2), of 0], of "''old''"]
  have "r = Ok [1]" "cache_view (mainCache g') 0 ''old'' = None" by simp_all
  with e old show ?thesis by (intro exI [of _ ?g] exI [of _ g']) simp
qed


theorem Set_success_without_write_witness:
  "\<exists>g n. Set flapping ''k'' [1] (fresh_group True True demo_cache, 0, False) = (Ok (), g, n, False) \<and>
     mainCache g = Some demo_cache \<and> sets (g_stats g) = 1"
  using Set_success_without_write [of "''k''" "[1]" True demo_cache] by auto

text \<open>A picker alone at first, which then learns of a member that it cannot dial.\<close>

definition alone_picker :: ClientPicker where
  "alone_picker = \<lparr>selfAddr = ''a:1'', svcName = defaultSvcName, p_ring = snd (ring_Add [''a:1''] (New [WithReplicas 1])),
     p_members = [''a:1''], p_clients = [], p_endpoints = Endpoints DefaultRegistryConfig,
     dialTO = RegistryConfig.DialTimeout DefaultRegistryConfig, rpcTO = 3 * second, hashReplicas = 1, p_epoch = 1,
     p_cancelled = False, p_closeOnce = False, etcdOpen = True\<rparr>"

abbreviation no_conns :: net where
  "no_conns \<equiv> \<lparr>nextConn = 0, openConns = []\<rparr>"

lemma alone_picker_reachable: "picker_reachable alone_picker no_conns"
proof -
  have "NormalizeAddress (Inr []) ''a:1'' = Inr ''a:1''" by code_simp
  then have "NewClientPicker (Inr []) (\<lambda>_. None) None (Inr ([], 5)) ''a:1'' [WithHashReplicas 1] no_conns = Inr (alone_picker, 6, no_conns)"
    by (simp add: NewClientPicker_def WithHashReplicas_def refreshSnapshot_def replaceMembership_def sameMembers_def
        alone_picker_def Let_def)
  then show ?thesis by (rule picker_reachable.new) (simp_all add: picker_options_def)
qed

text \<open>The two members, with one point each.\<close>

lemma two_points_hash:
  "ChecksumIEEE (bytes_of ''a:1#0'') = 1077901647" "ChecksumIEEE (bytes_of ''b:1#0'') = 127861663"
  "ChecksumIEEE (bytes_of ''x'') = 2363233923"
  by (simp_all add: ChecksumIEEE_eval)

lemma two_members_owner: "ring_Get ''x'' (snd (ring_Add [''b:1''] (p_ring alone_picker))) = ''b:1''"
proof -
  let ?cfg = "DefaultConfig\<lparr>Replicas := 1\<rparr>"
  have "decimal 0 = ''0''" by code_simp
  then have "virtualPoint ?cfg ''a:1'' 0 = Point 1077901647 ''a:1'' 0" "virtualPoint ?cfg ''b:1'' 0 = Point 127861663 ''b:1'' 0"
    using two_points_hash by (simp_all add: virtualPoint_def DefaultConfig_def)
  then have r: "snd (ring_Add [''b:1''] (p_ring alone_picker)) =
      \<lparr>config = ?cfg, points = [Point 127861663 ''b:1'' 0, Point 1077901647 ''a:1'' 0], nodes = [''a:1'', ''b:1'']\<rparr>"
    by (simp add: alone_picker_def New_def WithReplicas_def ring_Add_def Let_def sortPoints_def less_eq_point_def
        point_less_def DefaultConfig_def)
  show ?thesis
    using two_points_hash(3) by (simp add: r ring_Get_def Search_def searchLoop.simps DefaultConfig_def)
qed

theorem missing_client_panics_witness:
  "\<exists>q n. handleEvent (\<lambda>_. Some (Text ''refused'')) (PutEvent ''/services/locache/b:1'' ''b:1'') alone_picker no_conns = (q, n) \<and>
     picker_reachable q n \<and>
     (let env = flapping\<lparr>e_PickOwner := (\<lambda>key s. (PickOwner key q, s))\<rparr>; s = (fresh_group True True demo_cache, 0, False) in
      fst (Get env ''x'' s) = Panicked nilPanic \<and> fst (Set env ''x'' [1] s) = Panicked nilPanic \<and>
      fst (Delete env ''x'' s) = Panicked nilPanic)"
proof -
  let ?dial = "\<lambda>_. Some (Text ''refused'')" and ?ev = "PutEvent ''/services/locache/b:1'' ''b:1''"
  obtain q n where q: "handleEvent ?dial ?ev alone_picker no_conns = (q, n)" by fastforce
  then have "p_ring q = snd (ring_Add [''b:1''] (p_ring alone_picker))"
    by (auto simp: handleEvent_def addMember_def kv_addr_def alone_picker_def openClient_def NewClient_def Let_def)
  then have "ring_Get ''x'' (p_ring q) = ''b:1''" using two_members_owner by simp
  moreover have "kv_addr (svcName alone_picker) (''/services/locache/b:1'', ''b:1'') = ''b:1''" by (simp add: kv_addr_def)
  moreover have "''b:1'' \<notin> set (p_members alone_picker)" by (simp add: alone_picker_def)
  ultimately show ?thesis
    using missing_client_panics [OF alone_picker_reachable q, of "''b:1''" "Text ''refused''" "''x''"
      "flapping\<lparr>e_PickOwner := (\<lambda>key s. (PickOwner key q, s))\<rparr>" "fresh_group True True demo_cache" "[1]" "(0, False)"] q
    by (intro exI [of _ q] exI [of _ n]) (simp add: fresh_group_def)
qed

text \<open>A clock that advances by one at each reading.\<close>

definition ticking :: "int lenv" where
  "ticking = \<lparr>e_PickOwner = (\<lambda>key s. ((''b'', ClientPeer None, False, 1, True), s)), e_Epoch = (\<lambda>s. (1, s)),
     e_getter = (\<lambda>key s. (LoadError (Text ''none''), s)), e_now = (\<lambda>t. (t, t + 1)), e_flight = (\<lambda>c s. s)\<rparr>"

theorem near_staleness_bound_witness:
  "\<exists>g w g' s. near_trace ticking [(1, ''k'', [1], 2)] g w \<and> near_lookup ticking ''k'' ''b'' 1 (g, 9) = (Some [1], g', s) \<and>
     near_trace ticking [(1, ''k'', [1], 2)] g' s \<and> fst (near_lookup ticking ''k'' ''b'' 1 (g', 12)) = None"
proof -
  let ?g = "(fresh_group False True demo_cache)\<lparr>nearCache := Some demo_cache, nearTTL := 10\<rparr>"
  obtain g w where g: "add_near ticking (nearKey 1 ''k'') [1] (?g, 0) = (g, w)" by fastforce
  have c: "nearCache g = Cache_AddWithExpiration 1 2 3 (nearKey 1 ''k'') [1] 10 (Some demo_cache)" "nearTTL g = 10"
    using g by (auto simp: add_near_def add_for_def ticking_def)
  have "near_trace ticking [] ?g 0" 
    by (rule near_trace.start) (use demo_cache_facts in \<open>simp_all del: cache_view.simps cache_inv.simps\<close>)
  from near_trace.add [OF this g refl] have tr: "near_trace ticking [(1, ''k'', [1], 2)] g w" by (simp add: ticking_def)
  have room: "cache_room (Some demo_cache) (nearKey 1 ''k'') [1]"
    by (simp add: demo_cache_def newLRUCache_def lru_room_def newLRUCacheInternal_def absl_def a_del_def sized_def nearKey_def decimal.simps)
  have v9: "cache_view (nearCache g) 9 (nearKey 1 ''k'') = Some [1]"
    unfolding c by (rule view_AddWithExpiration_room [OF demo_cache_facts(1) room]) simp_all
  have inv: "cache_inv (nearCache g)" unfolding c by (rule cache_inv_ops [OF demo_cache_facts(1)])
  have tr9: "near_trace ticking [(1, ''k'', [1], 2)] g 9" by (rule near_trace.other [OF tr]) simp_all
  obtain r g' s where r: "near_lookup ticking ''k'' ''b'' 1 (g, 9) = (r, g', s)" by (rule prod_cases3)
  have "nearCache g \<noteq> None" using v9 by (cases "nearCache g") simp_all
  with r v9 have hit: "r = Some [1]" "nearTTL g' = 10"
    using Cache_Get_view [OF inv, of 9 "nearKey 1 ''k''"] c(2)
    by (auto simp: near_lookup_def near_Get_def ticking_def split: prod.splits option.splits)
  have tr': "near_trace ticking [(1, ''k'', [1], 2)] g' s"
    by (rule near_lookup_trace [OF tr9 _ r]) (simp add: ticking_def)
  have "near_prompt ticking (nearTTL g')" by (simp add: near_prompt_def ticking_def hit(2))
  note bound = near_staleness_bound [OF tr' this, of ticking "''k''" "''b''" 1 12]
  have "fst (near_lookup ticking ''k'' ''b'' 1 (g', 12)) = None"
  proof -
    obtain q s' where "near_lookup ticking ''k'' ''b'' 1 (g', 12) = (q, s')" by (rule prod.exhaust)
    with bound hit(2) show ?thesis by (cases q) (auto simp: ticking_def)
  qed
  with tr r hit(1) tr' show ?thesis by blast
qed

end
