(* ===== verification/Group_Interleaving.thy ===== *)
theory Group_Interleaving
  imports Group_Correct
begin

text \<open>
  The local operations of a group (\<^verbatim>\<open>getLocal\<close>, \<^verbatim>\<open>setLocal\<close> and \<^verbatim>\<open>deleteOwnerLocal\<close> of
  \<^verbatim>\<open>src/group.go\<close>) under every interleaving of any number of callers and every sequence of answers of the
  picker. Each operation is cut where it gives up a lock or calls out: at the picker, at the mutexes of the
  owner epoch, of the key states, of the mutation state, of the stores and of the loader, at the getter, and
  at the wait for a load in flight. A history of events, newest first, records what happened; the value a
  key has in it is that of the last mutation or fill since the cache was last emptied for a new epoch.
\<close>

section \<open>Histories\<close>

text \<open>
  \<open>Called\<close>: a reader has begun. \<open>Flight\<close>: a reader has become the leader of a call of the loader.
  \<open>LoadBegan\<close>: a leader has read the generation and asks the getter. \<open>Filled\<close>: it has stored the value
  loaded. \<open>Mutated\<close>: a value was set or deleted. \<open>Moved\<close>: the owner cache was emptied for a new epoch.
  \<open>Answered\<close>: a reader returns, from the cache or from a call.
\<close>

datatype gevent =
    Called nat string
  | Flight nat string
  | LoadBegan nat string
  | Filled nat string bytes
  | Mutated string "bytes option"
  | Moved uint64
  | Answered nat string "nat option" "bytes result"

fun cur :: "string \<Rightarrow> gevent list \<Rightarrow> bytes option" where
  "cur key [] = None"
| "cur key (Filled t k v # evs) = (if k = key then Some v else cur key evs)"
| "cur key (Mutated k x # evs) = (if k = key then x else cur key evs)"
| "cur key (Moved e # evs) = None"
| "cur key (_ # evs) = cur key evs"

text \<open>The values a key has had since an event.\<close>

fun since :: "gevent \<Rightarrow> string \<Rightarrow> gevent list \<Rightarrow> bytes set" where
  "since e key [] = {}"
| "since e key (e' # evs) = set_option (cur key (e' # evs)) \<union> (if e' = e then {} else since e key evs)"

text \<open>The number of mutations of a key, and those since a load began.\<close>

fun muts :: "string \<Rightarrow> gevent list \<Rightarrow> nat" where
  "muts key [] = 0"
| "muts key (Mutated k x # evs) = (if k = key then Suc (muts key evs) else muts key evs)"
| "muts key (_ # evs) = muts key evs"

abbreviation muts_during :: "nat \<Rightarrow> string \<Rightarrow> gevent list \<Rightarrow> nat" where
  "muts_during t key evs \<equiv> muts key (takeWhile (\<lambda>e. e \<noteq> LoadBegan t key) evs)"

section \<open>The sections of the operations\<close>

text \<open>
  Where a caller stands. \<open>nat\<close> arguments are the mutation state held and the call of the loader; the words are
  the epoch of the owner and the generation at the start of a load, and the time is its start.
\<close>

datatype gpc =
    GetStart string
  | GetClaim string uint64
  | GetAcquire string uint64
  | GetLookup string uint64 nat
  | GetMiss string uint64 nat
  | LoadLook string uint64 nat nat
  | LoadSource string uint64 nat nat uint64 time
  | LoadPick string uint64 nat nat uint64 bytes
  | LoadCheck string nat nat uint64 bytes
  | LoadEnd string nat nat "(bytes, error, string) outcome"
  | FlightRemove string nat nat
  | FlightDone string nat nat
  | FlightWait string nat nat
  | FlightWoken string nat nat
  | GetRelease string nat "nat option" "bytes result"
  | SetStart string bytes
  | SetClaim string bytes uint64
  | SetAcquire string bytes
  | SetWrite string nat bytes
  | DelStart string
  | DelClaim string uint64
  | DelAcquire string
  | DelWrite string nat
  | MutNear string nat
  | MutRelease string nat
  | Ended

text \<open>What \<^verbatim>\<open>getLocal\<close> makes of the result of the loader.\<close>

fun load_result :: "string \<Rightarrow> (bytes, error, string) outcome \<Rightarrow> bytes result" where
  "load_result key (Panic p) = Panicked p"
| "load_result key (Return v (Some err)) =
     (if errors_Is err ErrCacheMiss \<or> errors_Is err ErrTopologyChanged \<or> errors_Is err ErrNotOwner
      then Err err else Err (wrapped ''load %q from source: %w'' [S key] err))"
| "load_result key (Return (Some view) None) = Ok view"
| "load_result key (Return None None) = Panicked ''interface conversion''"

text \<open>What \<^verbatim>\<open>prepareLocalOwner\<close> makes of the answer of the picker, and whether its lock section empties the cache.\<close>

fun owner_check :: "pick \<Rightarrow> error + uint64" where
  "owner_check (owner, _, isSelf, epoch, ok) =
     (if \<not> ok \<or> owner = [] then Inl (Sentinel ErrNoOwner)
      else if \<not> isSelf then Inl (wrapped ''%w: owner=%s'' [S owner] (Sentinel ErrNotOwner))
      else Inr epoch)"

definition moved :: "uint64 \<Rightarrow> Group \<Rightarrow> gevent list" where
  "moved e g = (if g_peers g \<and> ownerEpoch g \<noteq> 0 \<and> ownerEpoch g \<noteq> e then [Moved e] else [])"

text \<open>
  The next section of caller \<open>t\<close>, with the events it adds; \<open>None\<close> while the caller waits or has ended. \<open>r\<close> is
  what the getter does and what the picker answers, if the section calls them. \<open>claim\<close> is the section of
  \<^verbatim>\<open>prepareLocalOwner\<close> under the mutex of the owner epoch.
\<close>

fun turn ::
    "('w, 'm) lenv_scheme \<Rightarrow> loaded \<times> pick \<Rightarrow> nat \<Rightarrow> gpc \<Rightarrow> Group \<Rightarrow> 'w \<Rightarrow> (gpc \<times> gevent list \<times> Group \<times> 'w) option" where
  "turn env r t (GetStart k) g w =
     (if g_closed g then Some (Ended, [Answered t k None (Err (Sentinel ErrGroupClosed)), Called t k], g, w)
      else if \<not> g_peers g then Some (GetAcquire k 0, [Called t k], g, w)
      else (case owner_check (snd r) of
              Inl err \<Rightarrow> Some (Ended, [Answered t k None (Err err), Called t k], g, w)
            | Inr e \<Rightarrow> Some (GetClaim k e, [Called t k], g, w)))"
| "turn env r t (GetClaim k e) g w = Some (GetAcquire k e, moved e g, claim e g, w)"
| "turn env r t (GetAcquire k e) g w = (case acquireKeyState k g of (i, g) \<Rightarrow> Some (GetLookup k e i, [], g, w))"
| "turn env r t (GetLookup k e i) g w =
     (case main_Get env k (g, w) of
        (Some view, s) \<Rightarrow>
          Some (GetRelease k i None (Ok view), [], count_stat (\<lambda>st. st\<lparr>localHits := localHits st + 1\<rparr>) s)
      | (None, s) \<Rightarrow> Some (GetMiss k e i, [], count_stat (\<lambda>st. st\<lparr>localMisses := localMisses st + 1\<rparr>) s))"
| "turn env r t (GetMiss k e i) g w =
     (if \<not> g_getter g then Some (GetRelease k i None (Err (Sentinel ErrCacheMiss)), [], g, w)
      else (case Do_enter k (loader g) of
              (Running _ c, l) \<Rightarrow> Some (LoadLook k e i c, [Flight c k], g\<lparr>loader := l\<rparr>, w)
            | (Waiting _ c, l) \<Rightarrow> Some (FlightWait k i c, [], g\<lparr>loader := l\<rparr>, w)
            | _ \<Rightarrow> None))"
| "turn env r t (LoadLook k e i c) g w =
     (case main_Get env k (g, w) of
        (Some view, s) \<Rightarrow> Some (LoadEnd k i c (Return (Some view) None), [], s)
      | (None, g, w) \<Rightarrow>
          (let (start, w) = e_now env w
           in Some (LoadSource k e i c (generation (stateHeap g ! i)) start, [LoadBegan t k],
                count_stat (\<lambda>st. st\<lparr>sourceLoads := sourceLoads st + 1\<rparr>) (g, w))))"
| "turn env r t (LoadSource k e i c gen start) g w =
     (case fst r of
        LoadPanic p \<Rightarrow> Some (LoadEnd k i c (Panic p), [], g, w)
      | _ \<Rightarrow>
          (let (stop, w) = e_now env w;
               s = count_stat (\<lambda>st. st\<lparr>sourceDuration := sourceDuration st + word_of_int (stop - start)\<rparr>) (g, w)
           in case fst r of
                LoadError err \<Rightarrow>
                  Some (LoadEnd k i c (Return None (Some err)), [], count_stat (\<lambda>st. st\<lparr>sourceErrors := sourceErrors st + 1\<rparr>) s)
              | Loaded view \<Rightarrow> Some (LoadPick k e i c gen view, [], s)))"
| "turn env r t (LoadPick k e i c gen view) g w =
     (case snd r of (_, _, isSelfNow, epochNow, ok) \<Rightarrow>
        (if g_peers g \<and> (\<not> ok \<or> \<not> isSelfNow \<or> epochNow \<noteq> e)
         then Some (LoadEnd k i c (Return None (Some (Sentinel ErrTopologyChanged))), [], g, w)
         else Some (LoadCheck k i c gen view, [], g, w)))"
| "turn env r t (LoadCheck k i c gen view) g w =
     (if generation (stateHeap g ! i) \<noteq> gen then
        (case main_Get env k (g, w) of
           (Some view, s) \<Rightarrow> Some (LoadEnd k i c (Return (Some view) None), [], s)
         | (None, s) \<Rightarrow> Some (LoadEnd k i c (Return None (Some (Sentinel ErrCacheMiss))), [], s))
      else Some (LoadEnd k i c (Return (Some view) None), [Filled t k view], addOwnerValue env k view (g, w)))"
| "turn env r t (LoadEnd k i c out) g w = Some (FlightRemove k i c, [], g\<lparr>loader := Do_fn c out (loader g)\<rparr>, w)"
| "turn env r t (FlightRemove k i c) g w = Some (FlightDone k i c, [], g\<lparr>loader := Do_remove k c (loader g)\<rparr>, w)"
| "turn env r t (FlightDone k i c) g w = Some (FlightWoken k i c, [], g\<lparr>loader := Do_done c (loader g)\<rparr>, w)"
| "turn env r t (FlightWait k i c) g w =
     (if wg (callHeap (loader g) ! c) = 0 then Some (FlightWoken k i c, [], g, w) else None)"
| "turn env r t (FlightWoken k i c) g w =
     Some (GetRelease k i (Some c) (load_result k (Do_result (callHeap (loader g) ! c))), [], g, w)"
| "turn env r t (GetRelease k i via res) g w = Some (Ended, [Answered t k via res], releaseKeyState k i g, w)"
| "turn env r t (SetStart k v) g w =
     (if g_closed g then Some (Ended, [], g, w)
      else if \<not> g_peers g then Some (SetAcquire k v, [], g, w)
      else (case owner_check (snd r) of Inl err \<Rightarrow> Some (Ended, [], g, w) | Inr e \<Rightarrow> Some (SetClaim k v e, [], g, w)))"
| "turn env r t (SetClaim k v e) g w = Some (SetAcquire k v, moved e g, claim e g, w)"
| "turn env r t (SetAcquire k v) g w = (case acquireKeyState k g of (i, g) \<Rightarrow> Some (SetWrite k i v, [], g, w))"
| "turn env r t (SetWrite k i v) g w = Some (MutNear k i, [Mutated k (Some v)], addOwnerValue env k v (bump i g, w))"
| "turn env r t (DelStart k) g w =
     (if g_closed g then Some (Ended, [], g, w)
      else if \<not> g_peers g then Some (DelAcquire k, [], g, w)
      else (case owner_check (snd r) of Inl err \<Rightarrow> Some (Ended, [], g, w) | Inr e \<Rightarrow> Some (DelClaim k e, [], g, w)))"
| "turn env r t (DelClaim k e) g w = Some (DelAcquire k, moved e g, claim e g, w)"
| "turn env r t (DelAcquire k) g w = (case acquireKeyState k g of (i, g) \<Rightarrow> Some (DelWrite k i, [], g, w))"
| "turn env r t (DelWrite k i) g w =
     (let g = bump i g
      in Some (MutNear k i, [Mutated k None], g\<lparr>mainCache := snd (Cache_Delete k (mainCache g))\<rparr>, w))"
| "turn env r t (MutNear k i) g w =
     (case snd r of (_, _, _, epoch, _) \<Rightarrow>
        Some (MutRelease k i, [],
          (if nearCache g = None \<or> \<not> g_peers g then g
           else g\<lparr>nearCache := snd (Cache_Delete (nearKey epoch k) (nearCache g))\<rparr>), w))"
| "turn env r t (MutRelease k i) g w = Some (Ended, [], releaseKeyState k i g, w)"
| "turn env r t Ended g w = None"

section \<open>Interleaving\<close>

record 'w gi =
  gi_grp :: Group
  gi_world :: 'w
  gi_thr :: "gpc list"
  gi_hist :: "gevent list"

definition advance :: "('w, 'm) lenv_scheme \<Rightarrow> loaded \<times> pick \<Rightarrow> nat \<Rightarrow> 'w gi \<Rightarrow> 'w gi option" where
  "advance env r t s =
     (if t < length (gi_thr s) then
        map_option (\<lambda>(p, es, g, w). \<lparr>gi_grp = g, gi_world = w, gi_thr = (gi_thr s)[t := p], gi_hist = es @ gi_hist s\<rparr>)
          (turn env r t (gi_thr s ! t) (gi_grp s) (gi_world s))
      else None)"

text \<open>
  A step is the next section of some caller, with any behaviour of the getter, the swap of the closed flag
  in \<^verbatim>\<open>Close\<close>, or something that can only take entries out of the cache, like the expiry sweep of the
  stores, \<^verbatim>\<open>Clear\<close> or the rest of \<^verbatim>\<open>Close\<close>.
\<close>

definition shrinks :: "Cache option \<Rightarrow> Cache option \<Rightarrow> bool" where
  "shrinks c c' \<longleftrightarrow> cache_inv c' \<and> (\<forall>t k. cache_view c' t k \<in> {None, cache_view c t k})"

inductive gi_step :: "('w, 'm) lenv_scheme \<Rightarrow> 'w gi \<Rightarrow> 'w gi \<Rightarrow> bool" for env where
  caller: "advance env r t s = Some s' \<Longrightarrow> gi_step env s s'"
| closing: "gi_step env s (s\<lparr>gi_grp := (gi_grp s)\<lparr>g_closed := True\<rparr>\<rparr>)"
| background: "shrinks (mainCache (gi_grp s)) c \<Longrightarrow> gi_step env s (s\<lparr>gi_grp := (gi_grp s)\<lparr>mainCache := c\<rparr>\<rparr>)"

text \<open>
  Callers start on a group as \<^verbatim>\<open>NewGroup\<close> makes it, with an empty cache. An invalidation by a peer calls
  \<^verbatim>\<open>deleteLocal\<close> directly and so starts where that begins.
\<close>

fun starting :: "gpc \<Rightarrow> bool" where
  "starting (GetStart k) = True"
| "starting (SetStart k v) = True"
| "starting (DelStart k) = True"
| "starting (DelAcquire k) = True"
| "starting _ = False"

definition gi_init :: "('w, 'm) lenv_scheme \<Rightarrow> 'w gi \<Rightarrow> bool" where
  "gi_init env s \<longleftrightarrow> prompt env (gi_grp s) \<and> cache_inv (mainCache (gi_grp s)) \<and>
     (\<forall>t k. cache_view (mainCache (gi_grp s)) t k = None) \<and> keyStates (gi_grp s) = [] \<and> stateHeap (gi_grp s) = [] \<and>
     loader (gi_grp s) = \<lparr>sf_m = None, callHeap = []\<rparr> \<and> list_all starting (gi_thr s) \<and> gi_hist s = []"

inductive gi_reachable :: "('w, 'm) lenv_scheme \<Rightarrow> 'w gi \<Rightarrow> bool" for env where
  init: "gi_init env s \<Longrightarrow> gi_reachable env s"
| step: "gi_reachable env s \<Longrightarrow> gi_step env s s' \<Longrightarrow> gi_reachable env s'"

section \<open>Frames\<close>

lemma main_Get_frame:
  assumes "main_Get env k (g, w) = (r, g', w')"
  obtains c where "g' = g\<lparr>mainCache := c\<rparr>"
  using assms by (auto simp: main_Get_def split: prod.splits)

lemma addOwnerValue_frame:
  assumes "addOwnerValue env k v (g, w) = (g', w')"
  obtains c where "g' = g\<lparr>mainCache := c\<rparr>"
  using assms by (auto simp: addOwnerValue_def split: prod.splits if_splits)

text \<open>A section keeps the settings of the group.\<close>

lemma acquire_keeps:
  "acquireKeyState k g = (i, g') \<Longrightarrow> mainCache g' = mainCache g \<and> expiration g' = expiration g \<and> loader g' = loader g \<and>
     g_getter g' = g_getter g \<and> g_peers g' = g_peers g"
  by (rule acquireKeyState_cases [of g k]) (auto simp: update_state_def)

lemma release_keeps:
  "mainCache (releaseKeyState k i g) = mainCache g" "expiration (releaseKeyState k i g) = expiration g"
  "loader (releaseKeyState k i g) = loader g" "g_getter (releaseKeyState k i g) = g_getter g" "g_peers (releaseKeyState k i g) = g_peers g"
  by (simp_all add: releaseKeyState_def update_state_def Let_def)

lemma bump_keeps [simp]:
  "mainCache (bump i g) = mainCache g" "expiration (bump i g) = expiration g" "loader (bump i g) = loader g"
  "keyStates (bump i g) = keyStates g" "g_peers (bump i g) = g_peers g"
  by (simp_all add: bump_def update_state_def)

lemma moved_simps [simp]:
  "Called t k \<notin> set (moved e g)" "Flight c k \<notin> set (moved e g)" "LoadBegan t k \<notin> set (moved e g)"
  "muts k (takeWhile P (moved e g)) = 0" "muts k (moved e g @ evs) = muts k evs"
  by (simp_all add: moved_def)

lemma since_cur: "cur k evs = Some v \<Longrightarrow> v \<in> since e k evs"
  by (cases evs) auto

lemma since_append: "e \<notin> set es \<Longrightarrow> v \<in> since e k evs \<Longrightarrow> v \<in> since e k (es @ evs)"
  by (induction es) auto

lemma muts_le: "muts k evs \<le> length evs"
  by (induction k evs rule: muts.induct) auto

section \<open>The cache holds nothing but the value of the history\<close>

definition cache_part :: "('w, 'm) lenv_scheme \<Rightarrow> Group \<Rightarrow> gevent list \<Rightarrow> bool" where
  "cache_part env g evs \<longleftrightarrow> cache_inv (mainCache g) \<and> prompt env g \<and> (\<forall>x k. cache_view (mainCache g) x k \<in> {None, cur k evs})"

lemma cache_part_simps [simp]:
  "cache_part env (g\<lparr>nearCache := n\<rparr>) evs = cache_part env g evs"
  "cache_part env (g\<lparr>g_stats := st\<rparr>) evs = cache_part env g evs" "cache_part env (g\<lparr>loader := l\<rparr>) evs = cache_part env g evs"
  "cache_part env (bump i g) evs = cache_part env g evs" "cache_part env (releaseKeyState k i g) evs = cache_part env g evs"
  "cache_part env g (Called t k # evs) = cache_part env g evs" "cache_part env g (Flight c k # evs) = cache_part env g evs"
  "cache_part env g (LoadBegan t k # evs) = cache_part env g evs" "cache_part env g (Answered t k via res # evs) = cache_part env g evs"
  by (simp_all add: cache_part_def prompt_def release_keeps)

lemma cache_part_acquire: "acquireKeyState k g = (i, g') \<Longrightarrow> cache_part env g' evs = cache_part env g evs"
  using acquire_keeps [of k g i g'] by (simp add: cache_part_def prompt_def)

lemma cache_part_get:
  assumes "cache_part env g evs" "main_Get env k (g, w) = (r, g', w')"
  shows "cache_part env g' evs" "r = Some v \<Longrightarrow> cur k evs = Some v"
proof -
  have inv: "cache_inv (mainCache g)" and view: "cache_view (mainCache g) x k \<in> {None, cur k evs}" for x k
    using assms(1) by (simp_all add: cache_part_def)
  obtain t c w'' where m: "main_Get env k (g, w) = (cache_view (mainCache g) t k, g\<lparr>mainCache := c\<rparr>, w'')" "cache_inv c"
    "\<And>x k. cache_view c x k \<in> {None, cache_view (mainCache g) x k}"
    by (rule main_Get_effect [OF inv, of env k w]) (rule that)
  then have eq: "r = cache_view (mainCache g) t k" "g' = g\<lparr>mainCache := c\<rparr>" using assms(2) by simp_all
  have "cache_view c x k \<in> {None, cur k evs}" for x k using m(3) [of x k] view [of x k] by auto
  then show "cache_part env g' evs" using assms(1) m(2) by (simp add: cache_part_def eq prompt_def)
  show "cur k evs = Some v" if "r = Some v" using view [of t k] that eq by simp
qed

lemma cache_part_add:
  assumes "cache_part env g evs" "addOwnerValue env k v (g, w) = (g', w')" "cur k (e # evs) = Some v"
    "\<And>k'. k' \<noteq> k \<Longrightarrow> cur k' (e # evs) = cur k' evs"
  shows "cache_part env g' (e # evs)"
proof -
  have inv: "cache_inv (mainCache g)" "prompt env g" and view: "cache_view (mainCache g) x k \<in> {None, cur k evs}" for x k
    using assms(1) by (simp_all add: cache_part_def)
  obtain c w'' where a: "addOwnerValue env k v (g, w) = (g\<lparr>mainCache := c\<rparr>, w'')" "cache_inv c"
    "\<And>t. cache_view c t k \<in> {None, Some v}" "\<And>t k'. k' \<noteq> k \<Longrightarrow> cache_view c t k' \<in> {None, cache_view (mainCache g) t k'}"
    by (rule addOwnerValue_effect [OF inv, of k v w]) (rule that)
  have "cache_view c x k' \<in> {None, cur k' (e # evs)}" for x k'
    using a(3) [of x] a(4) [of k' x] view [of x k'] assms(3,4) by (cases "k' = k") auto
  then show ?thesis using a(1,2) assms(2) inv(2) by (simp add: cache_part_def prompt_def)
qed

lemma cache_part_claim: "cache_part env g evs \<Longrightarrow> cache_part env (claim e g) (moved e g @ evs)"
  by (auto simp: cache_part_def prompt_def claim_def moved_def cache_inv_ops view_Clear)

lemma cache_part_turn:
  assumes "cache_part env g evs" "turn env r t p g w = Some (p', es, g', w')"
  shows "cache_part env g' (es @ evs)"
proof (cases p)
  case (GetLookup k e i)
  then show ?thesis using assms(2) cache_part_get(1) [OF assms(1), of k w] by (auto split: prod.splits option.splits)
next
  case (LoadLook k e i c)
  then show ?thesis using assms(2) cache_part_get(1) [OF assms(1), of k w] by (auto split: prod.splits option.splits)
next
  case (LoadCheck k i c gen v)
  show ?thesis
  proof (cases "generation (stateHeap g ! i) = gen")
    case True
    with LoadCheck assms(2) cache_part_add [OF assms(1), of k v w g' w' "Filled t k v"] show ?thesis by auto
  next
    case False
    with LoadCheck assms(2) cache_part_get(1) [OF assms(1), of k w] show ?thesis
      by (auto split: prod.splits option.splits)
  qed
next
  case (SetWrite k i v)
  have "cache_part env (bump i g) evs" using assms(1) by simp
  from cache_part_add [OF this, of k v w g' w' "Mutated k (Some v)"] SetWrite assms(2) show ?thesis by auto
next
  case (DelWrite k i)
  then have "es = [Mutated k None]" "g' = (bump i g)\<lparr>mainCache := snd (Cache_Delete k (mainCache g))\<rparr>"
    using assms(2) by (simp_all add: Let_def)
  moreover have "cache_inv (mainCache g)" "cache_view (mainCache g) x k' \<in> {None, cur k' evs}" for x k'
    using assms(1) by (simp_all add: cache_part_def)
  ultimately show ?thesis using assms(1) by (simp add: cache_part_def prompt_def cache_inv_ops view_Delete)
qed (use assms in \<open>auto simp: cache_part_acquire cache_part_claim Let_def split: if_splits prod.splits pc.splits loaded.splits sum.splits\<close>)

section \<open>Mutation states\<close>

fun holds :: "gpc \<Rightarrow> holders" where
  "holds (GetLookup k e i) = {#(k, i)#}"
| "holds (GetMiss k e i) = {#(k, i)#}"
| "holds (LoadLook k e i c) = {#(k, i)#}"
| "holds (LoadSource k e i c gen start) = {#(k, i)#}"
| "holds (LoadPick k e i c gen v) = {#(k, i)#}"
| "holds (LoadCheck k i c gen v) = {#(k, i)#}"
| "holds (LoadEnd k i c out) = {#(k, i)#}"
| "holds (FlightRemove k i c) = {#(k, i)#}"
| "holds (FlightDone k i c) = {#(k, i)#}"
| "holds (FlightWait k i c) = {#(k, i)#}"
| "holds (FlightWoken k i c) = {#(k, i)#}"
| "holds (GetRelease k i via res) = {#(k, i)#}"
| "holds (SetWrite k i v) = {#(k, i)#}"
| "holds (DelWrite k i) = {#(k, i)#}"
| "holds (MutNear k i) = {#(k, i)#}"
| "holds (MutRelease k i) = {#(k, i)#}"
| "holds _ = {#}"

abbreviation all_holders :: "gpc list \<Rightarrow> holders" where
  "all_holders ps \<equiv> sum_list (map holds ps)"

lemma all_holders_update:
  assumes "t < length ps"
  shows "all_holders (ps[t := p]) = all_holders ps - holds (ps ! t) + holds p" "holds (ps ! t) \<subseteq># all_holders ps"
proof -
  have "all_holders (ps[t := p]) + holds (ps ! t) = all_holders ps + holds p"
    using assms by (subst (2) id_take_nth_drop [OF assms]) (simp add: upd_conv_take_nth_drop)
  moreover have "all_holders ps = all_holders (take t ps) + holds (ps ! t) + all_holders (drop (Suc t) ps)"
    by (subst id_take_nth_drop [OF assms]) simp
  then show "holds (ps ! t) \<subseteq># all_holders ps" by simp
  ultimately show "all_holders (ps[t := p]) = all_holders ps - holds (ps ! t) + holds p"
    by (metis add_diff_cancel_right' subset_mset.add_diff_assoc2 union_commute)
qed

lemma ks_inv_simps [simp]:
  "ks_inv (g\<lparr>nearCache := n\<rparr>) H = ks_inv g H" "ks_inv (claim e g) H = ks_inv g H"
  "ks_inv (g\<lparr>mainCache := c\<rparr>) H = ks_inv g H" "ks_inv (g\<lparr>g_stats := st\<rparr>) H = ks_inv g H" "ks_inv (g\<lparr>loader := l\<rparr>) H = ks_inv g H"
  by (simp_all add: ks_inv_def)

lemma ks_inv_bump: "ks_inv g H \<Longrightarrow> (k, i) \<in># H \<Longrightarrow> ks_inv (bump i g) H"
  by (rule ks_inv_step [OF ks_step.mutate])

lemma ks_turn:
  assumes "ks_inv g H" "turn env r t p g w = Some (p', es, g', w')" "holds p \<subseteq># H"
  shows "ks_inv g' (H - holds p + holds p')"
proof (cases p)
  case (SetWrite k i v)
  with assms ks_inv_bump [OF assms(1), of k i] show ?thesis by (auto elim!: addOwnerValue_frame)
next
  case (DelWrite k i)
  with assms ks_inv_bump [OF assms(1), of k i] show ?thesis by (auto simp: Let_def)
next
  case (GetRelease k i via res)
  with assms ks_inv_release [OF assms(1), of k i] show ?thesis by auto
next
  case (MutRelease k i)
  with assms ks_inv_release [OF assms(1), of k i] show ?thesis by auto
qed (use assms in \<open>auto simp: Let_def dest: ks_inv_acquire elim!: main_Get_frame addOwnerValue_frame
  split: prod.splits option.splits if_splits pc.splits loaded.splits sum.splits\<close>)

section \<open>The loader\<close>

text \<open>Where a caller stands in \<^verbatim>\<open>Do\<close>; outside of it, it counts as not yet arrived.\<close>

fun stands :: "gpc \<Rightarrow> (bytes, error, string) pc" where
  "stands (LoadLook k e i c) = Running k c"
| "stands (LoadSource k e i c gen start) = Running k c"
| "stands (LoadPick k e i c gen v) = Running k c"
| "stands (LoadCheck k i c gen v) = Running k c"
| "stands (LoadEnd k i c out) = Running k c"
| "stands (FlightRemove k i c) = Finished k c"
| "stands (FlightDone k i c) = Removed k c"
| "stands (FlightWait k i c) = Waiting k c"
| "stands (FlightWoken k i c) = Woken k c"
| "stands (GetMiss k e i) = Start k"
| "stands _ = Start []"

abbreviation sf_of :: "Group \<Rightarrow> gpc list \<Rightarrow> (bytes, error, string) sf_state" where
  "sf_of g ps \<equiv> \<lparr>grp = loader g, thr = map stands ps\<rparr>"

lemma loader_keeps:
  assumes "turn env r t p g w = Some (p', es, g', w')"
    "\<And>k e i. p \<noteq> GetMiss k e i" "\<And>k i c out. p \<noteq> LoadEnd k i c out" "\<And>k i c. p \<noteq> FlightRemove k i c" "\<And>k i c. p \<noteq> FlightDone k i c"
  shows "loader g' = loader g"
  using assms by (cases p) (auto simp: Let_def release_keeps dest: acquire_keeps elim!: main_Get_frame addOwnerValue_frame
    split: prod.splits option.splits if_splits pc.splits loaded.splits sum.splits)

lemma sf_turn:
  assumes inv: "sf_inv (sf_of g ps)" and t: "t < length ps" and u: "turn env r t (ps ! t) g w = Some (p', es, g', w')"
  shows "sf_inv (sf_of g' (ps[t := p']))"
proof -
  note t' = t [folded length_map [of stands ps]]
  have own: "sf_inv (sf_of g' (ps[t := p']))" if "loader g' = loader g" "leads (stands (ps ! t)) = None" "leads (stands p') = None"
      "pc_ok (loader g) (stands p')"
    using inv_own [OF inv, of t "stands p'"] that t by (simp add: map_update)
  have same: "sf_inv (sf_of g' (ps[t := p']))" if "loader g' = loader g" "stands p' = stands (ps ! t)"
  proof -
    have "map stands (ps[t := p']) = map stands ps" using that(2) by (metis list_update_id map_update)
    with inv that(1) show ?thesis by simp
  qed
  note ok = sf_invD(1) [OF inv, of t]
  show ?thesis
  proof (cases "ps ! t")
    case (GetMiss k e i)
    show ?thesis
    proof (cases "g_getter g")
      case True
      obtain q l where e: "Do_enter k (loader g) = (q, l)" by fastforce
      have "stands p' = q" "loader g' = l"
        by (rule Do_enter_cases [of "loader g" k]; use u GetMiss True e in auto)+
      with inv_enter [OF inv, of t k q l] GetMiss e t show ?thesis by (simp add: map_update)
    next
      case False
      with GetMiss u show ?thesis by (intro own) auto
    qed
  next
    case (LoadEnd k i c out)
    with inv_fn [OF inv, of t k c out] u t show ?thesis by (auto simp: map_update)
  next
    case (FlightRemove k i c)
    with inv_remove [OF inv, of t k c] u t show ?thesis by (auto simp: map_update)
  next
    case (FlightDone k i c)
    with inv_done [OF inv, of t k c] u t show ?thesis by (auto simp: map_update)
  next
    case (FlightWait k i c)
    with u ok t show ?thesis by (intro own) (auto split: if_splits)
  next
    case (FlightWoken k i c)
    with u show ?thesis by (intro own) auto
  next
    case (GetLookup k e i)
    with u loader_keeps [OF u] show ?thesis by (intro own) (auto split: prod.splits option.splits)
  qed (use u loader_keeps [OF u] in \<open>(intro same; auto simp: Let_def split: prod.splits option.splits if_splits loaded.splits sum.splits)\<close>)+
qed

section \<open>Generations\<close>

text \<open>While a load runs, the generation counts the mutations since it began.\<close>

fun gen_ok :: "Group \<Rightarrow> gevent list \<Rightarrow> nat \<Rightarrow> gpc \<Rightarrow> bool" where
  "gen_ok g evs t (LoadSource k e i c gen start) \<longleftrightarrow>
     LoadBegan t k \<in> set evs \<and> generation (stateHeap g ! i) = gen + of_nat (muts_during t k evs)"
| "gen_ok g evs t (LoadPick k e i c gen v) \<longleftrightarrow>
     LoadBegan t k \<in> set evs \<and> generation (stateHeap g ! i) = gen + of_nat (muts_during t k evs)"
| "gen_ok g evs t (LoadCheck k i c gen v) \<longleftrightarrow>
     LoadBegan t k \<in> set evs \<and> generation (stateHeap g ! i) = gen + of_nat (muts_during t k evs)"
| "gen_ok g evs t _ \<longleftrightarrow> True"

text \<open>The generation of a state changes only by a mutation of its key.\<close>

lemma gen_turn:
  assumes "turn env r t p g w = Some (p', es, g', w')" "i < length (stateHeap g)"
  shows "generation (stateHeap g' ! i) = generation (stateHeap g ! i) +
    (if (\<exists>k v. p = SetWrite k i v) \<or> (\<exists>k. p = DelWrite k i) then 1 else 0)"
proof -
  have acq: "generation (stateHeap g1 ! i) = generation (stateHeap g ! i)" if "acquireKeyState k g = (j, g1)" for k j g1
    by (rule acquireKeyState_cases [of g k]; cases "j = i"; use that assms(2) in \<open>auto simp: nth_append\<close>)
  have rel: "generation (stateHeap (releaseKeyState k j g) ! i) = generation (stateHeap g ! i)" for k j
    using assms(2) by (cases "j = i") (auto simp: releaseKeyState_def Let_def)
  have bump: "generation (stateHeap (bump j g) ! i) = generation (stateHeap g ! i) + (if j = i then 1 else 0)" for j
    using assms(2) by (cases "j = i") (simp_all add: bump_def)
  show ?thesis
    using assms(1) by (cases p) (auto simp: Let_def rel bump dest: acq elim!: main_Get_frame addOwnerValue_frame
      split: prod.splits option.splits if_splits pc.splits loaded.splits sum.splits)
qed

lemma turn_muts:
  assumes "turn env r t p g w = Some (p', es, g', w')"
  shows "muts k (takeWhile P (es @ evs)) = (if \<exists>e. e \<in> set es \<and> \<not> P e then 0 else
     muts k (takeWhile P evs) + (if (\<exists>i v. p = SetWrite k i v) \<or> (\<exists>i. p = DelWrite k i) then 1 else 0))"
  using assms by (cases p) (auto simp: Let_def split: prod.splits option.splits if_splits pc.splits loaded.splits sum.splits)

lemma gen_ok_turn:
  assumes ks: "ks_inv g H" "holds p \<subseteq># H" "holds q \<subseteq># H" and u: "turn env r t p g w = Some (p', es, g', w')"
    and q: "gen_ok g evs n q" "n \<noteq> t"
  shows "gen_ok g' (es @ evs) n q"
proof -
  have new: "LoadBegan n k \<notin> set es" for k
    using u q(2) by (cases p) (auto simp: Let_def split: prod.splits option.splits if_splits pc.splits loaded.splits sum.splits)
  have "generation (stateHeap g' ! i) = gen + of_nat (muts_during n k (es @ evs))"
    if "generation (stateHeap g ! i) = gen + of_nat (muts_during n k evs)" "(k, i) \<in># H" for k i gen
  proof -
    have "i < length (stateHeap g)" using ks_invD(3) [OF ks(1) that(2)] .
    moreover have "(\<exists>k v. p = SetWrite k i v) \<or> (\<exists>k. p = DelWrite k i) \<longleftrightarrow> (\<exists>i v. p = SetWrite k i v) \<or> (\<exists>i. p = DelWrite k i)"
      using ks(2) that(2) ks_invD(2,5) [OF ks(1)] by (cases p) (auto, metis option.inject, metis option.inject)
    ultimately show ?thesis
      using gen_turn [OF u] turn_muts [OF u, of k "\<lambda>e. e \<noteq> LoadBegan n k" evs] new [of k] that(1) by auto
  qed
  with q(1) ks(3) show ?thesis by (cases q) (auto simp del: takeWhile_append)
qed

lemma gen_ok_own:
  assumes u: "turn env r t p g w = Some (p', es, g', w')" and q: "gen_ok g evs t p"
  shows "gen_ok g' (es @ evs) t p'"
  using u q by (cases p) (auto simp: Let_def elim!: main_Get_frame addOwnerValue_frame
    split: prod.splits option.splits if_splits pc.splits loaded.splits sum.splits)

section \<open>Values on their way to a reader\<close>

definition answer_ok :: "gevent list \<Rightarrow> nat \<Rightarrow> string \<Rightarrow> nat option \<Rightarrow> bytes result \<Rightarrow> bool" where
  "answer_ok evs t k via res \<longleftrightarrow> (\<forall>v. res = Ok v \<longrightarrow>
     (case via of None \<Rightarrow> v \<in> since (Called t k) k evs | Some c \<Rightarrow> Flight c k \<in> set evs \<and> v \<in> since (Flight c k) k evs))"

fun val_ok :: "gevent list \<Rightarrow> nat \<Rightarrow> gpc \<Rightarrow> bool" where
  "val_ok evs t (GetClaim k e) \<longleftrightarrow> Called t k \<in> set evs"
| "val_ok evs t (GetAcquire k e) \<longleftrightarrow> Called t k \<in> set evs"
| "val_ok evs t (GetLookup k e i) \<longleftrightarrow> Called t k \<in> set evs"
| "val_ok evs t (GetMiss k e i) \<longleftrightarrow> Called t k \<in> set evs"
| "val_ok evs t (LoadLook k e i c) \<longleftrightarrow> Called t k \<in> set evs \<and> Flight c k \<in> set evs"
| "val_ok evs t (LoadSource k e i c gen start) \<longleftrightarrow> Called t k \<in> set evs \<and> Flight c k \<in> set evs"
| "val_ok evs t (LoadPick k e i c gen v) \<longleftrightarrow> Called t k \<in> set evs \<and> Flight c k \<in> set evs"
| "val_ok evs t (LoadCheck k i c gen v) \<longleftrightarrow> Called t k \<in> set evs \<and> Flight c k \<in> set evs"
| "val_ok evs t (LoadEnd k i c out) \<longleftrightarrow> Called t k \<in> set evs \<and> Flight c k \<in> set evs \<and>
     (\<forall>v. out = Return (Some v) None \<longrightarrow> v \<in> since (Flight c k) k evs)"
| "val_ok evs t (FlightRemove k i c) \<longleftrightarrow> Called t k \<in> set evs \<and> Flight c k \<in> set evs"
| "val_ok evs t (FlightDone k i c) \<longleftrightarrow> Called t k \<in> set evs \<and> Flight c k \<in> set evs"
| "val_ok evs t (FlightWait k i c) \<longleftrightarrow> Called t k \<in> set evs \<and> Flight c k \<in> set evs"
| "val_ok evs t (FlightWoken k i c) \<longleftrightarrow> Called t k \<in> set evs \<and> Flight c k \<in> set evs"
| "val_ok evs t (GetRelease k i via res) \<longleftrightarrow> Called t k \<in> set evs \<and> answer_ok evs t k via res"
| "val_ok evs t _ \<longleftrightarrow> True"

definition flights_ok :: "(bytes, error, string) sfGroup \<Rightarrow> gevent list \<Rightarrow> bool" where
  "flights_ok l evs \<longleftrightarrow>
     (\<forall>c k. Flight c k \<in> set evs \<longrightarrow> c < length (callHeap l) \<and>
        (\<forall>v. Do_result (callHeap l ! c) = Return (Some v) None \<longrightarrow> v \<in> since (Flight c k) k evs)) \<and>
     (\<forall>c k k'. Flight c k \<in> set evs \<longrightarrow> Flight c k' \<in> set evs \<longrightarrow> k = k')"

lemma flights_okD:
  assumes "flights_ok l evs" "Flight c k \<in> set evs"
  shows "c < length (callHeap l)" "Do_result (callHeap l ! c) = Return (Some v) None \<Longrightarrow> v \<in> since (Flight c k) k evs"
    "Flight c k' \<in> set evs \<Longrightarrow> k' = k"
  using assms unfolding flights_ok_def by blast+

text \<open>The events of a section are its caller's own, and a call is new.\<close>

lemma turn_events:
  assumes "turn env r t p g w = Some (p', es, g', w')"
  shows "Called n k \<in> set es \<Longrightarrow> n = t \<and> p = GetStart k" "Flight c k \<in> set es \<Longrightarrow> c = length (callHeap (loader g)) \<and> (\<exists>e i. p = GetMiss k e i)"
  using assms by (cases p; auto simp: Let_def Do_enter_def split: prod.splits option.splits if_splits pc.splits loaded.splits sum.splits)+

lemma since_turn:
  assumes u: "turn env r t p g w = Some (p', es, g', w')" and fl: "flights_ok (loader g) evs"
  shows "v \<in> since (Flight c k) k evs \<Longrightarrow> Flight c k \<in> set evs \<Longrightarrow> v \<in> since (Flight c k) k (es @ evs)"
    "v \<in> since (Called n k') k evs \<Longrightarrow> n \<noteq> t \<or> p \<noteq> GetStart k' \<Longrightarrow> v \<in> since (Called n k') k (es @ evs)"
proof -
  show "v \<in> since (Flight c k) k (es @ evs)" if v: "v \<in> since (Flight c k) k evs" and f: "Flight c k \<in> set evs"
  proof (rule since_append [OF _ v])
    show "Flight c k \<notin> set es" using turn_events(2) [OF u, of c k] flights_okD(1) [OF fl f] by auto
  qed
  show "v \<in> since (Called n k') k (es @ evs)" if v: "v \<in> since (Called n k') k evs" and f: "n \<noteq> t \<or> p \<noteq> GetStart k'"
  proof (rule since_append [OF _ v])
    show "Called n k' \<notin> set es" using turn_events(1) [OF u, of n k'] f by auto
  qed
qed

lemma answer_ok_turn:
  assumes u: "turn env r t p g w = Some (p', es, g', w')" and fl: "flights_ok (loader g) evs"
    and a: "answer_ok evs n k via res" "n \<noteq> t \<or> p \<noteq> GetStart k"
  shows "answer_ok (es @ evs) n k via res"
  using a since_turn [OF u fl] unfolding answer_ok_def by (auto split: option.splits)

lemma val_ok_other:
  assumes u: "turn env r t p g w = Some (p', es, g', w')" and fl: "flights_ok (loader g) evs" and q: "val_ok evs n q" "n \<noteq> t"
  shows "val_ok (es @ evs) n q"
  using q since_turn(1) [OF u fl] answer_ok_turn [OF u fl] by (cases q) auto

text \<open>A call found in the map was begun by a leader of the same key.\<close>

lemma joined_flight:
  assumes sf: "sf_inv (sf_of g ps)" and vals: "\<forall>n < length ps. val_ok evs n (ps ! n)" and c: "inflight (loader g) k = Some c"
  shows "Flight c k \<in> set evs"
proof -
  obtain n where n: "n < length ps" "stands (ps ! n) \<in> {Running k c, Finished k c}"
    using sf_invD(4) [OF sf, of k c] c by auto
  with vals have "val_ok evs n (ps ! n)" by blast
  with n(2) show ?thesis by (cases "ps ! n") auto
qed

lemma val_ok_own:
  assumes u: "turn env r t p g w = Some (p', es, g', w')" and fl: "flights_ok (loader g) evs" and q: "val_ok evs t p"
    and cache: "cache_part env g evs" and join: "\<And>k c. inflight (loader g) k = Some c \<Longrightarrow> Flight c k \<in> set evs"
  shows "val_ok (es @ evs) t p'"
proof (cases p)
  case (GetLookup k e i)
  with u q cache_part_get(2) [OF cache, of k w] show ?thesis
    by (auto simp: answer_ok_def intro: since_cur split: prod.splits option.splits)
next
  case (GetMiss k e i)
  then show ?thesis
    by (rule_tac Do_enter_cases [of "loader g" k]) (use u q join in \<open>auto simp: answer_ok_def split: if_splits\<close>)
next
  case (LoadLook k e i c)
  with u q cache_part_get(2) [OF cache, of k w] show ?thesis
    by (auto intro: since_cur split: prod.splits option.splits)
next
  case (LoadCheck k i c gen v)
  with u q cache_part_get(2) [OF cache, of k w] show ?thesis
    by (auto intro: since_cur split: prod.splits option.splits if_splits)
next
  case (FlightWoken k i c)
  have "Do_result (callHeap (loader g) ! c) = Return (Some v) None" if "load_result k (Do_result (callHeap (loader g) ! c)) = Ok v" for v
    using that by (cases "(k, Do_result (callHeap (loader g) ! c))" rule: load_result.cases) (auto split: if_splits)
  with FlightWoken u q flights_okD(2) [OF fl] show ?thesis by (auto simp: answer_ok_def)
qed (use u q in \<open>auto simp: Let_def split: prod.splits option.splits if_splits loaded.splits sum.splits\<close>)

lemma flights_ok_new:
  assumes fl: "flights_ok l evs" and l': "callHeap l' = callHeap l @ [x]" "Do_result x = Return None None"
  shows "flights_ok l' (Flight (length (callHeap l)) k # evs)"
proof -
  let ?n = "length (callHeap l)"
  have old: "c < ?n" if "Flight c k' \<in> set evs" for c k' using flights_okD(1) [OF fl that] .
  have "c < length (callHeap l') \<and> (\<forall>v. Do_result (callHeap l' ! c) = Return (Some v) None \<longrightarrow> v \<in> since (Flight c k') k' (Flight ?n k # evs))"
    if "Flight c k' \<in> set (Flight ?n k # evs)" for c k'
  proof (cases "Flight c k' \<in> set evs")
    case True
    then have "Flight c k' \<noteq> Flight ?n k" using old by blast
    with True old [OF True] flights_okD(2) [OF fl True] show ?thesis
      using since_append [of "Flight c k'" "[Flight ?n k]" _ k' evs] by (simp add: l'(1) nth_append)
  next
    case False
    with that show ?thesis by (simp add: l')
  qed
  moreover have "k1 = k2" if "Flight c k1 \<in> set (Flight ?n k # evs)" "Flight c k2 \<in> set (Flight ?n k # evs)" for c k1 k2
    using that flights_okD(3) [OF fl] old by (metis gevent.inject(2) less_irrefl set_ConsD)
  ultimately show ?thesis unfolding flights_ok_def by blast
qed

lemma flights_ok_keep:
  assumes fl: "flights_ok l evs" and es: "\<And>c k. Flight c k \<notin> set es" and l': "length (callHeap l') = length (callHeap l)"
    and res: "\<And>c k v. \<lbrakk>Flight c k \<in> set evs; Do_result (callHeap l' ! c) = Return (Some v) None\<rbrakk> \<Longrightarrow> v \<in> since (Flight c k) k evs"
  shows "flights_ok l' (es @ evs)"
proof -
  have "c < length (callHeap l') \<and> (\<forall>v. Do_result (callHeap l' ! c) = Return (Some v) None \<longrightarrow> v \<in> since (Flight c k) k (es @ evs))"
    if "Flight c k \<in> set evs" for c k
    using flights_okD(1) [OF fl that] l' res [OF that] since_append [OF es] by simp
  moreover have "Flight c k \<in> set (es @ evs) \<longleftrightarrow> Flight c k \<in> set evs" for c k using es by simp
  ultimately show ?thesis using flights_okD(3) [OF fl] unfolding flights_ok_def by blast
qed

lemma flights_ok_turn:
  assumes u: "turn env r t p g w = Some (p', es, g', w')" and fl: "flights_ok (loader g) evs" and q: "val_ok evs t p"
    and run: "pc_ok (loader g) (stands p)"
  shows "flights_ok (loader g') (es @ evs)"
proof -
  have keep: "flights_ok (loader g') (es @ evs)" if "loader g' = loader g" "\<nexists>k e i. p = GetMiss k e i"
    by (rule flights_ok_keep [OF fl]) (use that turn_events(2) [OF u] flights_okD(2) [OF fl] in auto)
  show ?thesis
  proof (cases p)
    case (GetMiss k e i)
    show ?thesis
    proof (cases "g_getter g")
      case True
      show ?thesis
      proof (cases rule: Do_enter_cases [of "loader g" k])
        case (join c)
        with True GetMiss u fl show ?thesis by (auto simp: flights_ok_def)
      next
        case lead
        with True GetMiss u show ?thesis
          by (auto intro!: flights_ok_new [OF fl, where x = "new_call\<lparr>wg := 1\<rparr>"] simp: Do_result_def new_call_def)
      qed
    next
      case False
      with GetMiss u fl show ?thesis by simp
    qed
  next
    case (LoadEnd k i c out)
    have l: "loader g' = Do_fn c out (loader g)" "es = []" using u LoadEnd by auto
    have c: "c < length (callHeap (loader g))" "panicVal (callHeap (loader g) ! c) = None" using run LoadEnd by auto
    show ?thesis
    proof (rule flights_ok_keep [OF fl])
      fix c' k' v assume f: "Flight c' k' \<in> set evs" and v: "Do_result (callHeap (loader g') ! c') = Return (Some v) None"
      show "v \<in> since (Flight c' k') k' evs"
      proof (cases "c' = c")
        case True
        then have "k' = k" using flights_okD(3) [OF fl, of c k k'] f q LoadEnd by simp
        with True v q LoadEnd show ?thesis by (simp add: l Do_result_fn [OF c])
      next
        case False
        with v flights_okD(2) [OF fl f] show ?thesis by (simp add: l Do_fn_other)
      qed
    qed (simp_all add: l Do_fn_other)
  next
    case (FlightRemove k i c)
    with u fl show ?thesis by (auto simp: flights_ok_def)
  next
    case (FlightDone k i c)
    then have l: "loader g' = Do_done c (loader g)" "es = []" using u by auto
    show ?thesis
      by (rule flights_ok_keep [OF fl]) (use flights_okD [OF fl] in \<open>auto simp: l Do_done_result\<close>)
  next
    case (FlightWait k i c)
    with u fl show ?thesis by (auto split: if_splits)
  qed (intro keep loader_keeps [OF u]; simp)+
qed

section \<open>The invariant\<close>

text \<open>No mutation of the key lies between the start of a load and its fill, and answers are as \<open>answer_ok\<close> says.\<close>

fun hist_ok :: "gevent list \<Rightarrow> bool" where
  "hist_ok [] \<longleftrightarrow> True"
| "hist_ok (Filled t k v # evs) \<longleftrightarrow> LoadBegan t k \<in> set evs \<and> muts_during t k evs = 0 \<and> hist_ok evs"
| "hist_ok (Answered t k via res # evs) \<longleftrightarrow> Called t k \<in> set evs \<and> answer_ok evs t k via res \<and> hist_ok evs"
| "hist_ok (_ # evs) \<longleftrightarrow> hist_ok evs"

lemma hist_ok_moved [simp]: "hist_ok (moved e g @ evs) = hist_ok evs"
  by (simp add: moved_def)

lemma hist_ok_turn:
  assumes u: "turn env r t p g w = Some (p', es, g', w')" and h: "hist_ok evs" "length evs < 2 ^ 64"
    and q: "val_ok evs t p" "gen_ok g evs t p"
  shows "hist_ok (es @ evs)"
proof (cases p)
  case (LoadCheck k i c gen v)
  have "muts_during t k evs = 0" if "gen = gen + (of_nat (muts_during t k evs) :: uint64)"
  proof -
    have "of_nat (muts_during t k evs) = (0 :: uint64)" using that by simp
    moreover have "muts_during t k evs < 2 ^ 64"
      using muts_le [of k "takeWhile (\<lambda>e. e \<noteq> LoadBegan t k) evs"] length_takeWhile_le [of "\<lambda>e. e \<noteq> LoadBegan t k" evs] h(2) by linarith
    ultimately show ?thesis by (auto simp: word_of_nat_eq_0_iff dest: dvd_imp_le)
  qed
  with LoadCheck u h(1) q show ?thesis by (auto split: prod.splits option.splits if_splits)
qed (use u h(1) q in \<open>auto simp: Let_def answer_ok_def split: prod.splits option.splits if_splits pc.splits loaded.splits sum.splits\<close>)

definition gi_inv :: "('w, 'm) lenv_scheme \<Rightarrow> 'w gi \<Rightarrow> bool" where
  "gi_inv env s \<longleftrightarrow> cache_part env (gi_grp s) (gi_hist s) \<and> ks_inv (gi_grp s) (all_holders (gi_thr s)) \<and>
     sf_inv (sf_of (gi_grp s) (gi_thr s)) \<and> flights_ok (loader (gi_grp s)) (gi_hist s) \<and> hist_ok (gi_hist s) \<and>
     (\<forall>t < length (gi_thr s). gen_ok (gi_grp s) (gi_hist s) t (gi_thr s ! t) \<and> val_ok (gi_hist s) t (gi_thr s ! t))"

lemma gi_invD:
  assumes "gi_inv env s"
  shows "cache_part env (gi_grp s) (gi_hist s)" "ks_inv (gi_grp s) (all_holders (gi_thr s))" "sf_inv (sf_of (gi_grp s) (gi_thr s))"
    "flights_ok (loader (gi_grp s)) (gi_hist s)" "hist_ok (gi_hist s)"
    "t < length (gi_thr s) \<Longrightarrow> gen_ok (gi_grp s) (gi_hist s) t (gi_thr s ! t)"
    "t < length (gi_thr s) \<Longrightarrow> val_ok (gi_hist s) t (gi_thr s ! t)"
  using assms by (auto simp: gi_inv_def)

lemma advanceE:
  assumes "advance env r t s = Some s'"
  obtains p es g w where "t < length (gi_thr s)" "turn env r t (gi_thr s ! t) (gi_grp s) (gi_world s) = Some (p, es, g, w)"
    "s' = \<lparr>gi_grp = g, gi_world = w, gi_thr = (gi_thr s)[t := p], gi_hist = es @ gi_hist s\<rparr>"
  using assms by (auto simp: advance_def split: if_splits)

lemma gi_inv_advance:
  assumes adv: "advance env r t s = Some s'" and inv: "gi_inv env s" and small: "length (gi_hist s) < 2 ^ 64"
  shows "gi_inv env s'"
proof (rule advanceE [OF adv])
  fix p es g w
  assume t: "t < length (gi_thr s)" and u: "turn env r t (gi_thr s ! t) (gi_grp s) (gi_world s) = Some (p, es, g, w)"
    and s': "s' = \<lparr>gi_grp = g, gi_world = w, gi_thr = (gi_thr s)[t := p], gi_hist = es @ gi_hist s\<rparr>"
  note I = gi_invD [OF inv]
  have hold: "holds (gi_thr s ! n) \<subseteq># all_holders (gi_thr s)" if "n < length (gi_thr s)" for n
    by (rule all_holders_update(2) [OF that])
  have join: "Flight c k \<in> set (gi_hist s)" if "inflight (loader (gi_grp s)) k = Some c" for k c
    using joined_flight [OF I(3) _ that] I(7) by blast
  have run: "pc_ok (loader (gi_grp s)) (stands (gi_thr s ! t))" using sf_invD(1) [OF I(3), of t] t by simp
  have threads: "gen_ok g (es @ gi_hist s) n ((gi_thr s)[t := p] ! n) \<and> val_ok (es @ gi_hist s) n ((gi_thr s)[t := p] ! n)"
    if n: "n < length (gi_thr s)" for n
  proof (cases "n = t")
    case True
    with gen_ok_own [OF u I(6) [OF t]] val_ok_own [OF u I(4) I(7) [OF t] I(1) join] t show ?thesis by simp
  next
    case False
    with gen_ok_turn [OF I(2) hold [OF t] hold [OF n] u I(6) [OF n]] val_ok_other [OF u I(4) I(7) [OF n]] show ?thesis by simp
  qed
  have "ks_inv g (all_holders ((gi_thr s)[t := p]))"
    using ks_turn [OF I(2) u hold [OF t]] by (simp add: all_holders_update(1) [OF t])
  with threads cache_part_turn [OF I(1) u] sf_turn [OF I(3) t u] flights_ok_turn [OF u I(4) I(7) [OF t] run]
    hist_ok_turn [OF u I(5) small I(7) [OF t] I(6) [OF t]]
  show ?thesis by (simp add: gi_inv_def s')
qed

lemma gi_inv_background:
  assumes "gi_inv env s" "shrinks (mainCache (gi_grp s)) c"
  shows "gi_inv env (s\<lparr>gi_grp := (gi_grp s)\<lparr>mainCache := c\<rparr>\<rparr>)"
proof -
  have "cache_view c x k \<in> {None, cur k (gi_hist s)}" for x k
    using gi_invD(1) [OF assms(1)] assms(2) unfolding cache_part_def shrinks_def by (metis insert_iff singletonD)
  then have "cache_part env ((gi_grp s)\<lparr>mainCache := c\<rparr>) (gi_hist s)"
    using gi_invD(1) [OF assms(1)] assms(2) by (simp add: cache_part_def shrinks_def prompt_def)
  moreover have "gen_ok ((gi_grp s)\<lparr>mainCache := c\<rparr>) evs t q = gen_ok (gi_grp s) evs t q" for evs t q by (cases q) auto
  ultimately show ?thesis using assms(1) by (simp add: gi_inv_def)
qed

lemma gi_inv_closing: "gi_inv env s \<Longrightarrow> gi_inv env (s\<lparr>gi_grp := (gi_grp s)\<lparr>g_closed := True\<rparr>\<rparr>)"
proof -
  assume inv: "gi_inv env s"
  have "gen_ok ((gi_grp s)\<lparr>g_closed := True\<rparr>) evs t q = gen_ok (gi_grp s) evs t q" for evs t q by (cases q) auto
  with inv show ?thesis by (simp add: gi_inv_def cache_part_def prompt_def ks_inv_def)
qed

lemma gi_step_hist: "gi_step env s s' \<Longrightarrow> length (gi_hist s) \<le> length (gi_hist s')"
  by (induction rule: gi_step.induct) (auto elim!: advanceE)

lemma gi_init_inv: "gi_init env s \<Longrightarrow> gi_inv env s"
proof -
  assume i: "gi_init env s"
  have p: "holds q = {#} \<and> stands q = Start [] \<and> gen_ok g evs t q \<and> val_ok evs t q" if "q \<in> set (gi_thr s)" for q g evs t
    using i that by (cases q) (auto simp: gi_init_def list_all_iff)
  moreover have "all_holders ps = {#}" if "\<forall>q\<in>set ps. holds q = {#}" for ps using that by (induction ps) auto
  ultimately have "all_holders (gi_thr s) = {#}" by blast
  moreover have "sf_inv (sf_of (gi_grp s) (gi_thr s))"
    using i p by (auto simp: sf_inv_def gi_init_def entries_def)
  ultimately show ?thesis using i p
    by (auto simp: gi_inv_def gi_init_def cache_part_def ks_inv_def flights_ok_def)
qed

lemma gi_reachable_inv: "gi_reachable env s \<Longrightarrow> length (gi_hist s) < 2 ^ 64 \<Longrightarrow> gi_inv env s"
proof (induction rule: gi_reachable.induct)
  case (init s)
  then show ?case by (intro gi_init_inv)
next
  case (step s s')
  have "length (gi_hist s) < 2 ^ 64" using gi_step_hist [OF step.hyps(2)] step.prems by simp
  with step.IH step.hyps(2) show ?case by (auto elim!: gi_step.cases intro: gi_inv_advance gi_inv_closing gi_inv_background)
qed

lemma hist_ok_drop: "hist_ok (es @ evs) \<Longrightarrow> hist_ok evs"
  by (induction es rule: hist_ok.induct) auto

section \<open>What callers can rely on\<close>

text \<open>
  C3. Under every interleaving of reads, writes, deletions and changes of the owner epoch the cache never
  holds anything but the value of the last mutation or fill since it was emptied, and a reader answers only
  with a value that was current while it ran. One that joined a load in flight answers with a value that was
  current since that load's leader entered. Mutations are counted in 64 bits, so the history is shorter.
\<close>

theorem concurrent_reads_current:
  assumes "gi_reachable env s" "length (gi_hist s) < 2 ^ 64"
  shows "cache_view (mainCache (gi_grp s)) x k \<in> {None, cur k (gi_hist s)} \<and>
    (gi_hist s = es @ Answered t k via (Ok v) # evs \<longrightarrow> Called t k \<in> set evs \<and>
      (case via of None \<Rightarrow> v \<in> since (Called t k) k evs
       | Some c \<Rightarrow> Flight c k \<in> set evs \<and> v \<in> since (Flight c k) k evs))"
proof -
  note inv = gi_reachable_inv [OF assms]
  have "hist_ok (Answered t k via (Ok v) # evs)" if "gi_hist s = es @ Answered t k via (Ok v) # evs"
    using gi_invD(5) [OF inv] unfolding that by (rule hist_ok_drop)
  with gi_invD(1) [OF inv] show ?thesis by (auto simp: cache_part_def answer_ok_def)
qed

text \<open>
  C4. Under every interleaving, a value loaded from the source is stored only if the key was neither set nor
  deleted since the load began. So a slow load never brings back what a mutation has replaced.
\<close>

theorem concurrent_fills_clean:
  assumes "gi_reachable env s" "length (gi_hist s) < 2 ^ 64" "gi_hist s = es @ Filled t k v # evs"
  shows "LoadBegan t k \<in> set evs \<and> muts_during t k evs = 0"
proof -
  have "hist_ok (Filled t k v # evs)"
    using gi_invD(5) [OF gi_reachable_inv [OF assms(1,2)]] unfolding assms(3) by (rule hist_ok_drop)
  then show ?thesis by simp
qed

section \<open>Progress\<close>

fun rank :: "gpc \<Rightarrow> nat" where
  "rank (GetStart k) = 15"
| "rank (GetClaim k e) = 14"
| "rank (GetAcquire k e) = 13"
| "rank (GetLookup k e i) = 12"
| "rank (GetMiss k e i) = 11"
| "rank (LoadLook k e i c) = 10"
| "rank (LoadSource k e i c gen start) = 9"
| "rank (LoadPick k e i c gen v) = 8"
| "rank (LoadCheck k i c gen v) = 7"
| "rank (LoadEnd k i c out) = 6"
| "rank (FlightRemove k i c) = 5"
| "rank (FlightDone k i c) = 4"
| "rank (FlightWait k i c) = 3"
| "rank (FlightWoken k i c) = 2"
| "rank (GetRelease k i via res) = 1"
| "rank (SetStart k v) = 6"
| "rank (SetClaim k v e) = 5"
| "rank (SetAcquire k v) = 4"
| "rank (SetWrite k i v) = 3"
| "rank (DelStart k) = 6"
| "rank (DelClaim k e) = 5"
| "rank (DelAcquire k) = 4"
| "rank (DelWrite k i) = 3"
| "rank (MutNear k i) = 2"
| "rank (MutRelease k i) = 1"
| "rank Ended = 0"

lemma rank_turn: "turn env r t p g w = Some (p', es, g', w') \<Longrightarrow> rank p' < rank p"
  by (cases p) (auto simp: Let_def split: prod.splits option.splits if_splits pc.splits loaded.splits sum.splits)

lemma turn_blocked:
  assumes "turn env r t p g w = None"
  shows "p = Ended \<or> (\<exists>k i c. p = FlightWait k i c \<and> wg (callHeap (loader g) ! c) \<noteq> 0)"
proof (cases p)
  case (GetMiss k e i)
  then show ?thesis by (rule_tac Do_enter_cases [of "loader g" k]) (use assms in \<open>auto split: if_splits\<close>)
qed (use assms in \<open>auto simp: Let_def split: prod.splits option.splits if_splits loaded.splits sum.splits\<close>)

lemma sum_list_less: "t < length xs \<Longrightarrow> x < xs ! t \<Longrightarrow> sum_list (xs[t := x]) < sum_list (xs :: nat list)"
proof -
  assume t: "t < length xs" "x < xs ! t"
  have "sum_list xs = sum_list (take t xs) + (xs ! t + sum_list (drop (Suc t) xs))" by (subst id_take_nth_drop [OF t(1)]) simp
  with t show ?thesis by (simp add: upd_conv_take_nth_drop)
qed

text \<open>
  C5. No caller hangs: every section leaves less to do, whatever the getter does and the others have done,
  and when no caller can move all of them have returned.
\<close>

theorem concurrent_callers_return:
  assumes "gi_reachable env s" "length (gi_hist s) < 2 ^ 64"
  shows "(advance env r t s = Some s' \<longrightarrow> sum_list (map rank (gi_thr s')) < sum_list (map rank (gi_thr s))) \<and>
    ((\<forall>r t. advance env r t s = None) \<longrightarrow> gi_thr s = replicate (length (gi_thr s)) Ended)"
proof (intro conjI impI)
  show "sum_list (map rank (gi_thr s')) < sum_list (map rank (gi_thr s))" if "advance env r t s = Some s'"
    using that by (auto elim!: advanceE simp: map_update intro!: sum_list_less rank_turn)
  assume stuck: "\<forall>r t. advance env r t s = None"
  note sf = gi_invD(3) [OF gi_reachable_inv [OF assms]]
  have none: "turn env r t (gi_thr s ! t) (gi_grp s) (gi_world s) = None" if "t < length (gi_thr s)" for r t
    using stuck that unfolding advance_def by (metis option.map_disc_iff)
  have "gi_thr s ! t = Ended" if t: "t < length (gi_thr s)" for t
  proof (rule ccontr)
    assume "gi_thr s ! t \<noteq> Ended"
    then obtain k i c where c: "gi_thr s ! t = FlightWait k i c" "wg (callHeap (loader (gi_grp s)) ! c) \<noteq> 0"
      using turn_blocked [OF none [OF t]] by blast
    then have "c < length (callHeap (loader (gi_grp s)))" using sf_invD(1) [OF sf, of t] t by simp
    then obtain u where u: "u < length (gi_thr s)" "leads (stands (gi_thr s ! u)) = Some c"
      using sf_invD(3) [OF sf, of c] c(2) by auto
    from turn_blocked [OF none [OF u(1)]] u(2) show False by auto
  qed
  then show "gi_thr s = replicate (length (gi_thr s)) Ended" by (intro nth_equalityI) simp_all
qed

section \<open>Schedules\<close>

text \<open>A schedule names the caller of each section and what the getter does if it is called.\<close>

fun run :: "('w, 'm) lenv_scheme \<Rightarrow> (nat \<times> loaded \<times> pick) list \<Rightarrow> 'w gi \<Rightarrow> 'w gi option" where
  "run env [] s = Some s"
| "run env ((t, r) # sched) s = (case advance env r t s of None \<Rightarrow> None | Some s \<Rightarrow> run env sched s)"

lemma run_append: "run env (xs @ ys) s = (case run env xs s of None \<Rightarrow> None | Some s \<Rightarrow> run env ys s)"
  by (induction env xs s rule: run.induct) (auto split: option.splits)

lemma run_reachable: "run env sched s = Some s' \<Longrightarrow> gi_reachable env s \<Longrightarrow> gi_reachable env s'"
  by (induction env sched s rule: run.induct) (auto split: option.splits intro: gi_reachable.step gi_step.caller)

text \<open>
  A caller that nobody disturbs, with a getter and a picker that answer \<open>r\<close>, does what \<open>setLocal\<close>,
  \<open>deleteOwnerLocal\<close> and \<open>getLocal\<close> do.
\<close>

abbreviation alone :: "Group \<Rightarrow> 'w \<Rightarrow> gpc \<Rightarrow> gevent list \<Rightarrow> 'w gi" where
  "alone g w p evs \<equiv> \<lparr>gi_grp = g, gi_world = w, gi_thr = [p], gi_hist = evs\<rparr>"

definition steady :: "('w, 'm) lenv_scheme \<Rightarrow> string \<Rightarrow> loaded \<times> pick \<Rightarrow> bool" where
  "steady env k r \<longleftrightarrow> (\<forall>s. e_getter env k s = (fst r, s)) \<and> (\<forall>s. e_PickOwner env k s = (snd r, s)) \<and>
     (\<forall>s. e_Epoch env s = (case snd r of (_, _, _, epoch, _) \<Rightarrow> epoch, s))"

lemma steadyD:
  assumes "steady env k r"
  shows "e_getter env k s = (fst r, s)" "e_PickOwner env k s = (snd r, s)"
    "e_Epoch env s = (case snd r of (_, _, _, epoch, _) \<Rightarrow> epoch, s)"
  using assms unfolding steady_def by blast+

lemma prepare_steady:
  assumes "steady env k r"
  shows "prepareLocalOwner env k (g, w) =
    (if \<not> g_peers g then (Inr 0, g, w)
     else (case owner_check (snd r) of Inl err \<Rightarrow> (Inl err, g, w) | Inr e \<Rightarrow> (Inr e, claim e g, w)))"
  by (cases "snd r") (auto simp: prepareLocalOwner_def steadyD [OF assms] claim_def)

lemma near_steady:
  assumes "steady env k r"
  shows "invalidateNearKey env k (g, w) =
    (case snd r of (_, _, _, epoch, _) \<Rightarrow>
       ((if nearCache g = None \<or> \<not> g_peers g then g
         else g\<lparr>nearCache := snd (Cache_Delete (nearKey epoch k) (nearCache g))\<rparr>), w))"
  by (cases "snd r") (auto simp: invalidateNearKey_def steadyD [OF assms])

lemma advance_alone:
  "advance env r 0 (alone g w p evs) = map_option (\<lambda>(p, es, g, w). alone g w p (es @ evs)) (turn env r 0 p g w)"
  by (simp add: advance_def)

lemma run_then:
  assumes "run env (replicate m (0, r)) s = Some s1" "run env (replicate n (0, r)) s1 = Some s2"
  shows "run env (replicate (m + n) (0, r)) s = Some s2"
  using assms by (simp add: replicate_add run_append)

text \<open>The sections up to the mutation state of the key, when the caller owns the key.\<close>

lemma claim_sections:
  assumes "steady env k r" "\<not> g_closed g" "prepareLocalOwner env k (g, w) = (Inr e, g0, w0)"
  obtains m es where "w0 = w"
    "\<And>v. run env (replicate m (0, r)) (alone g w (SetStart k v) []) = Some (alone g0 w (SetAcquire k v) es)"
    "run env (replicate m (0, r)) (alone g w (DelStart k) []) = Some (alone g0 w (DelAcquire k) es)"
    "run env (replicate m (0, r)) (alone g w (GetStart k) []) = Some (alone g0 w (GetAcquire k e) (es @ [Called 0 k]))"
proof (cases "g_peers g")
  case True
  then have "owner_check (snd r) = Inr e" "g0 = claim e g" "w0 = w"
    using assms(3) by (auto simp: prepare_steady [OF assms(1)] split: sum.splits)
  with True assms(2) show thesis by (intro that [of 2 "moved e g"]) (simp_all add: eval_nat_numeral advance_alone)
next
  case False
  then have "e = 0" "g0 = g" "w0 = w" using assms(3) by (auto simp: prepare_steady [OF assms(1)])
  with False assms(2) show thesis by (intro that [of 1 "[]"]) (simp_all add: advance_alone)
qed

text \<open>The one section of a caller that is refused.\<close>

lemma refused_sections:
  assumes "steady env k r" "prepareLocalOwner env k (g, w) = (Inl err, g0, w0)"
  shows "g_peers g" "g0 = g" "w0 = w" "owner_check (snd r) = Inl err"
  using assms(2) by (auto simp: prepare_steady [OF assms(1)] split: sum.splits if_splits)

lemma setLocal_sections:
  assumes "steady env k r" "setLocal env k v (g, w) = (e, g', w')"
  shows "\<exists>n evs. run env (replicate n (0, r)) (alone g w (SetStart k v) []) = Some (alone g' w' Ended evs) \<and>
    (e = None \<longrightarrow> hd evs = Mutated k (Some v)) \<and> (e \<noteq> None \<longrightarrow> evs = [])"
proof -
  obtain q g0 w0 where prep: "prepareLocalOwner env k (g, w) = (q, g0, w0)" by (rule prod_cases3)
  consider "g_closed g" | err where "\<not> g_closed g" "q = Inl err" | x where "\<not> g_closed g" "q = Inr x" by (cases q) auto
  then show ?thesis
  proof cases
    case 1
    with assms(2) show ?thesis by (intro exI [of _ 1] exI [of _ "[]"]) (auto simp: setLocal_def advance_alone)
  next
    case (2 err)
    with refused_sections [OF assms(1) prep [unfolded 2(2)]] assms(2) prep show ?thesis
      by (intro exI [of _ 1] exI [of _ "[]"]) (auto simp: setLocal_def advance_alone)
  next
    case (3 x)
    obtain m es where m: "w0 = w" "run env (replicate m (0, r)) (alone g w (SetStart k v) []) = Some (alone g0 w (SetAcquire k v) es)"
      by (rule claim_sections [OF assms(1) 3(1) prep [unfolded 3(2)]]) blast
    have "e = None" "run env (replicate 4 (0, r)) (alone g0 w (SetAcquire k v) es) = Some (alone g' w' Ended (Mutated k (Some v) # es))"
      using assms(2) 3 prep m(1)
      by (auto simp: setLocal_def eval_nat_numeral advance_alone near_steady [OF assms(1)] Let_def split: prod.splits)
    with run_then [OF m(2)] show ?thesis by (intro exI [of _ "m + 4"] exI [of _ "Mutated k (Some v) # es"]) simp
  qed
qed

lemma deleteLocal_sections:
  assumes "steady env k r" "deleteOwnerLocal env k (g, w) = (b, g', w')"
  shows "\<exists>n evs. run env (replicate n (0, r)) (alone g w (DelStart k) []) = Some (alone g' w' Ended evs) \<and>
    (\<not> isl b \<longrightarrow> hd evs = Mutated k None) \<and> (isl b \<longrightarrow> evs = [])"
proof -
  obtain q g0 w0 where prep: "prepareLocalOwner env k (g, w) = (q, g0, w0)" by (rule prod_cases3)
  consider "g_closed g" | err where "\<not> g_closed g" "q = Inl err" | x where "\<not> g_closed g" "q = Inr x" by (cases q) auto
  then show ?thesis
  proof cases
    case 1
    with assms(2) show ?thesis by (intro exI [of _ 1] exI [of _ "[]"]) (auto simp: deleteOwnerLocal_def advance_alone)
  next
    case (2 err)
    with refused_sections [OF assms(1) prep [unfolded 2(2)]] assms(2) prep show ?thesis
      by (intro exI [of _ 1] exI [of _ "[]"]) (auto simp: deleteOwnerLocal_def advance_alone)
  next
    case (3 x)
    obtain m es where m: "w0 = w" "run env (replicate m (0, r)) (alone g w (DelStart k) []) = Some (alone g0 w (DelAcquire k) es)"
      by (rule claim_sections [OF assms(1) 3(1) prep [unfolded 3(2)]]) blast
    have "\<not> isl b" "run env (replicate 4 (0, r)) (alone g0 w (DelAcquire k) es) = Some (alone g' w' Ended (Mutated k None # es))"
      using assms(2) 3 prep m(1)
      by (auto simp: deleteOwnerLocal_def deleteLocal_def eval_nat_numeral advance_alone near_steady [OF assms(1)] Let_def
        split: prod.splits)
    with run_then [OF m(2)] show ?thesis by (intro exI [of _ "m + 4"] exI [of _ "Mutated k None # es"]) simp
  qed
qed

text \<open>The function given to the loader, from its first section to the end.\<close>

lemma loadFn_sections:
  assumes "steady env k r" "loadFn env k e i (g, w) = (out, g', w')"
  shows "\<exists>n es. run env (replicate n (0, r)) (alone g w (LoadLook k e i c) evs) = Some (alone g' w' (LoadEnd k i c out) (es @ evs))"
proof -
  obtain v1 g2 w2 where m: "main_Get env k (g, w) = (v1, g2, w2)" by (rule prod_cases3)
  show ?thesis
  proof (cases v1)
    case (Some v)
    with m assms(2) show ?thesis by (intro exI [of _ 1] exI [of _ "[]"]) (auto simp: advance_alone loadFn_def)
  next
    case None
    note fn = assms(2) [unfolded loadFn_def m None]
    show ?thesis
    proof (cases "fst r")
      case (Loaded v)
      let ?g = "\<lambda>d. g2\<lparr>g_stats := (g_stats g2)\<lparr>sourceLoads := sourceLoads (g_stats g2) + 1, sourceDuration := d\<rparr>\<rparr>"
      obtain d w3 where three: "run env (replicate 2 (0, r)) (alone g w (LoadLook k e i c) evs) =
          Some (alone (?g d) w3 (LoadPick k e i c (generation (stateHeap g2 ! i)) v) ([LoadBegan 0 k] @ evs))"
        and end_: "(out, g', w') =
          (if g_peers g2 \<and> (case snd r of (_, _, isSelfNow, epochNow, ok) \<Rightarrow> \<not> ok \<or> \<not> isSelfNow \<or> epochNow \<noteq> e)
           then (Return None (Some (Sentinel ErrTopologyChanged)), ?g d, w3)
           else (Return (Some v) None, addOwnerValue env k v (?g d, w3)))"
        using m None Loaded fn
        by (auto simp: eval_nat_numeral advance_alone steadyD [OF assms(1)] Let_def split: prod.splits if_splits)
      show ?thesis
      proof (cases "g_peers g2 \<and> (case snd r of (_, _, isSelfNow, epochNow, ok) \<Rightarrow> \<not> ok \<or> \<not> isSelfNow \<or> epochNow \<noteq> e)")
        case True
        have "run env (replicate 1 (0, r)) (alone (?g d) w3 (LoadPick k e i c (generation (stateHeap g2 ! i)) v) ([LoadBegan 0 k] @ evs)) =
            Some (alone g' w' (LoadEnd k i c out) ([LoadBegan 0 k] @ evs))"
          using True end_ by (auto simp: advance_alone split: prod.splits)
        from run_then [OF three this] show ?thesis by blast
      next
        case False
        have "run env (replicate 2 (0, r)) (alone (?g d) w3 (LoadPick k e i c (generation (stateHeap g2 ! i)) v) ([LoadBegan 0 k] @ evs)) =
            Some (alone g' w' (LoadEnd k i c out) ([Filled 0 k v, LoadBegan 0 k] @ evs))"
          using False end_ by (auto simp: eval_nat_numeral advance_alone split: prod.splits)
        from run_then [OF three this] show ?thesis by blast
      qed
    next
      case (LoadError err)
      with m None fn show ?thesis
        by (intro exI [of _ 2] exI [of _ "[LoadBegan 0 k]"])
          (auto simp: eval_nat_numeral advance_alone steadyD [OF assms(1)] Let_def split: prod.splits)
    next
      case (LoadPanic x)
      with m None fn show ?thesis
        by (intro exI [of _ 2] exI [of _ "[LoadBegan 0 k]"])
          (auto simp: eval_nat_numeral advance_alone steadyD [OF assms(1)] Let_def split: prod.splits)
    qed
  qed
qed

lemma loader_sections:
  assumes "steady env k r" "inflight (loader g) k = None" "g_getter g"
    "loader_Do env k (loadFn env k e i) (g, w) = (out, g', w')"
  shows "\<exists>n c evs'. run env (replicate n (0, r)) (alone g w (GetMiss k e i) evs) =
    Some (alone g' w' (GetRelease k i (Some c) (load_result k out)) evs')"
proof -
  let ?c = "length (callHeap (loader g))"
  let ?g = "g\<lparr>loader := (loader g)\<lparr>callHeap := callHeap (loader g) @ [new_call\<lparr>wg := 1\<rparr>], sf_m := Some (gm_put k ?c (entries (loader g)))\<rparr>\<rparr>"
  have enter: "Do_enter k (loader g) = (Running k ?c, loader ?g)"
    by (rule Do_enter_cases [of "loader g" k]) (use assms(2) in auto)
  obtain o1 g1 w1 where fn: "loadFn env k e i (?g, w) = (o1, g1, w1)" by (rule prod_cases3)
  have out: "out = Do_result (callHeap (loader g') ! ?c)" "w' = w1"
    "g' = g1\<lparr>loader := Do_done ?c (Do_remove k ?c (Do_fn ?c o1 (loader g1)))\<rparr>"
    using assms(4) enter fn by (auto simp: loader_Do_def Let_def)
  have first: "run env (replicate 1 (0, r)) (alone g w (GetMiss k e i) evs) = Some (alone ?g w (LoadLook k e i ?c) (Flight ?c k # evs))"
    using assms(3) enter by (simp add: advance_alone)
  obtain n es where n: "run env (replicate n (0, r)) (alone ?g w (LoadLook k e i ?c) (Flight ?c k # evs)) =
      Some (alone g1 w1 (LoadEnd k i ?c o1) (es @ Flight ?c k # evs))"
    using loadFn_sections [OF assms(1) fn] by blast
  have "run env (replicate 4 (0, r)) (alone g1 w1 (LoadEnd k i ?c o1) evs1) =
      Some (alone g' w' (GetRelease k i (Some ?c) (load_result k out)) evs1)" for evs1
    by (simp add: eval_nat_numeral advance_alone out)
  from run_then [OF run_then [OF first n] this] show ?thesis by blast
qed

lemma getLocal_owned_load:
  assumes "main_Get env k s = (None, g, w)" "g_getter g"
    "loader_Do env k (loadFn env k e i) (count_stat (\<lambda>st. st\<lparr>localMisses := localMisses st + 1\<rparr>) (g, w)) = (out, s')"
  shows "getLocal_owned env k e i s = (load_result k out, s')"
  using assms by (cases "(k, out)" rule: load_result.cases) (simp_all add: getLocal_owned_def split: option.splits)

lemma getLocal_owned_sections:
  assumes "steady env k r" "inflight (loader g) k = None" "getLocal_owned env k e i (g, w) = (res, g', w')"
  shows "\<exists>n via evs'. run env (replicate n (0, r)) (alone g w (GetLookup k e i) evs) = Some (alone g' w' (GetRelease k i via res) evs')"
proof -
  obtain v1 g1 w1 where m: "main_Get env k (g, w) = (v1, g1, w1)" by (rule prod_cases3)
  obtain c where g1: "g1 = g\<lparr>mainCache := c\<rparr>" by (rule main_Get_frame [OF m])
  show ?thesis
  proof (cases v1)
    case (Some v)
    with assms(3) m show ?thesis
      by (intro exI [of _ 1] exI [of _ None] exI [of _ evs]) (auto simp: getLocal_owned_def advance_alone)
  next
    case None
    let ?g1 = "g1\<lparr>g_stats := (g_stats g1)\<lparr>localMisses := localMisses (g_stats g1) + 1\<rparr>\<rparr>"
    have miss: "run env (replicate 1 (0, r)) (alone g w (GetLookup k e i) evs) = Some (alone ?g1 w1 (GetMiss k e i) evs)"
      using m None by (simp add: advance_alone)
    show ?thesis
    proof (cases "g_getter g")
      case False
      with assms(3) m None g1 have "run env (replicate 1 (0, r)) (alone ?g1 w1 (GetMiss k e i) evs) = Some (alone g' w' (GetRelease k i None res) evs)"
        by (auto simp: getLocal_owned_def advance_alone)
      from run_then [OF miss this] show ?thesis by blast
    next
      case True
      obtain out g3 w3 where L: "loader_Do env k (loadFn env k e i) (?g1, w1) = (out, g3, w3)" by (rule prod_cases3)
      have pre: "inflight (loader ?g1) k = None" "g_getter ?g1" using assms(2) True g1 by simp_all
      have "getLocal_owned env k e i (g, w) = (load_result k out, g3, w3)"
        by (rule getLocal_owned_load [where g = g1 and w = w1]) (use m None True g1 L in simp_all)
      then have "res = load_result k out" "g' = g3" "w' = w3" using assms(3) by simp_all
      then obtain n c' evs' where "run env (replicate n (0, r)) (alone ?g1 w1 (GetMiss k e i) evs) =
          Some (alone g' w' (GetRelease k i (Some c') res) evs')"
        using loader_sections [OF assms(1) pre L] by blast
      from run_then [OF miss this] show ?thesis by blast
    qed
  qed
qed

lemma getLocal_sections:
  assumes "steady env k r" "inflight (loader g) k = None" "getLocal env k (g, w) = (res, g', w')"
  shows "\<exists>n via evs. run env (replicate n (0, r)) (alone g w (GetStart k) []) = Some (alone g' w' Ended (Answered 0 k via res # evs))"
proof -
  obtain q g0 w0 where prep: "prepareLocalOwner env k (g, w) = (q, g0, w0)" by (rule prod_cases3)
  consider "g_closed g" | err where "\<not> g_closed g" "q = Inl err" | x where "\<not> g_closed g" "q = Inr x" by (cases q) auto
  then show ?thesis
  proof cases
    case 1
    with assms(3) show ?thesis
      by (intro exI [of _ 1] exI [of _ None] exI [of _ "[Called 0 k]"]) (auto simp: getLocal_def advance_alone)
  next
    case (2 err)
    with refused_sections [OF assms(1) prep [unfolded 2(2)]] assms(3) prep show ?thesis
      by (intro exI [of _ 1] exI [of _ None] exI [of _ "[Called 0 k]"]) (auto simp: getLocal_def advance_alone)
  next
    case (3 x)
    obtain m es where m: "w0 = w"
      "run env (replicate m (0, r)) (alone g w (GetStart k) []) = Some (alone g0 w (GetAcquire k x) (es @ [Called 0 k]))"
      by (rule claim_sections [OF assms(1) 3(1) prep [unfolded 3(2)]]) blast
    obtain i ks h where acq: "acquireKeyState k g0 = (i, g0\<lparr>keyStates := ks, stateHeap := h\<rparr>)" by (rule acquire_frame)
    let ?g = "g0\<lparr>keyStates := ks, stateHeap := h\<rparr>"
    obtain g2 where owned: "getLocal_owned env k x i (?g, w) = (res, g2, w')" "g' = releaseKeyState k i g2"
      using assms(3) 3 prep acq m(1) by (auto simp: getLocal_def split: prod.splits)
    have "loader g0 = loader g" using prep 3 by (auto simp: prepare_steady [OF assms(1)] split: if_splits sum.splits)
    then have free: "inflight (loader ?g) k = None" using assms(2) by simp
    have one: "run env (replicate 1 (0, r)) (alone g0 w (GetAcquire k x) (es @ [Called 0 k])) = Some (alone ?g w (GetLookup k x i) (es @ [Called 0 k]))"
      using acq by (simp add: advance_alone)
    obtain n via evs' where n: "run env (replicate n (0, r)) (alone ?g w (GetLookup k x i) (es @ [Called 0 k])) =
        Some (alone g2 w' (GetRelease k i via res) evs')"
      using getLocal_owned_sections [OF assms(1) free owned(1)] by blast
    have "run env (replicate 1 (0, r)) (alone g2 w' (GetRelease k i via res) evs') = Some (alone g' w' Ended (Answered 0 k via res # evs'))"
      by (simp add: advance_alone owned(2))
    from run_then [OF run_then [OF run_then [OF m(2) one] n] this] show ?thesis by blast
  qed
qed

text \<open>What takes entries out of the cache in the background.\<close>

lemma shrinks_background:
  assumes "cache_inv c"
  shows "shrinks c (Cache_Clear c)" "shrinks c (Cache_Close c)"
  using assms by (simp_all add: shrinks_def cache_inv_ops view_Clear view_Close)

definition demo_gi :: "bool \<Rightarrow> gpc list \<Rightarrow> int gi" where
  "demo_gi peers ps = \<lparr>gi_grp = fresh_group True peers demo_cache, gi_world = 0, gi_thr = ps, gi_hist = []\<rparr>"

lemma demo_gi_reachable: "list_all starting ps \<Longrightarrow> gi_reachable ticking (demo_gi peers ps)"
  using demo_cache_facts by (intro gi_reachable.init) (simp add: gi_init_def demo_gi_def fresh_group_def prompt_def)

text \<open>Sections of the callers named, with a getter that loads \<open>[1]\<close> and a picker that answers with this node and an epoch.\<close>

definition sched :: "uint64 \<Rightarrow> nat list \<Rightarrow> (nat \<times> loaded \<times> pick) list" where
  "sched e ts = map (\<lambda>t. (t, Loaded [1], ''a:1'', NilPeer, True, e, True)) ts"

text \<open>
  A schedule in two parts. In the first, caller 0 loads a key and stores the value, its function has returned
  to the loader, and caller 1 deletes the key. In the second, caller 2 begins, misses and joins the load
  before caller 0 removes its call.
\<close>

definition late_load :: "(nat \<times> loaded \<times> pick) list" where
  "late_load = sched 0 ([0, 0, 0, 0, 0, 0, 0, 0, 0] @ [1, 1, 1, 1, 1])"

definition late_reader :: "(nat \<times> loaded \<times> pick) list" where
  "late_reader = sched 0 ([2, 2, 2, 2] @ [0, 0, 0, 0] @ [2, 2, 2])"

abbreviation three_callers :: "int gi" where
  "three_callers \<equiv> demo_gi False [GetStart ''k'', DelStart ''k'', GetStart ''k'']"

lemma late_load_run:
  "map_option (\<lambda>s. (gi_thr s, gi_hist s, inflight (loader (gi_grp s)) ''k'')) (run ticking late_load three_callers) =
     Some ([FlightRemove ''k'' 0 0, Ended, GetStart ''k''],
       [Mutated ''k'' None, Filled 0 ''k'' [1], LoadBegan 0 ''k'', Flight 0 ''k'', Called 0 ''k''], Some 0)"
  by code_simp

lemma late_join_run:
  "map_option gi_hist (run ticking (late_load @ late_reader) three_callers) =
     Some [Answered 2 ''k'' (Some 0) (Ok [1]), Answered 0 ''k'' (Some 0) (Ok [1]), Called 2 ''k'', Mutated ''k'' None,
      Filled 0 ''k'' [1], LoadBegan 0 ''k'', Flight 0 ''k'', Called 0 ''k'']"
  by code_simp

lemma late_join_states:
  obtains s0 s where "run ticking late_load three_callers = Some s0" "run ticking late_reader s0 = Some s"
    "gi_reachable ticking s0" "gi_reachable ticking s" "gi_thr s0 = [FlightRemove ''k'' 0 0, Ended, GetStart ''k'']"
    "gi_hist s0 = [Mutated ''k'' None, Filled 0 ''k'' [1], LoadBegan 0 ''k'', Flight 0 ''k'', Called 0 ''k'']"
    "inflight (loader (gi_grp s0)) ''k'' = Some 0"
    "gi_hist s = [Answered 2 ''k'' (Some 0) (Ok [1]), Answered 0 ''k'' (Some 0) (Ok [1]), Called 2 ''k''] @ gi_hist s0"
proof -
  obtain s0 where s0: "run ticking late_load three_callers = Some s0" "gi_thr s0 = [FlightRemove ''k'' 0 0, Ended, GetStart ''k'']"
    "gi_hist s0 = [Mutated ''k'' None, Filled 0 ''k'' [1], LoadBegan 0 ''k'', Flight 0 ''k'', Called 0 ''k'']"
    "inflight (loader (gi_grp s0)) ''k'' = Some 0" using late_load_run by auto
  moreover obtain s where s: "run ticking late_reader s0 = Some s"
    "gi_hist s = [Answered 2 ''k'' (Some 0) (Ok [1]), Answered 0 ''k'' (Some 0) (Ok [1]), Called 2 ''k''] @ gi_hist s0"
    using late_join_run s0(1,3) by (auto simp: run_append)
  moreover have "gi_reachable ticking s0" by (rule run_reachable [OF s0(1)]) (simp add: demo_gi_reachable)
  moreover from this have "gi_reachable ticking s" by (rule run_reachable [OF s(1)])
  ultimately show thesis by (rule_tac that)
qed

text \<open>
  C36. A reader can answer with a value that was deleted before it began. In the first state the function of
  the load has returned and stored its value, the deletion of the key has come after it and has returned,
  the reader has not begun, and the call of the load is still registered. From there the reader joins that
  call and answers with the deleted value, and the key has not been set or filled since the deletion.
\<close>

theorem late_join_stale:
  "\<exists>s0 s. gi_reachable ticking s0 \<and> gi_thr s0 = [FlightRemove ''k'' 0 0, Ended, GetStart ''k''] \<and>
     gi_hist s0 = [Mutated ''k'' None, Filled 0 ''k'' [1], LoadBegan 0 ''k'', Flight 0 ''k'', Called 0 ''k''] \<and>
     inflight (loader (gi_grp s0)) ''k'' = Some 0 \<and> run ticking late_reader s0 = Some s \<and>
     gi_hist s = [Answered 2 ''k'' (Some 0) (Ok [1]), Answered 0 ''k'' (Some 0) (Ok [1]), Called 2 ''k''] @ gi_hist s0"
  by (rule late_join_states) blast

text \<open>
  A schedule in which caller 0 loads a key in epoch 1 and has asked the picker again, caller 1 then takes up
  epoch 3 and empties the cache, caller 0 stores its value, and caller 2 reads the key in epoch 3.
\<close>

definition late_fill :: "(nat \<times> loaded \<times> pick) list" where
  "late_fill = sched 1 [0, 0, 0, 0, 0, 0, 0, 0] @ sched 3 [1, 1, 0, 2, 2, 2, 2, 2]"

lemma late_fill_run:
  "\<exists>s. run ticking late_fill (demo_gi True [GetStart ''k'', DelStart ''j'', GetStart ''k'']) = Some s \<and> gi_hist s =
     [Answered 2 ''k'' None (Ok [1]), Called 2 ''k'', Filled 0 ''k'' [1], Moved 3, LoadBegan 0 ''k'', Flight 0 ''k'', Called 0 ''k'']"
proof -
  have "map_option gi_hist (run ticking late_fill (demo_gi True [GetStart ''k'', DelStart ''j'', GetStart ''k''])) =
     Some [Answered 2 ''k'' None (Ok [1]), Called 2 ''k'', Filled 0 ''k'' [1], Moved 3, LoadBegan 0 ''k'', Flight 0 ''k'', Called 0 ''k'']"
    by code_simp
  then show ?thesis by auto
qed

text \<open>
  C37. A value loaded in an old epoch can be stored after the owner cache was emptied for a new one, and is then
  served from the cache in the new epoch: the membership may have changed twice between the picker's answer
  to the load and the fill, and nothing at the fill compares the epochs.
\<close>

theorem late_fill_stale:
  "\<exists>s evs. gi_reachable ticking s \<and> ownerEpoch (gi_grp s) = 3 \<and>
     gi_hist s = [Answered 2 ''k'' None (Ok [1]), Called 2 ''k'', Filled 0 ''k'' [1], Moved 3] @ evs \<and> LoadBegan 0 ''k'' \<in> set evs"
proof -
  obtain s where s: "run ticking late_fill (demo_gi True [GetStart ''k'', DelStart ''j'', GetStart ''k'']) = Some s"
    "gi_hist s = [Answered 2 ''k'' None (Ok [1]), Called 2 ''k'', Filled 0 ''k'' [1], Moved 3, LoadBegan 0 ''k'', Flight 0 ''k'', Called 0 ''k'']"
    using late_fill_run by blast
  have "map_option (\<lambda>s. ownerEpoch (gi_grp s)) (run ticking late_fill (demo_gi True [GetStart ''k'', DelStart ''j'', GetStart ''k''])) = Some 3"
    by code_simp
  with s(1) have "ownerEpoch (gi_grp s) = 3" by simp
  moreover have "gi_reachable ticking s" by (rule run_reachable [OF s(1)]) (simp add: demo_gi_reachable)
  ultimately show ?thesis using s(2) by (intro exI [of _ s] exI [of _ "drop 4 (gi_hist s)"]) simp
qed

section \<open>Instances\<close>

theorem concurrent_reads_current_witness:
  "\<exists>s. gi_reachable ticking s \<and> hd (gi_hist s) = Answered 2 ''k'' (Some 0) (Ok [1]) \<and>
     [1] \<in> since (Flight 0 ''k'') ''k'' (tl (gi_hist s)) \<and> cache_view (mainCache (gi_grp s)) 100 ''k'' = None"
proof (rule late_join_states)
  fix s0 s assume r: "gi_reachable ticking s" and h: "gi_hist s0 = [Mutated ''k'' None, Filled 0 ''k'' [1], LoadBegan 0 ''k'', Flight 0 ''k'', Called 0 ''k'']"
    "gi_hist s = [Answered 2 ''k'' (Some 0) (Ok [1]), Answered 0 ''k'' (Some 0) (Ok [1]), Called 2 ''k''] @ gi_hist s0"
  from concurrent_reads_current [of ticking s 100 "''k''" "[]" 2 "Some 0" "[1]" "tl (gi_hist s)"] r h
  show ?thesis by (intro exI [of _ s]) simp
qed

theorem concurrent_fills_clean_witness:
  "\<exists>s es evs. gi_reachable ticking s \<and> gi_hist s = es @ Filled 0 ''k'' [1] # evs \<and> muts_during 0 ''k'' evs = 0"
proof (rule late_join_states)
  fix s0 s assume r: "gi_reachable ticking s0" and h: "gi_hist s0 = [Mutated ''k'' None, Filled 0 ''k'' [1], LoadBegan 0 ''k'', Flight 0 ''k'', Called 0 ''k'']"
  then have h': "gi_hist s0 = [Mutated ''k'' None] @ Filled 0 ''k'' [1] # [LoadBegan 0 ''k'', Flight 0 ''k'', Called 0 ''k'']" by simp
  have "length (gi_hist s0) < 2 ^ 64" by (simp add: h)
  from concurrent_fills_clean [OF r this h'] r h' show ?thesis by blast
qed

theorem concurrent_callers_return_witness:
  "\<exists>s'. advance ticking (Loaded [1], [], NilPeer, False, 0, False) 0 (demo_gi False [GetStart ''k'', DelStart ''k'', GetStart ''k'']) = Some s' \<and>
     sum_list (map rank (gi_thr s')) < 36"
proof -
  let ?s = "demo_gi False [GetStart ''k'', DelStart ''k'', GetStart ''k'']"
  obtain s' where "advance ticking (Loaded [1], [], NilPeer, False, 0, False) 0 ?s = Some s'"
    by (cases "acquireKeyState ''k'' (gi_grp ?s)") (simp add: advance_def demo_gi_def fresh_group_def)
  moreover have "gi_reachable ticking ?s" by (simp add: demo_gi_reachable)
  ultimately show ?thesis
    using concurrent_callers_return [of ticking ?s "(Loaded [1], [], NilPeer, False, 0, False)" 0 s'] by (simp add: demo_gi_def)
qed

end
