(* ===== verification/Group_Registry.thy ===== *)
theory Group_Registry
  imports Group
begin

text \<open>
  Construction of groups and the process-wide registry of \<^verbatim>\<open>src/group.go\<close>. Groups are objects on a heap
  and the registry maps names to their addresses. A result \<open>None\<close> means that the construction of a
  cache does not return.
\<close>

section \<open>Options\<close>

type_synonym GroupOption = "Group \<Rightarrow> Group option"

definition WithExpiration :: "duration \<Rightarrow> GroupOption" where
  "WithExpiration d g = Some (g\<lparr>expiration := d\<rparr>)"

text \<open>The argument says whether the picker is non-nil.\<close>

definition WithPeers :: "bool \<Rightarrow> GroupOption" where
  "WithPeers peers g = Some (g\<lparr>g_peers := peers\<rparr>)"

definition WithCacheOptions :: "CacheOptions \<Rightarrow> GroupOption" where
  "WithCacheOptions opts g = map_option (\<lambda>c. g\<lparr>mainCache := Some c\<rparr>) (NewCache opts)"

definition WithNearCache :: "int64 \<Rightarrow> duration \<Rightarrow> GroupOption" where
  "WithNearCache maxB ttl g =
     (if sint maxB \<le> 0 \<or> ttl \<le> 0 then Some g
      else map_option (\<lambda>c. g\<lparr>nearCache := Some c, nearTTL := ttl\<rparr>)
             (NewCache (DefaultCacheOptions\<lparr>oMaxBytes := maxB\<rparr>)))"

definition WithHotCache :: "int64 \<Rightarrow> duration \<Rightarrow> GroupOption" where
  "WithHotCache maxB ttl = WithNearCache maxB ttl"

fun applyOptions :: "GroupOption list \<Rightarrow> GroupOption" where
  "applyOptions [] g = Some g"
| "applyOptions (opt # opts) g = (case opt g of Some g \<Rightarrow> applyOptions opts g | None \<Rightarrow> None)"

section \<open>The registry\<close>

record groups =
  groups_map :: "(string, nat) gomap"
  groups_heap :: "Group list"

definition no_groups :: groups where
  "no_groups = \<lparr>groups_map = [], groups_heap = []\<rparr>"

definition GetGroup :: "string \<Rightarrow> groups \<Rightarrow> nat option" where
  "GetGroup name G = gm_get (groups_map G) name"

text \<open>\<^verbatim>\<open>Close\<close> of the group at an address.\<close>

definition Group_Close :: "nat \<Rightarrow> groups \<Rightarrow> groups" where
  "Group_Close i G =
     (case Group_close (groups_heap G ! i) of
        (False, _) \<Rightarrow> G
      | (True, g) \<Rightarrow>
          (let G = G\<lparr>groups_heap := (groups_heap G)[i := g]\<rparr>
           in if gm_get (groups_map G) (g_name g) = Some i
              then G\<lparr>groups_map := gm_del (g_name g) (groups_map G)\<rparr> else G))"

definition newGroupValue :: "string \<Rightarrow> int64 \<Rightarrow> bool \<Rightarrow> GroupOption list \<Rightarrow> Group option" where
  "newGroupValue name cacheBytes getter opts =
     (case applyOptions opts
        \<lparr>g_name = name, g_getter = getter, mainCache = None, nearCache = None, nearTTL = 0, g_peers = False,
         loader = \<lparr>sf_m = None, callHeap = []\<rparr>, expiration = 0, g_closed = False, g_stats = zeroStats,
         ownerEpoch = 0, keyStates = [], stateHeap = []\<rparr> of
        None \<Rightarrow> None
      | Some g \<Rightarrow>
          (if mainCache g = None then
             map_option (\<lambda>c. g\<lparr>mainCache := Some c\<rparr>)
               (NewCache (if 0 < sint cacheBytes then DefaultCacheOptions\<lparr>oMaxBytes := cacheBytes\<rparr>
                          else DefaultCacheOptions))
           else Some g))"

definition NewGroup :: "string \<Rightarrow> int64 \<Rightarrow> bool \<Rightarrow> GroupOption list \<Rightarrow> groups \<Rightarrow> (nat \<times> groups) option" where
  "NewGroup name cacheBytes getter opts G =
     (case newGroupValue name cacheBytes getter opts of
        None \<Rightarrow> None
      | Some g \<Rightarrow>
          (let i = length (groups_heap G);
               old = gm_get (groups_map G) name;
               G = G\<lparr>groups_heap := groups_heap G @ [g], groups_map := gm_put name i (groups_map G)\<rparr>
           in Some (i, case old of Some j \<Rightarrow> Group_Close j G | None \<Rightarrow> G)))"

definition ListGroups :: "groups \<Rightarrow> string list" where
  "ListGroups G = map fst (groups_map G)"

definition DestroyGroup :: "string \<Rightarrow> groups \<Rightarrow> bool \<times> groups" where
  "DestroyGroup name G =
     (case gm_get (groups_map G) name of None \<Rightarrow> (False, G) | Some i \<Rightarrow> (True, Group_Close i G))"

definition DestroyAllGroups :: "groups \<Rightarrow> groups" where
  "DestroyAllGroups G = foldl (\<lambda>G i. Group_Close i G) G (map snd (groups_map G))"

section \<open>Statistics\<close>

record GroupStatsView =
  v_name :: string
  v_closed :: bool
  v_owner_ttl :: duration
  v_near_ttl :: duration
  v_read_through :: bool
  v_counters :: "int64 list"
  v_avg_source_load_ms :: "real option"
  v_owner_cache :: "CacheStats option"
  v_near_cache :: "CacheStats option"

text \<open>
  \<^verbatim>\<open>Stats\<close>; the counters in the order of the source, from \<^verbatim>\<open>local_hits\<close> to
  \<^verbatim>\<open>invalidation_failures\<close>. The average is an exact quotient.
\<close>

definition Group_Stats :: "Group \<Rightarrow> GroupStatsView" where
  "Group_Stats g =
     (let st = g_stats g
      in \<lparr>v_name = g_name g, v_closed = g_closed g, v_owner_ttl = expiration g, v_near_ttl = nearTTL g,
          v_read_through = g_getter g,
          v_counters = [localHits st, localMisses st, nearHits st, nearMisses st, peerHits st, peerMisses st,
            sourceLoads st, sourceErrors st, sets st, deletes st, invalidationFailures st],
          v_avg_source_load_ms =
            (if 0 < sint (sourceLoads st)
             then Some (real_of_int (sint (sourceDuration st)) / real_of_int (sint (sourceLoads st)) / 1000000)
             else None),
          v_owner_cache = map_option Cache_Stats (mainCache g),
          v_near_cache = map_option Cache_Stats (nearCache g)\<rparr>)"

section \<open>The registry holds exactly the open groups\<close>

definition is_open :: "nat \<Rightarrow> groups \<Rightarrow> bool" where
  "is_open i G \<longleftrightarrow> i < length (groups_heap G) \<and> \<not> g_closed (groups_heap G ! i)"

definition groups_inv :: "groups \<Rightarrow> bool" where
  "groups_inv G \<longleftrightarrow> gm_ok (groups_map G) \<and>
     (\<forall>k i. gm_get (groups_map G) k = Some i \<longleftrightarrow> is_open i G \<and> g_name (groups_heap G ! i) = k)"

lemma groups_invD:
  assumes "groups_inv G"
  shows "gm_ok (groups_map G)" "gm_get (groups_map G) k = Some i \<longleftrightarrow> is_open i G \<and> g_name (groups_heap G ! i) = k"
  using assms unfolding groups_inv_def by blast+

lemma Group_Close_map:
  assumes "groups_inv G" "i < length (groups_heap G)"
  shows "groups_map (Group_Close i G) =
    (if g_closed (groups_heap G ! i) then groups_map G else gm_del (g_name (groups_heap G ! i)) (groups_map G))"
  using assms groups_invD(2) [OF assms(1), of "g_name (groups_heap G ! i)" i]
  by (auto simp: Group_Close_def Group_close_def is_open_def)

lemma Group_Close_heap:
  "groups_heap (Group_Close i G) = (groups_heap G)[i := snd (Group_close (groups_heap G ! i))]"
  by (simp add: Group_Close_def Group_close_def Let_def)

lemma Group_close_simps [simp]: "g_closed (snd (Group_close g))" "g_name (snd (Group_close g)) = g_name g"
  by (auto simp: Group_close_def)

lemma Group_Close_open: "is_open j (Group_Close i G) \<longleftrightarrow> is_open j G \<and> j \<noteq> i"
  by (cases "i < length (groups_heap G)") (auto simp: is_open_def Group_Close_heap nth_list_update)

lemma groups_inv_unique: "groups_inv G \<Longrightarrow> is_open i G \<Longrightarrow> is_open j G \<Longrightarrow> g_name (groups_heap G ! i) = g_name (groups_heap G ! j) \<Longrightarrow> i = j"
  using groups_invD(2) by (metis option.inject)

lemma Group_Close_inv:
  assumes "groups_inv G" "i < length (groups_heap G)"
  shows "groups_inv (Group_Close i G)"
proof -
  have name: "g_name (groups_heap (Group_Close i G) ! j) = g_name (groups_heap G ! j)" for j
    using assms(2) by (simp add: Group_Close_heap nth_list_update)
  have "gm_get (groups_map (Group_Close i G)) k = Some j \<longleftrightarrow> is_open j (Group_Close i G) \<and> g_name (groups_heap G ! j) = k" for k j
  proof (cases "is_open i G")
    case True
    then have "gm_get (groups_map (Group_Close i G)) = (gm_get (groups_map G))(g_name (groups_heap G ! i) := None)"
      using Group_Close_map [OF assms] by (simp add: is_open_def gomap_simps)
    then show ?thesis
      using groups_invD(2) [OF assms(1), of k j] groups_inv_unique [OF assms(1) True, of j] by (auto simp: Group_Close_open)
  next
    case False
    then have "groups_map (Group_Close i G) = groups_map G"
      using Group_Close_map [OF assms] assms(2) by (simp add: is_open_def)
    then show ?thesis using groups_invD(2) [OF assms(1), of k j] False by (auto simp: Group_Close_open)
  qed
  moreover have "gm_ok (groups_map (Group_Close i G))"
    using groups_invD(1) [OF assms(1)] by (simp add: Group_Close_map [OF assms] gomap_simps)
  ultimately show ?thesis unfolding groups_inv_def name by blast
qed

text \<open>The options of the package; none renames a group or closes it.\<close>

definition group_options :: "GroupOption set" where
  "group_options = range WithExpiration \<union> range WithPeers \<union> range WithCacheOptions \<union>
     (\<lambda>(m, d). WithNearCache m d) ` UNIV \<union> (\<lambda>(m, d). WithHotCache m d) ` UNIV"

lemma group_option_keeps:
  "opt \<in> group_options \<Longrightarrow> opt g = Some g' \<Longrightarrow> g_name g' = g_name g \<and> g_closed g' = g_closed g"
  by (auto simp: group_options_def WithExpiration_def WithPeers_def WithCacheOptions_def WithHotCache_def WithNearCache_def
      split: if_splits)

lemma applyOptions_keeps:
  "set opts \<subseteq> group_options \<Longrightarrow> applyOptions opts g = Some g' \<Longrightarrow> g_name g' = g_name g \<and> g_closed g' = g_closed g"
proof (induction opts arbitrary: g)
  case (Cons opt opts)
  then show ?case using group_option_keeps [of opt g] by (auto split: option.splits)
qed simp

lemma newGroupValue_fresh:
  assumes "set opts \<subseteq> group_options" "newGroupValue name b getter opts = Some g"
  shows "g_name g = name" "\<not> g_closed g" "mainCache g \<noteq> None"
  using assms(2) by (auto simp: newGroupValue_def dest: applyOptions_keeps [OF assms(1)] split: option.splits if_splits)

lemma NewGroup_effect:
  assumes inv: "groups_inv G" and "set opts \<subseteq> group_options" and new: "NewGroup name b getter opts G = Some (i, G')"
  shows "groups_inv G'" "i = length (groups_heap G)"
    "is_open j G' \<longleftrightarrow> j = i \<or> is_open j G \<and> g_name (groups_heap G ! j) \<noteq> name"
    "GetGroup name G' = Some i" "length (groups_heap G') = Suc i"
proof -
  obtain g where g: "newGroupValue name b getter opts = Some g" using new by (auto simp: NewGroup_def split: option.splits)
  note fresh = newGroupValue_fresh [OF assms(2) g]
  let ?i = "length (groups_heap G)"
  let ?G = "G\<lparr>groups_heap := groups_heap G @ [g], groups_map := gm_put name ?i (groups_map G)\<rparr>"
  have i: "i = ?i" and G': "G' = (case gm_get (groups_map G) name of Some o' \<Rightarrow> Group_Close o' ?G | None \<Rightarrow> ?G)"
    using new g by (simp_all add: NewGroup_def Let_def)
  have old: "gm_get (groups_map G) name = Some o' \<longleftrightarrow> is_open o' G \<and> g_name (groups_heap G ! o') = name" for o'
    by (rule groups_invD(2) [OF inv])
  have less: "is_open o' G \<Longrightarrow> o' < ?i" for o' by (simp add: is_open_def)
  have map': "groups_map G' = gm_put name ?i (groups_map G)"
    using old less by (cases "gm_get (groups_map G) name")
      (auto simp: G' Group_Close_def Group_close_def gomap_simps nth_append is_open_def)
  have op0: "is_open j ?G \<longleftrightarrow> j = ?i \<or> is_open j G" for j
    using fresh(2) by (auto simp: is_open_def nth_append less_Suc_eq)
  have op: "is_open j G' \<longleftrightarrow> j = ?i \<or> is_open j G \<and> g_name (groups_heap G ! j) \<noteq> name" for j
  proof (cases "gm_get (groups_map G) name")
    case None
    then show ?thesis using old [of j] by (auto simp: G' op0)
  next
    case (Some o')
    then show ?thesis
      using old [of j] less [of o'] old [of o'] by (auto simp: G' op0 Group_Close_open)
  qed
  have names: "g_name (groups_heap G' ! j) = (if j = ?i then name else g_name (groups_heap G ! j))" if "is_open j G'" for j
    using that less [of j] fresh(1) old op [of j]
    by (cases "gm_get (groups_map G) name") (auto simp: G' Group_Close_heap nth_append nth_list_update is_open_def)
  have "gm_get (groups_map G') k = Some j \<longleftrightarrow> is_open j G' \<and> g_name (groups_heap G' ! j) = k" for k j
    using groups_invD(2) [OF inv, of k j] names [of j] op [of j] less [of j] by (auto simp: map' gomap_simps)
  moreover have "gm_ok (groups_map G')" using groups_invD(1) [OF inv] by (simp add: map' gomap_simps)
  ultimately show "groups_inv G'" unfolding groups_inv_def by blast
  show "i = ?i" by (rule i)
  show "is_open j G' \<longleftrightarrow> j = i \<or> is_open j G \<and> g_name (groups_heap G ! j) \<noteq> name" using op by (simp add: i)
  show "GetGroup name G' = Some i" by (simp add: GetGroup_def map' gomap_simps i)
  show "length (groups_heap G') = Suc i" by (simp add: G' i Group_Close_heap split: option.split)
qed

lemma close_all_effect:
  assumes "groups_inv G" "\<forall>i\<in>set is. i < length (groups_heap G)"
  shows "groups_inv (foldl (\<lambda>G i. Group_Close i G) G is) \<and>
    (\<forall>j. is_open j (foldl (\<lambda>G i. Group_Close i G) G is) \<longleftrightarrow> is_open j G \<and> j \<notin> set is)"
  using assms
proof (induction "is" arbitrary: G)
  case (Cons i "is")
  then show ?case
    using Cons.IH [of "Group_Close i G"] Group_Close_inv [of G i] by (auto simp: Group_Close_open Group_Close_heap)
qed simp

lemma DestroyAllGroups_effect:
  assumes "groups_inv G"
  shows "groups_inv (DestroyAllGroups G)" "\<not> is_open j (DestroyAllGroups G)"
proof -
  have mem: "i \<in> snd ` set (groups_map G) \<longleftrightarrow> is_open i G" for i
  proof
    assume "i \<in> snd ` set (groups_map G)"
    then obtain k where "(k, i) \<in> set (groups_map G)" by auto
    then have "gm_get (groups_map G) k = Some i" using groups_invD(1) [OF assms] by simp
    then show "is_open i G" using groups_invD(2) [OF assms] by blast
  next
    assume "is_open i G"
    then have "gm_get (groups_map G) (g_name (groups_heap G ! i)) = Some i" using groups_invD(2) [OF assms] by blast
    then show "i \<in> snd ` set (groups_map G)" by (metis map_of_SomeD image_eqI snd_conv)
  qed
  then have "\<forall>i\<in>set (map snd (groups_map G)). i < length (groups_heap G)" by (auto simp: is_open_def)
  from close_all_effect [OF assms this] mem
  show "groups_inv (DestroyAllGroups G)" "\<not> is_open j (DestroyAllGroups G)"
    unfolding DestroyAllGroups_def by auto
qed

text \<open>The calls on the registry, and any operation on a group, which keeps its name and does not close it.\<close>

inductive groups_step :: "groups \<Rightarrow> groups \<Rightarrow> bool" where
  new: "set opts \<subseteq> group_options \<Longrightarrow> NewGroup name b getter opts G = Some (i, G') \<Longrightarrow> groups_step G G'"
| close: "i < length (groups_heap G) \<Longrightarrow> groups_step G (Group_Close i G)"
| destroy: "groups_step G (snd (DestroyGroup name G))"
| destroyAll: "groups_step G (DestroyAllGroups G)"
| operate: "i < length (groups_heap G) \<Longrightarrow> g_name g = g_name (groups_heap G ! i) \<Longrightarrow>
    g_closed g = g_closed (groups_heap G ! i) \<Longrightarrow> groups_step G (G\<lparr>groups_heap := (groups_heap G)[i := g]\<rparr>)"

inductive groups_reachable :: "groups \<Rightarrow> bool" where
  init: "groups_reachable no_groups"
| step: "groups_reachable G \<Longrightarrow> groups_step G G' \<Longrightarrow> groups_reachable G'"

lemma groups_step_inv: "groups_step G G' \<Longrightarrow> groups_inv G \<Longrightarrow> groups_inv G'"
proof (induction rule: groups_step.induct)
  case (new opts name b getter G i G')
  then show ?case by (blast intro: NewGroup_effect)
next
  case (destroy G name)
  show ?case
  proof (cases "gm_get (groups_map G) name")
    case (Some i)
    with destroy have "is_open i G" using groups_invD(2) by blast
    with Some destroy show ?thesis by (simp add: DestroyGroup_def Group_Close_inv is_open_def)
  qed (use destroy in \<open>simp add: DestroyGroup_def\<close>)
next
  case (operate i G g)
  let ?G = "G\<lparr>groups_heap := (groups_heap G)[i := g]\<rparr>"
  have "is_open j ?G = is_open j G" "g_name (groups_heap ?G ! j) = g_name (groups_heap G ! j)" for j
    using operate by (auto simp: is_open_def nth_list_update)
  with operate.prems show ?case unfolding groups_inv_def by simp
qed (simp_all add: Group_Close_inv DestroyAllGroups_effect)

lemma groups_reachable_groups_inv: "groups_reachable G \<Longrightarrow> groups_inv G"
proof (induction rule: groups_reachable.induct)
  case init
  show ?case by (simp add: groups_inv_def no_groups_def is_open_def)
qed (rule groups_step_inv)

text \<open>
  C35. The registry names exactly the open groups, whatever was created, replaced, closed or destroyed: a
  lookup never returns a closed group, no two open groups share a name, and \<^verbatim>\<open>DestroyAllGroups\<close> leaves
  nothing open and nothing registered.
\<close>

theorem registry_names_open_groups:
  assumes "groups_reachable G"
  shows "(GetGroup name G = Some i \<longleftrightarrow> is_open i G \<and> g_name (groups_heap G ! i) = name) \<and>
    ListGroups (DestroyAllGroups G) = [] \<and> \<not> is_open i (DestroyAllGroups G)"
proof -
  note inv = groups_reachable_groups_inv [OF assms]
  have "gm_get (groups_map (DestroyAllGroups G)) k \<noteq> Some j" for k j
    using groups_invD(2) DestroyAllGroups_effect [OF inv] by blast
  then have "gm_get (groups_map (DestroyAllGroups G)) = Map.empty" by (intro ext) (metis not_None_eq)
  then show ?thesis
    using groups_invD(2) [OF inv, of name i] DestroyAllGroups_effect(2) [OF inv] by (simp add: GetGroup_def ListGroups_def)
qed

lemma NewGroup_returns: "\<exists>i G'. NewGroup name b getter [] G = Some (i, G')"
proof -
  have "sint (oShardCount (if 0 < sint b then DefaultCacheOptions\<lparr>oMaxBytes := b\<rparr> else DefaultCacheOptions)) \<le> 2 ^ 62"
    by (simp add: DefaultCacheOptions_def)
  from NewCache_returns [OF this] show ?thesis by (auto simp: NewGroup_def newGroupValue_def Let_def)
qed

theorem registry_names_open_groups_witness:
  "\<exists>G. GetGroup ''g'' G = Some 1 \<and> is_open 1 G \<and> \<not> is_open 0 G \<and> ListGroups (DestroyAllGroups G) = []"
proof -
  obtain i G1 where G1: "NewGroup ''g'' 0 True [] no_groups = Some (i, G1)" using NewGroup_returns by blast
  obtain j G2 where G2: "NewGroup ''g'' 0 True [] G1 = Some (j, G2)" using NewGroup_returns by blast
  have r1: "groups_reachable G1"
    by (rule groups_reachable.step [OF groups_reachable.init groups_step.new [OF _ G1]]) simp
  have r2: "groups_reachable G2" by (rule groups_reachable.step [OF r1 groups_step.new [OF _ G2]]) simp
  note e1 = NewGroup_effect [OF groups_reachable_groups_inv [OF groups_reachable.init] _ G1]
    and e2 = NewGroup_effect [OF groups_reachable_groups_inv [OF r1] _ G2]
  have "j = 1" using e1(2,5) e2(2) by (simp add: no_groups_def)
  moreover have "\<not> is_open 0 G2"
    using e1(2,4) e2(3) [of 0] calculation groups_invD(2) [OF groups_reachable_groups_inv [OF r1], of "''g''" 0]
    by (simp add: no_groups_def GetGroup_def)
  ultimately show ?thesis
    using registry_names_open_groups [OF r2, of "''g''" 1] e2(4) by (intro exI [of _ G2]) simp
qed

end
