(* ===== verification/Server.thy ===== *)
theory Server
  imports Group_Registry
begin

text \<open>
  The gRPC server of \<^verbatim>\<open>src/server.go\<close>: options, life cycle, the mapping of group errors to status
  codes, and the three handlers. Listening, serving, TLS files and etcd are parameters. A handler acts on
  the registry of groups; a panic of a group operation passes through it.
\<close>

section \<open>Options\<close>

record ServerOptions =
  so_EtcdEndpoints :: "string list"
  so_DialTimeout :: duration
  so_LeaseTTL :: int64
  so_MaxMsgSize :: int64
  so_TLS :: bool
  so_CertFile :: string
  so_KeyFile :: string
  so_AdvertiseAddr :: string

definition DefaultServerOptions :: ServerOptions where
  "DefaultServerOptions = \<lparr>so_EtcdEndpoints = [''localhost:2379''], so_DialTimeout = 5 * second, so_LeaseTTL = 10,
     so_MaxMsgSize = push_bit 20 4, so_TLS = False, so_CertFile = [], so_KeyFile = [], so_AdvertiseAddr = []\<rparr>"

type_synonym ServerOption = "ServerOptions \<Rightarrow> ServerOptions"

definition WithEtcdEndpoints :: "string list \<Rightarrow> ServerOption" where
  "WithEtcdEndpoints endpoints opts = opts\<lparr>so_EtcdEndpoints := endpoints\<rparr>"

definition WithDialTimeout :: "duration \<Rightarrow> ServerOption" where
  "WithDialTimeout timeout opts = (if 0 < timeout then opts\<lparr>so_DialTimeout := timeout\<rparr> else opts)"

definition WithLeaseTTL :: "int64 \<Rightarrow> ServerOption" where
  "WithLeaseTTL seconds opts = (if 0 < sint seconds then opts\<lparr>so_LeaseTTL := seconds\<rparr> else opts)"

definition WithAdvertiseAddress :: "string \<Rightarrow> ServerOption" where
  "WithAdvertiseAddress addr opts = opts\<lparr>so_AdvertiseAddr := addr\<rparr>"

definition WithTLS :: "string \<Rightarrow> string \<Rightarrow> ServerOption" where
  "WithTLS certFile keyFile opts = opts\<lparr>so_TLS := True, so_CertFile := certFile, so_KeyFile := keyFile\<rparr>"

section \<open>Life cycle\<close>

text \<open>
  Registrations are objects: \<open>s_registration\<close> is an address in \<open>s_regs\<close>. \<open>s_ctxDone\<close> says that the
  context is cancelled, \<open>s_grpcStopped\<close> that the gRPC server is stopped.
\<close>

record Server =
  s_listenAddr :: string
  s_advertiseAddr :: string
  s_svcName :: string
  s_opts :: ServerOptions
  s_ctxDone :: bool
  s_regs :: "Registration list"
  s_registration :: "nat option"
  s_listener :: bool
  s_stopOnce :: bool
  s_grpcStopped :: bool
  s_etcdOpen :: bool

text \<open>
  \<open>etcd\<close> is the error of \<^verbatim>\<open>clientv3.New\<close> and \<open>keyPair\<close> that of \<^verbatim>\<open>tls.LoadX509KeyPair\<close>. The second
  result is the number of etcd clients left open.
\<close>

definition loadTLSCredentials :: "(string \<Rightarrow> string \<Rightarrow> error option) \<Rightarrow> string \<Rightarrow> string \<Rightarrow> error option" where
  "loadTLSCredentials keyPair certFile keyFile = keyPair certFile keyFile"

definition NewServer ::
    "error + net_addr list \<Rightarrow> error option \<Rightarrow> (string \<Rightarrow> string \<Rightarrow> error option) \<Rightarrow> string \<Rightarrow> string \<Rightarrow>
     ServerOption list \<Rightarrow> (error + Server) \<times> nat" where
  "NewServer ifs etcd keyPair addr svc opts =
     (let options = foldl (\<lambda>o' opt. opt o') DefaultServerOptions opts;
          svc = (if svc = [] then defaultSvcName else svc);
          advertiseSource = (if so_AdvertiseAddr options \<noteq> [] then so_AdvertiseAddr options else addr)
      in case NormalizeAddress ifs advertiseSource of
           Inl err \<Rightarrow> (Inl err, 0)
         | Inr advertiseAddr \<Rightarrow>
             (case etcd of
                Some err \<Rightarrow> (Inl (wrapped ''create etcd client: %w'' [] err), 0)
              | None \<Rightarrow>
                  (case (if so_TLS options then loadTLSCredentials keyPair (so_CertFile options) (so_KeyFile options)
                         else None) of
                     Some err \<Rightarrow> (Inl (wrapped ''load TLS credentials: %w'' [] err), 0)
                   | None \<Rightarrow>
                       (Inr \<lparr>s_listenAddr = addr, s_advertiseAddr = advertiseAddr, s_svcName = svc, s_opts = options,
                             s_ctxDone = False, s_regs = [], s_registration = None, s_listener = False,
                             s_stopOnce = False, s_grpcStopped = False, s_etcdOpen = True\<rparr>, 1))))"

definition Address :: "Server \<Rightarrow> string" where
  "Address s = s_advertiseAddr s"

text \<open>\<^verbatim>\<open>reg.Close\<close> on the registration at an address; \<open>sel\<close> is what its \<^verbatim>\<open>select\<close> receives.\<close>

definition closeReg :: "'x etcd \<Rightarrow> ctx_error option \<Rightarrow> nat \<Rightarrow> Server \<times> 'x \<Rightarrow> Server \<times> 'x" where
  "closeReg cli sel i sx =
     (case sx of (s, x) \<Rightarrow>
        (case Registration_Close cli sel (Some (s_regs s ! i)) x of
           (_, Some r, x) \<Rightarrow> (s\<lparr>s_regs := (s_regs s)[i := r]\<rparr>, x)
         | (_, None, x) \<Rightarrow> (s, x)))"

text \<open>
  \<open>listen\<close> is the error of \<^verbatim>\<open>net.Listen\<close>. \<open>serve\<close> is \<^verbatim>\<open>grpcServer.Serve\<close> with everything that happens until
  it returns, a call of \<^verbatim>\<open>Stop\<close> included. \<open>isStopped\<close> recognises \<^verbatim>\<open>grpc.ErrServerStopped\<close>.
\<close>

definition Start ::
    "'x etcd \<Rightarrow> error option \<Rightarrow> (Server \<times> 'x \<Rightarrow> error option \<times> Server \<times> 'x) \<Rightarrow> (error \<Rightarrow> bool) \<Rightarrow> ctx_error option \<Rightarrow>
     Server \<times> 'x \<Rightarrow> error option \<times> Server \<times> 'x" where
  "Start cli listen serve isStopped sel sx =
     (case sx of (s, x) \<Rightarrow>
        (case listen of
           Some err \<Rightarrow> (Some (wrapped ''listen on %s: %w'' [S (s_listenAddr s)] err), s, x)
         | None \<Rightarrow>
             (case Register (Some cli) (s_svcName s) (s_advertiseAddr s) (sint (so_LeaseTTL (s_opts s))) x of
                (Inl err, x) \<Rightarrow> (Some (wrapped ''register locache service: %w'' [] err), s, x)
              | (Inr reg, x) \<Rightarrow>
                  (let i = length (s_regs s);
                       s = s\<lparr>s_regs := s_regs s @ [reg], s_registration := Some i, s_listener := True\<rparr>
                   in case serve (s, x) of
                        (err, s, x) \<Rightarrow>
                          (let failed = (case err of Some e \<Rightarrow> \<not> isStopped e \<and> \<not> s_ctxDone s | None \<Rightarrow> False)
                           in (if failed then err else None, closeReg cli sel i (s, x)))))))"

definition Stop :: "'x etcd \<Rightarrow> ctx_error option \<Rightarrow> Server \<times> 'x \<Rightarrow> Server \<times> 'x" where
  "Stop cli sel sx =
     (case sx of (s, x) \<Rightarrow>
        (if s_stopOnce s then sx
         else (let s = s\<lparr>s_stopOnce := True, s_ctxDone := True\<rparr>;
                   (s, x) = (case s_registration s of Some i \<Rightarrow> closeReg cli sel i (s, x) | None \<Rightarrow> (s, x))
               in (s\<lparr>s_grpcStopped := True, s_etcdOpen := False\<rparr>, x))))"

section \<open>Errors on the wire\<close>

definition mapGroupError :: "error option \<Rightarrow> error option" where
  "mapGroupError e =
     (case e of
        None \<Rightarrow> None
      | Some err \<Rightarrow>
          (if errors_Is err ErrNotOwner \<or> errors_Is err ErrTopologyChanged \<or> errors_Is err ErrNoOwner
           then Some (Status FailedPrecondition err)
           else if errors_Is err ErrCacheMiss then Some (Status NotFound err)
           else if errors_Is err ErrGroupClosed then Some (Status Unavailable err)
           else Some err))"

section \<open>Handlers\<close>

text \<open>The frame of a handler: look the group up, run an operation on it.\<close>

definition on_group ::
    "string \<Rightarrow> (Group \<times> 'w \<Rightarrow> 'a result \<times> Group \<times> 'w) \<Rightarrow> groups \<times> 'w \<Rightarrow> 'a result \<times> groups \<times> 'w" where
  "on_group name f Gw =
     (case Gw of (G, w) \<Rightarrow>
        (case GetGroup name G of
           None \<Rightarrow> (Err (Errorf ''group %s not found'' [S name] None), G, w)
         | Some i \<Rightarrow>
             (case f (groups_heap G ! i, w) of
                (r, g, w) \<Rightarrow> (r, G\<lparr>groups_heap := (groups_heap G)[i := g]\<rparr>, w))))"

definition server_Get :: "('w, 'm) lenv_scheme \<Rightarrow> Request \<Rightarrow> groups \<times> 'w \<Rightarrow> bytes result \<times> groups \<times> 'w" where
  "server_Get env req =
     on_group (r_group req) (\<lambda>s. case getLocal env (r_key req) s of
        (Err err, s) \<Rightarrow> (Err (the (mapGroupError (Some err))), s)
      | (r, s) \<Rightarrow> (r, s))"

definition server_Set :: "('w, 'm) lenv_scheme \<Rightarrow> Request \<Rightarrow> groups \<times> 'w \<Rightarrow> bytes result \<times> groups \<times> 'w" where
  "server_Set env req =
     on_group (r_group req) (\<lambda>s. case setLocal env (r_key req) (r_value req) s of
        (Some err, s) \<Rightarrow> (Err (the (mapGroupError (Some err))), s)
      | (None, s) \<Rightarrow> (Ok (r_value req), s))"

text \<open>The context carries the metadata of the caller.\<close>

definition server_Delete ::
    "('w, 'm) lenv_scheme \<Rightarrow> Context \<Rightarrow> Request \<Rightarrow> groups \<times> 'w \<Rightarrow> bool result \<times> groups \<times> 'w" where
  "server_Delete env ctx req =
     on_group (r_group req) (\<lambda>s.
       if peerInvalidationMetadataKey \<in> fst ` set (ctx_metadata ctx)
       then (case deleteLocal env (r_key req) s of (removed, s) \<Rightarrow> (Ok removed, s))
       else (case deleteOwnerLocal env (r_key req) s of
               (Inl err, s) \<Rightarrow> (Err (the (mapGroupError (Some err))), s)
             | (Inr removed, s) \<Rightarrow> (Ok removed, s)))"

section \<open>What a requester sees of an owner's error\<close>

text \<open>An error that carries a gRPC status of its own in its chain.\<close>

fun has_status :: "error \<Rightarrow> bool" where
  "has_status (Status c e) = True"
| "has_status (Errorf f as (Some e)) = has_status e"
| "has_status (Join es) = list_ex has_status es"
| "has_status _ = False"

text \<open>
  C18. An error of the owner reaches the requester's retry loop with its meaning, although only the code of a
  status crosses the wire. Whatever the error, the requester retries if the owner answered that it does not
  own the key, that the membership changed or that it knows no owner, and it sees a miss if the owner had
  one. Conversely, if the error carries no status of its own, which only an error of the getter can do, the
  requester retries or sees a miss for no other reason. \<open>transmit\<close> is the transport: it keeps the code of a
  status, gives an error of a context the code Canceled (1) or DeadlineExceeded (4) and any other error
  without a status the code Unknown (2), and loses the identity of errors.
\<close>

theorem owner_errors_keep_meaning:
  assumes "\<And>c e. code_of (transmit (Status c e)) = c"
    "\<And>e. \<not> has_status e \<Longrightarrow> code_of (transmit e) \<in> {OtherCode 1, OtherCode 2, OtherCode 4}"
    "\<And>e t. \<not> errors_Is (transmit e) t"
  shows "let seen = rpc_error code_of f c (transmit (the (mapGroupError (Some err))));
             moved = (errors_Is err ErrNotOwner \<or> errors_Is err ErrTopologyChanged \<or> errors_Is err ErrNoOwner);
             miss = (errors_Is err ErrCacheMiss \<and> \<not> moved)
         in (moved \<longrightarrow> is_moved seen \<and> \<not> errors_Is seen ErrCacheMiss) \<and> (miss \<longrightarrow> errors_Is seen ErrCacheMiss \<and> \<not> is_moved seen) \<and>
            (\<not> has_status err \<longrightarrow> (is_moved seen \<longrightarrow> moved) \<and> (errors_Is seen ErrCacheMiss \<longrightarrow> miss))"
proof -
  have codes: "code_of (transmit err) = OtherCode 1 \<or> code_of (transmit err) = OtherCode 2 \<or> code_of (transmit err) = OtherCode 4"
    if "\<not> has_status err" using assms(2) [OF that] by simp
  show ?thesis
  proof (cases "has_status err")
    case True
    with assms(1,3) show ?thesis by (simp add: mapGroupError_def errors_Is_rpc_error)
  next
    case False
    from codes [OF this] assms(1,3) show ?thesis by (auto simp: mapGroupError_def errors_Is_rpc_error Let_def)
  qed
qed

section \<open>The lease of a server\<close>

lemma Register_fresh: "Register cli svc addr ttl x = (Inr reg, x') \<Longrightarrow> \<not> once reg"
  by (auto simp: Register_def Let_def split: option.splits sum.splits prod.splits)

text \<open>
  C34. The lease of a server is revoked exactly once. When \<^verbatim>\<open>Stop\<close> runs while the server serves, \<^verbatim>\<open>Start\<close>
  returns nil, and neither its own deferred close nor a second \<^verbatim>\<open>Stop\<close> revokes again. When serving
  ends by itself the deferred close revokes the lease and a later \<^verbatim>\<open>Stop\<close> does not.
\<close>

theorem lease_revoked_once:
  assumes "Register (Some cli) (s_svcName s) (s_advertiseAddr s) (sint (so_LeaseTTL (s_opts s))) x = (Inr reg, x1)"
    "\<not> s_stopOnce s"
  shows "(\<exists>s'. Start cli None (\<lambda>sx. (err, Stop cli sel sx)) isStopped sel' (s, x) = (None, s', snd (Revoke cli (leaseID reg) x1)) \<and>
      s_grpcStopped s' \<and> \<not> s_etcdOpen s' \<and> (\<forall>y. Stop cli sel'' (s', y) = (s', y))) \<and>
    (\<exists>r s'. Start cli None (\<lambda>sx. (err, sx)) isStopped sel' (s, x) = (r, s', snd (Revoke cli (leaseID reg) x1)) \<and>
      (\<forall>y. snd (Stop cli sel'' (s', y)) = y))"
  using assms(2) Register_fresh [OF assms(1)]
  by (simp add: Start_def assms(1) Let_def Stop_def closeReg_def Registration_Close_def case_prod_beta split: option.split)

section \<open>Instances\<close>

fun demo_code :: "error \<Rightarrow> code" where
  "demo_code (Status c e) = c"
| "demo_code e = OtherCode 2"

text \<open>The status a gRPC server gives to an error: its own, that of the context, or Unknown.\<close>

fun is_ctx :: "ctx_error \<Rightarrow> error \<Rightarrow> bool" where
  "is_ctx x (Ctx y) = (x = y)"
| "is_ctx x (Errorf f as (Some e)) = is_ctx x e"
| "is_ctx x (Join es) = list_ex (is_ctx x) es"
| "is_ctx x _ = False"

fun first_status :: "error \<Rightarrow> code option" where
  "first_status (Status c e) = Some c"
| "first_status (Errorf f as (Some e)) = first_status e"
| "first_status (Join es) = fold (\<lambda>x y. if y = None then x else y) (map first_status es) None"
| "first_status _ = None"

definition demo_wire :: "error \<Rightarrow> error" where
  "demo_wire e = Status
     (case first_status e of
        Some c \<Rightarrow> c
      | None \<Rightarrow> if is_ctx DeadlineExceeded e then OtherCode 4 else if is_ctx Canceled e then OtherCode 1 else OtherCode 2)
     (Text ''remote'')"

lemma demo_wire_Status [simp]: "demo_code (demo_wire (Status c e)) = c"
  by (simp add: demo_wire_def)

lemma first_status_None: "\<not> has_status e \<Longrightarrow> first_status e = None"
proof (induction e rule: first_status.induct)
  case (3 es)
  have "fold (\<lambda>x y. if y = None then x else y) xs None = None" if "\<forall>x\<in>set xs. x = None" for xs :: "code option list"
    using that by (induction xs) auto
  with 3 show ?case by (auto simp: list_ex_iff)
qed simp_all

theorem owner_errors_keep_meaning_witness:
  "(let seen = rpc_error demo_code ''grpc get from %s: %w'' \<lparr>c_addr = ''b'', c_rpcTimeout = 1, c_conn = 0\<rparr>
      (demo_wire (the (mapGroupError (Some (wrapped ''%w: owner=%s'' [S ''c''] (Sentinel ErrNotOwner))))))
    in is_moved seen \<and> \<not> errors_Is seen ErrCacheMiss) \<and>
   (let late = wrapped ''load %q from source: %w'' [S ''k''] (Ctx DeadlineExceeded);
        seen = rpc_error demo_code ''grpc get from %s: %w'' \<lparr>c_addr = ''b'', c_rpcTimeout = 1, c_conn = 0\<rparr>
          (demo_wire (the (mapGroupError (Some late))))
    in demo_code (demo_wire late) = OtherCode 4 \<and> \<not> is_moved seen \<and> \<not> errors_Is seen ErrCacheMiss)"
proof -
  have "demo_code (demo_wire (Status c e)) = c" for c e by simp
  moreover have "demo_code (demo_wire e) \<in> {OtherCode 1, OtherCode 2, OtherCode 4}" if "\<not> has_status e" for e
    using that by (simp add: demo_wire_def first_status_None)
  moreover have "\<not> errors_Is (demo_wire e) t" for e t by (simp add: demo_wire_def)
  ultimately have keep: "let seen = rpc_error demo_code f c (demo_wire (the (mapGroupError (Some err))));
             moved = (errors_Is err ErrNotOwner \<or> errors_Is err ErrTopologyChanged \<or> errors_Is err ErrNoOwner);
             miss = (errors_Is err ErrCacheMiss \<and> \<not> moved)
         in (moved \<longrightarrow> is_moved seen \<and> \<not> errors_Is seen ErrCacheMiss) \<and> (miss \<longrightarrow> errors_Is seen ErrCacheMiss \<and> \<not> is_moved seen) \<and>
            (\<not> has_status err \<longrightarrow> (is_moved seen \<longrightarrow> moved) \<and> (errors_Is seen ErrCacheMiss \<longrightarrow> miss))" for f c err
    by (rule owner_errors_keep_meaning)
  show ?thesis
    using keep [of "''grpc get from %s: %w''" "\<lparr>c_addr = ''b'', c_rpcTimeout = 1, c_conn = 0\<rparr>" "wrapped ''%w: owner=%s'' [S ''c''] (Sentinel ErrNotOwner)"]
      keep [of "''grpc get from %s: %w''" "\<lparr>c_addr = ''b'', c_rpcTimeout = 1, c_conn = 0\<rparr>" "wrapped ''load %q from source: %w'' [S ''k''] (Ctx DeadlineExceeded)"]
    by (simp add: Let_def demo_wire_def)
qed

text \<open>An etcd that grants lease 7 and records the leases revoked.\<close>

definition demo_etcd :: "nat list etcd" where
  "demo_etcd = \<lparr>Grant = (\<lambda>ttl x. (Inr 7, x)), Put = (\<lambda>k v l x. (None, x)), KeepAlive = (\<lambda>l x. (None, x)),
     Revoke = (\<lambda>l x. (None, x @ [l]))\<rparr>"

theorem lease_revoked_once_witness:
  "\<exists>s s'. fst (NewServer (Inr []) None (\<lambda>_ _. None) ''a:1'' [] []) = Inr s \<and>
     Start demo_etcd None (\<lambda>sx. (None, Stop demo_etcd None sx)) (\<lambda>e. False) None (s, []) = (None, s', [7])"
proof -
  have "NormalizeAddress (Inr []) ''a:1'' = Inr ''a:1''" by code_simp
  then have "\<exists>s. fst (NewServer (Inr []) None (\<lambda>_ _. None) ''a:1'' [] []) = Inr s \<and> \<not> s_stopOnce s"
    by (simp add: NewServer_def DefaultServerOptions_def)
  then obtain s where s: "fst (NewServer (Inr []) None (\<lambda>_ _. None) ''a:1'' [] []) = Inr s" "\<not> s_stopOnce s" by blast
  have "Register (Some demo_etcd) (s_svcName s) (s_advertiseAddr s) (sint (so_LeaseTTL (s_opts s))) [] =
      (Inr \<lparr>leaseID = 7, cancelled = False, once = False\<rparr>, [])"
    by (simp add: Register_def demo_etcd_def Let_def)
  from lease_revoked_once [OF this s(2), of None None "\<lambda>e. False" None None] s(1) show ?thesis
    by (auto simp: demo_etcd_def)
qed

end
