(* ===== verification/Cluster.thy ===== *)
theory Cluster
  imports Group_Correct Server Peers_Correct
begin

text \<open>
  A cluster of nodes with settled membership: each node has a picker, a registry of groups and a server,
  and the clients of its picker reach the servers of the other nodes. A group operation on one node runs
  the picker, the client, the server's handler and the group on the other node, as the programs do. The
  world is the registries of all nodes and the number of clock readings so far; \<open>tm\<close> gives the readings,
  in any order.
\<close>

section \<open>Nodes and their connections\<close>

record cluster =
  regs :: "string \<Rightarrow> groups"
  clk :: nat

text \<open>
  What does not change: the pickers by address, the clock, the source of truth, \<^verbatim>\<open>status.Code\<close> and what
  the transport makes of a handler's error.
\<close>

record setting =
  pickers :: "string \<Rightarrow> ClientPicker"
  tm :: "nat \<Rightarrow> time"
  source :: "string \<Rightarrow> loaded"
  code_of :: "error \<Rightarrow> code"
  transmit :: "error \<Rightarrow> error"

text \<open>What the local operations of the groups of node \<open>a\<close> call.\<close>

definition node_lenv :: "setting \<Rightarrow> string \<Rightarrow> cluster lenv" where
  "node_lenv C a =
     \<lparr>e_PickOwner = (\<lambda>key s. (PickOwner key (pickers C a), s)), e_Epoch = (\<lambda>s. (Picker_Epoch (pickers C a), s)),
      e_getter = (\<lambda>key s. (source C key, s)), e_now = (\<lambda>w. (tm C (clk w), w\<lparr>clk := clk w + 1\<rparr>)), e_flight = (\<lambda>c s. s)\<rparr>"

text \<open>The answer of a handler on the wire; a panic takes the server down.\<close>

fun deliver :: "setting \<Rightarrow> 'a result \<Rightarrow> error + 'a" where
  "deliver C (Ok v) = Inr v"
| "deliver C (Err e) = Inl (transmit C e)"
| "deliver C (Panicked p) = Inl (Status Unavailable (Text p))"

definition served :: "setting \<Rightarrow> string \<Rightarrow> (groups \<times> cluster \<Rightarrow> 'a result \<times> groups \<times> cluster) \<Rightarrow> cluster \<Rightarrow> (error + 'a) \<times> cluster" where
  "served C b h w = (case h (regs w b, w) of (r, G, w) \<Rightarrow> (deliver C r, w\<lparr>regs := (regs w)(b := G)\<rparr>))"

definition stub_of :: "setting \<Rightarrow> Client \<Rightarrow> cluster LocacheClient" where
  "stub_of C c =
     (let b = c_addr c; env = node_lenv C b
      in \<lparr>rpc_Get = (\<lambda>ctx req. served C b (server_Get env req)),
          rpc_Set = (\<lambda>ctx req. served C b (server_Set env req)),
          rpc_Delete = (\<lambda>ctx req. served C b (server_Delete env ctx req))\<rparr>)"

text \<open>What the distributed operations of the groups of node \<open>a\<close> call.\<close>

definition node_env :: "setting \<Rightarrow> string \<Rightarrow> cluster env" where
  "node_env C a =
     \<lparr>e_PickOwner = (\<lambda>key s. (PickOwner key (pickers C a), s)), e_Epoch = (\<lambda>s. (Picker_Epoch (pickers C a), s)),
      e_getter = (\<lambda>key s. (source C key, s)), e_now = (\<lambda>w. (tm C (clk w), w\<lparr>clk := clk w + 1\<rparr>)), e_flight = (\<lambda>c s. s),
      e_Invalidate = (\<lambda>grp key owner (g, w).
        case Picker_Invalidate (code_of C) (stub_of C) (tm C (clk w)) None grp key owner (pickers C a) w of (r, w) \<Rightarrow> (r, g, w)),
      e_peer_Get = (\<lambda>c grp key (g, w). case Client_Get (code_of C) (stub_of C c) (tm C (clk w)) c None grp key w of (r, w) \<Rightarrow> (r, g, w)),
      e_peer_Set = (\<lambda>c grp key v (g, w). case Client_Set (code_of C) (stub_of C c) (tm C (clk w)) c None grp key v w of (r, w) \<Rightarrow> (r, g, w)),
      e_peer_Delete = (\<lambda>c grp key (g, w). case Client_Delete (code_of C) (stub_of C c) (tm C (clk w)) c None grp key w of (r, w) \<Rightarrow> (r, g, w)),
      e_wait = (\<lambda>s. ((0, None), s))\<rparr>"

text \<open>An operation of the application on the group at address \<open>i\<close> of node \<open>a\<close>.\<close>

definition at_node :: "string \<Rightarrow> nat \<Rightarrow> (Group \<times> cluster \<Rightarrow> 'a result \<times> Group \<times> cluster) \<Rightarrow> cluster \<Rightarrow> 'a result \<times> cluster" where
  "at_node a i f w =
     (case f (groups_heap (regs w a) ! i, w) of (r, g, w) \<Rightarrow>
        (r, w\<lparr>regs := (regs w)(a := (regs w a)\<lparr>groups_heap := (groups_heap (regs w a))[i := g]\<rparr>)\<rparr>))"

section \<open>Settled membership\<close>

text \<open>Every member sees the same members and has a client for each of the others.\<close>

definition settled :: "setting \<Rightarrow> string set \<Rightarrow> bool" where
  "settled C M \<longleftrightarrow> (\<exists>r. \<forall>b\<in>M. (\<exists>n. picker_reachable (pickers C b) n) \<and> hashReplicas (pickers C b) = r \<and>
     set (p_members (pickers C b)) = M \<and> selfAddr (pickers C b) = b \<and> M - {b} \<subseteq> dom (gm_get (p_clients (pickers C b))))"

abbreviation epoch_at :: "setting \<Rightarrow> string \<Rightarrow> uint64" where
  "epoch_at C b \<equiv> p_epoch (pickers C b)"


lemma settled_owner:
  assumes "settled C M" "M \<noteq> {}" "key \<noteq> []"
  obtains owner where "owner \<in> M" "owner \<noteq> []"
    "PickOwner key (pickers C owner) = (owner, NilPeer, True, epoch_at C owner, True)"
    "\<And>b. b \<in> M \<Longrightarrow> b \<noteq> owner \<Longrightarrow> \<exists>c. c_addr c = owner \<and>
       PickOwner key (pickers C b) = (owner, ClientPeer (Some c), False, epoch_at C b, True)"
proof -
  obtain r where r: "\<And>b. b \<in> M \<Longrightarrow> (\<exists>n. picker_reachable (pickers C b) n) \<and> hashReplicas (pickers C b) = r \<and>
     set (p_members (pickers C b)) = M \<and> selfAddr (pickers C b) = b \<and> M - {b} \<subseteq> dom (gm_get (p_clients (pickers C b)))"
    using assms(1) unfolding settled_def by blast
  have inv: "members_inv (pickers C b)" "filed (p_clients (pickers C b))" if "b \<in> M" for b
    using r [OF that] picker_reachable_picker_inv by (auto simp: picker_inv_def)
  let ?owner = "owner_of (DefaultConfig\<lparr>Replicas := r\<rparr>) M key"
  have pick: "fst (PickOwner key (pickers C b)) = ?owner" if "b \<in> M" for b
    using PickOwner_owner [OF inv(1) [OF that]] r [OF that] by simp
  obtain b0 where b0: "b0 \<in> M" using assms(2) by blast
  have fin: "finite M" using r [OF b0] by (metis List.finite_set)
  from b0 have own: "?owner \<noteq> []"
    using inv(1) [of b0] r [of b0] assms(3) by (intro owner_of_nonempty) (auto simp: members_inv_def)
  have mem: "?owner \<in> M" using own fin by (intro ring.owner_member) simp_all
  show thesis
  proof (rule that [OF mem own])
    show "PickOwner key (pickers C ?owner) = (?owner, NilPeer, True, epoch_at C ?owner, True)"
      using pick [OF mem] r [OF mem] own by (auto simp: PickOwner_def Let_def split: if_splits)
    fix b assume b: "b \<in> M" "b \<noteq> ?owner"
    have "?owner \<in> M - {b}" using mem b(2) by simp
    moreover have "M - {b} \<subseteq> dom (gm_get (p_clients (pickers C b)))" using r [OF b(1)] by (elim conjE)
    ultimately have "?owner \<in> dom (gm_get (p_clients (pickers C b)))" by (rule rev_subsetD)
    then obtain c where c: "gm_get (p_clients (pickers C b)) ?owner = Some c" by blast
    then have "c_addr c = ?owner" using inv(2) [OF b(1)] by (auto simp: filed_def dest!: map_of_SomeD)
    moreover have "PickOwner key (pickers C b) = (?owner, ClientPeer (Some c), False, epoch_at C b, True)"
      using pick [OF b(1)] r [OF b(1)] own b(2) c by (auto simp: PickOwner_def Let_def split: if_splits)
    ultimately show "\<exists>c. c_addr c = ?owner \<and> PickOwner key (pickers C b) = (?owner, ClientPeer (Some c), False, epoch_at C b, True)"
      by blast
  qed
qed

section \<open>The groups of a name\<close>

text \<open>\<open>I b\<close> is the address of the group on node \<open>b\<close>.\<close>

abbreviation grp_at :: "(string \<Rightarrow> nat) \<Rightarrow> cluster \<Rightarrow> string \<Rightarrow> Group" where
  "grp_at I w b \<equiv> groups_heap (regs w b) ! I b"

definition put_group :: "(string \<Rightarrow> nat) \<Rightarrow> string \<Rightarrow> Group \<Rightarrow> cluster \<Rightarrow> cluster" where
  "put_group I b g w = w\<lparr>regs := (regs w)(b := (regs w b)\<lparr>groups_heap := (groups_heap (regs w b))[I b := g]\<rparr>)\<rparr>"

text \<open>
  A group whose values expire is studied while they are alive: the clock does not go back and all readings
  are less than the TTL apart.
\<close>

definition within_ttl :: "setting \<Rightarrow> duration \<Rightarrow> bool" where
  "within_ttl C ttl \<longleftrightarrow> (0 < ttl \<longrightarrow> mono (tm C) \<and> (\<forall>m n. tm C m < tm C n + ttl))"

definition healthy :: "setting \<Rightarrow> string \<Rightarrow> Group \<Rightarrow> bool" where
  "healthy C name g \<longleftrightarrow> g_name g = name \<and> \<not> g_closed g \<and> g_peers g \<and> within_ttl C (expiration g) \<and>
     cache_inv (mainCache g) \<and> cache_inv (nearCache g)"

definition found :: "string \<Rightarrow> (string \<Rightarrow> nat) \<Rightarrow> cluster \<Rightarrow> string \<Rightarrow> bool" where
  "found name I w b \<longleftrightarrow> GetGroup name (regs w b) = Some (I b) \<and> I b < length (groups_heap (regs w b))"

lemma grp_at_put: "found name I w b \<Longrightarrow> grp_at I (put_group I b g w) b' = (if b' = b then g else grp_at I w b')"
  by (auto simp: put_group_def found_def)

lemma found_put [simp]: "found name I (put_group I b g w) b' = found name I w b'"
  by (auto simp: put_group_def found_def GetGroup_def)

lemma found_clk [simp]: "found name I (w\<lparr>clk := n\<rparr>) b = found name I w b"
  by (simp add: found_def)

lemma put_group_other [simp]: "b' \<noteq> b \<Longrightarrow> regs (put_group I b g w) b' = regs w b'"
  by (simp add: put_group_def)

section \<open>Calls\<close>

lemma node_lenv_simps [simp]:
  "e_PickOwner (node_lenv C a) key s = (PickOwner key (pickers C a), s)" "e_Epoch (node_lenv C a) s = (epoch_at C a, s)"
  "snd (e_now (node_lenv C a) w) = w\<lparr>clk := clk w + 1\<rparr>" "e_getter (node_lenv C a) key s = (source C key, s)"
  by (simp_all add: node_lenv_def Picker_Epoch_def)

lemma node_env_simps [simp]:
  "e_PickOwner (node_env C a) key s = (PickOwner key (pickers C a), s)" "e_Epoch (node_env C a) s = (epoch_at C a, s)"
  "snd (e_now (node_env C a) w) = w\<lparr>clk := clk w + 1\<rparr>" "e_wait (node_env C a) s = ((0, None), s)"
  by (simp_all add: node_env_def Picker_Epoch_def)

lemma served_on_group:
  assumes "found name I w b" "f (grp_at I w b, w) = (r, g', w')" "regs w' = regs w"
  shows "served C b (on_group name f) w = (deliver C r, (put_group I b g' w)\<lparr>clk := clk w'\<rparr>)"
  using assms by (simp add: served_def on_group_def found_def put_group_def)

lemma served_delete:
  assumes "found name I w b" "healthy C name (grp_at I w b)" "peerInvalidationMetadataKey \<in> fst ` set (ctx_metadata ctx)"
  obtains r ks h where "served C b (server_Delete (node_lenv C b) ctx \<lparr>r_group = name, r_key = key, r_value = v\<rparr>) w =
    (Inr r, put_group I b ((grp_at I w b)\<lparr>mainCache := snd (Cache_Delete key (mainCache (grp_at I w b))),
       nearCache := near_dropped (epoch_at C b) key (grp_at I w b), keyStates := ks, stateHeap := h\<rparr>) w)"
proof -
  let ?g = "grp_at I w b"
  obtain ks h where d: "deleteLocal (node_lenv C b) key (?g, w) = (fst (Cache_Delete key (mainCache ?g)),
      ?g\<lparr>mainCache := snd (Cache_Delete key (mainCache ?g)), nearCache := near_dropped (epoch_at C b) key ?g, keyStates := ks, stateHeap := h\<rparr>, w)"
    by (rule deleteLocal_effect [of ?g "node_lenv C b" "epoch_at C b" key w]) (simp, rule that)
  have "served C b (on_group name (\<lambda>s. if peerInvalidationMetadataKey \<in> fst ` set (ctx_metadata ctx)
       then (case deleteLocal (node_lenv C b) key s of (removed, s) \<Rightarrow> (Ok removed, s))
       else (case deleteOwnerLocal (node_lenv C b) key s of
               (Inl err, s) \<Rightarrow> (Err (the (mapGroupError (Some err))), s)
             | (Inr removed, s) \<Rightarrow> (Ok removed, s)))) w = (deliver C (Ok (fst (Cache_Delete key (mainCache ?g)))),
     (put_group I b (?g\<lparr>mainCache := snd (Cache_Delete key (mainCache ?g)), nearCache := near_dropped (epoch_at C b) key ?g, keyStates := ks, stateHeap := h\<rparr>) w)\<lparr>clk := clk w\<rparr>)"
    using assms(3) d by (intro served_on_group [OF assms(1)]) simp_all
  then have "served C b (server_Delete (node_lenv C b) ctx \<lparr>r_group = name, r_key = key, r_value = v\<rparr>) w =
    (deliver C (Ok (fst (Cache_Delete key (mainCache ?g)))),
     (put_group I b (?g\<lparr>mainCache := snd (Cache_Delete key (mainCache ?g)), nearCache := near_dropped (epoch_at C b) key ?g, keyStates := ks, stateHeap := h\<rparr>) w)\<lparr>clk := clk w\<rparr>)"
    unfolding server_Delete_def Request.select_convs .
  moreover have "(put_group I b x w)\<lparr>clk := clk w\<rparr> = put_group I b x w" for x by (simp add: put_group_def)
  ultimately show thesis by (intro that) simp
qed

text \<open>What an invalidation does to the group of node \<open>b\<close>.\<close>

definition dropped :: "setting \<Rightarrow> string \<Rightarrow> string \<Rightarrow> Group \<Rightarrow> Group \<Rightarrow> bool" where
  "dropped C key b g g' \<longleftrightarrow> (\<exists>ks h. g' = g\<lparr>mainCache := snd (Cache_Delete key (mainCache g)),
     nearCache := near_dropped (epoch_at C b) key g, keyStates := ks, stateHeap := h\<rparr>)"

lemma invalidate_call:
  assumes "found name I w b" "healthy C name (grp_at I w b)" "c_addr c = b"
  shows "\<exists>g'. Client_Invalidate (code_of C) (stub_of C c) now c None name key w = (None, put_group I b g' w) \<and>
    dropped C key b (grp_at I w b) g'"
proof -
  let ?ctx = "AppendToOutgoingContext (callContext now c None) peerInvalidationMetadataKey ''1''"
  have "peerInvalidationMetadataKey \<in> fst ` set (ctx_metadata ?ctx)" by (simp add: AppendToOutgoingContext_def)
  from served_delete [OF assms(1,2) this, of key "[]"] obtain r ks h where
    "served C b (server_Delete (node_lenv C b) ?ctx \<lparr>r_group = name, r_key = key, r_value = []\<rparr>) w =
     (Inr r, put_group I b ((grp_at I w b)\<lparr>mainCache := snd (Cache_Delete key (mainCache (grp_at I w b))),
       nearCache := near_dropped (epoch_at C b) key (grp_at I w b), keyStates := ks, stateHeap := h\<rparr>) w)" by metis
  then show ?thesis
    unfolding dropped_def by (auto simp: Client_Invalidate_def stub_of_def Let_def assms(3))
qed

lemma invalidateAll_effect:
  assumes "distinct (map fst cs)" "\<forall>e\<in>set cs. c_addr (snd e) = fst e \<and> found name I w (fst e) \<and> healthy C name (grp_at I w (fst e))"
  shows "\<exists>w'. invalidateAll (\<lambda>c. Client_Invalidate (code_of C) (stub_of C c) now c None name key) cs w = ([], w') \<and>
    (\<forall>b. found name I w' b = found name I w b) \<and>
    (\<forall>b. if b \<in> fst ` set cs then dropped C key b (grp_at I w b) (grp_at I w' b) else regs w' b = regs w b)"
  using assms
proof (induction cs arbitrary: w)
  case (Cons e cs)
  obtain m c where e: "e = (m, c)" by fastforce
  have m: "c_addr c = m" "found name I w m" "healthy C name (grp_at I w m)" and new: "m \<notin> fst ` set cs" using Cons.prems e by auto
  obtain g' where g': "Client_Invalidate (code_of C) (stub_of C c) now c None name key w = (None, put_group I m g' w)"
    "dropped C key m (grp_at I w m) g'" using invalidate_call [OF m(2,3,1)] by blast
  let ?w = "put_group I m g' w"
  have same: "grp_at I ?w b = grp_at I w b" "regs ?w b = regs w b" if "b \<noteq> m" for b using that grp_at_put [OF m(2)] by simp_all
  have "\<forall>e\<in>set cs. c_addr (snd e) = fst e \<and> found name I ?w (fst e) \<and> healthy C name (grp_at I ?w (fst e))"
  proof
    fix e' assume "e' \<in> set cs"
    with new Cons.prems(2) show "c_addr (snd e') = fst e' \<and> found name I ?w (fst e') \<and> healthy C name (grp_at I ?w (fst e'))"
      using same(1) [of "fst e'"] by (cases "fst e' = m") auto
  qed
  with Cons.IH [of ?w] Cons.prems(1) obtain w' where
    w': "invalidateAll (\<lambda>c. Client_Invalidate (code_of C) (stub_of C c) now c None name key) cs ?w = ([], w')"
      "\<forall>b. found name I w' b = found name I ?w b"
      "\<And>b. if b \<in> fst ` set cs then dropped C key b (grp_at I ?w b) (grp_at I w' b) else regs w' b = regs ?w b" by auto
  have "if b \<in> fst ` set (e # cs) then dropped C key b (grp_at I w b) (grp_at I w' b) else regs w' b = regs w b" for b
    using w'(3) [of b] new same [of b] g'(2) grp_at_put [OF m(2), of g' b] by (cases "b = m"; cases "b \<in> fst ` set cs") (simp_all add: e)
  with w'(1,2) g'(1) show ?case by (intro exI [of _ w']) (simp add: e)
qed simp

lemma setLocal_regs:
  "regs (snd (snd (setLocal (node_lenv C b) key v (g, w)))) = regs w"
  "regs (snd (snd (setLocal (node_env C b) key v (g, w)))) = regs w"
  by (simp_all add: setLocal_def prepareLocalOwner_def addOwnerValue_def add_for_def invalidateNearKey_def node_lenv_def
      node_env_def Let_def case_prod_beta)

section \<open>At the owner\<close>

text \<open>The group of the owner has \<open>v\<close> for the key, in its present epoch.\<close>

definition authoritative :: "setting \<Rightarrow> string \<Rightarrow> string \<Rightarrow> string \<Rightarrow> bytes \<Rightarrow> Group \<Rightarrow> bool" where
  "authoritative C name b key v g \<longleftrightarrow> healthy C name g \<and> ownerEpoch g = epoch_at C b \<and>
     (\<forall>n. cache_view (mainCache g) (tm C n) key = Some v)"

abbreviation owned_by :: "setting \<Rightarrow> string \<Rightarrow> string \<Rightarrow> bool" where
  "owned_by C key b \<equiv> b \<noteq> [] \<and> PickOwner key (pickers C b) = (b, NilPeer, True, epoch_at C b, True)"

lemma node_owns:
  assumes "owned_by C key b" "g_peers g"
  shows "owns (node_lenv C b) key (epoch_at C b) g" "owns (node_env C b) key (epoch_at C b) g"
  using assms by (simp_all add: owns_def)

lemma near_dropped_inv: "cache_inv (nearCache g) \<Longrightarrow> cache_inv (near_dropped e key g)"
  by (simp add: near_dropped_def cache_inv_ops)

text \<open>Readings of the cluster's clock.\<close>

abbreviation clocked :: "setting \<Rightarrow> (cluster, 'm) lenv_scheme \<Rightarrow> bool" where
  "clocked C env \<equiv> \<forall>w. e_now env w = (tm C (clk w), w\<lparr>clk := clk w + 1\<rparr>)"

lemma node_clocked: "clocked C (node_lenv C b)" "clocked C (node_env C b)"
  by (simp_all add: node_lenv_def node_env_def)

lemma within_ttl_lives:
  assumes "clocked C env" "within_ttl C (expiration g)"
  shows "prompt env g" "outlives env g (range (tm C))"
proof -
  show "prompt env g" using assms by (auto simp: prompt_def within_ttl_def)
  show "outlives env g (range (tm C))"
  proof (cases "0 < expiration g")
    case True
    with assms(2) have m: "mono (tm C)" and d: "\<And>m n. tm C m < tm C n + expiration g" by (auto simp: within_ttl_def)
    have "tm C x < tm C (Suc (Suc n)) + (tm C n + expiration g - tm C (Suc n))" for x n
      using d [of x n] monoD [OF m, of "Suc n" "Suc (Suc n)"] by simp
    with assms(1) show ?thesis by (auto simp: outlives_def)
  qed (simp add: outlives_def)
qed

lemma setLocal_authoritative:
  assumes "owns env key (epoch_at C b) g" "healthy C name g" "cache_room (mainCache g) key v" "clocked C env"
  obtains g' w' where "setLocal env key v (g, w) = (None, g', w')" "authoritative C name b key v g'"
proof -
  have g: "\<not> g_closed g" "cache_inv (mainCache g)" "g_peers g" "within_ttl C (expiration g)" "cache_inv (nearCache g)" "g_name g = name"
    using assms(2) by (simp_all add: healthy_def)
  note live = within_ttl_lives [OF assms(4) g(4)]
  obtain c ks h w' where s: "setLocal env key v (g, w) =
      (None, (claim (epoch_at C b) g)\<lparr>mainCache := c, nearCache := near_dropped (epoch_at C b) key g, keyStates := ks, stateHeap := h\<rparr>, w')"
    "cache_inv c" "\<And>X. outlives env g X \<Longrightarrow> cache_room (mainCache g) key v \<Longrightarrow> \<forall>t\<in>X. cache_view c t key = Some v"
    by (rule setLocal_effect [OF g(1) assms(1) g(2) live(1), of v w]) (rule that)
  have "cache_view c (tm C n) key = Some v" for n using s(3) [OF live(2) assms(3)] by simp
  then show thesis
    by (intro that [OF s(1)]) (use s(2) g in \<open>simp add: authoritative_def healthy_def near_dropped_inv\<close>)
qed

lemma getLocal_authoritative:
  assumes "owns env key (epoch_at C b) g" "authoritative C name b key v g" "clocked C env"
  obtains g' where "getLocal env key (g, w) = (Ok v, g', snd (e_now env w))" "healthy C name g'"
proof -
  have g: "\<not> g_closed g" "g_peers g \<longrightarrow> ownerEpoch g = epoch_at C b" "cache_inv (mainCache g)"
    "cache_view (mainCache g) (fst (e_now env w)) key = Some v"
    using assms(2,3) by (simp_all add: authoritative_def healthy_def)
  show thesis
    by (rule getLocal_hit [OF g(1) assms(1) g(2-4)], rule that)
      (use assms(2) in \<open>auto simp: authoritative_def healthy_def\<close>)
qed

lemma served_set:
  assumes "found name I w b" "healthy C name (grp_at I w b)" "owned_by C key b" "cache_room (mainCache (grp_at I w b)) key v"
  obtains g' n where "served C b (server_Set (node_lenv C b) \<lparr>r_group = name, r_key = key, r_value = v\<rparr>) w =
      (Inr v, (put_group I b g' w)\<lparr>clk := n\<rparr>)" "authoritative C name b key v g'"
proof -
  let ?g = "grp_at I w b"
  have own: "owns (node_lenv C b) key (epoch_at C b) ?g" using assms(2,3) by (intro node_owns) (simp_all add: healthy_def)
  obtain g' w' where s: "setLocal (node_lenv C b) key v (?g, w) = (None, g', w')" "authoritative C name b key v g'"
    by (rule setLocal_authoritative [OF own assms(2,4) node_clocked(1), of w]) (rule that)
  have "regs w' = regs w" using setLocal_regs(1) [of C b key v ?g w] s(1) by simp
  with s(1) have "served C b (on_group name (\<lambda>s. case setLocal (node_lenv C b) key v s of
        (Some err, s) \<Rightarrow> (Err (the (mapGroupError (Some err))), s)
      | (None, s) \<Rightarrow> (Ok v, s))) w = (deliver C (Ok v), (put_group I b g' w)\<lparr>clk := clk w'\<rparr>)"
    by (intro served_on_group [OF assms(1)]) simp_all
  then have "served C b (server_Set (node_lenv C b) \<lparr>r_group = name, r_key = key, r_value = v\<rparr>) w =
      (deliver C (Ok v), (put_group I b g' w)\<lparr>clk := clk w'\<rparr>)"
    unfolding server_Set_def Request.select_convs .
  then show thesis by (intro that [OF _ s(2)]) simp
qed

lemma served_get:
  assumes "found name I w b" "authoritative C name b key v (grp_at I w b)" "owned_by C key b"
  obtains g' n where "served C b (server_Get (node_lenv C b) \<lparr>r_group = name, r_key = key, r_value = []\<rparr>) w =
      (Inr v, (put_group I b g' w)\<lparr>clk := n\<rparr>)" "healthy C name g'"
proof -
  let ?g = "grp_at I w b"
  have own: "owns (node_lenv C b) key (epoch_at C b) ?g"
    using assms(2,3) by (intro node_owns) (simp_all add: authoritative_def healthy_def)
  obtain g' where s: "getLocal (node_lenv C b) key (?g, w) = (Ok v, g', w\<lparr>clk := clk w + 1\<rparr>)" "healthy C name g'"
    using getLocal_authoritative [OF own assms(2) node_clocked(1), of w] by (metis node_lenv_simps(3))
  then have "served C b (on_group name (\<lambda>s. case getLocal (node_lenv C b) key s of
        (Err err, s) \<Rightarrow> (Err (the (mapGroupError (Some err))), s)
      | (r, s) \<Rightarrow> (r, s))) w = (deliver C (Ok v), (put_group I b g' w)\<lparr>clk := clk w + 1\<rparr>)"
    using served_on_group [OF assms(1), of _ "Ok v" g' "w\<lparr>clk := clk w + 1\<rparr>"] by simp
  then have "served C b (server_Get (node_lenv C b) \<lparr>r_group = name, r_key = key, r_value = []\<rparr>) w =
      (deliver C (Ok v), (put_group I b g' w)\<lparr>clk := clk w + 1\<rparr>)"
    unfolding server_Get_def Request.select_convs .
  then show thesis by (intro that [OF _ s(2)]) simp
qed

section \<open>At the other nodes\<close>

text \<open>The near cache of a node that does not own the key has \<open>v\<close> for it or nothing.\<close>

definition near_ok :: "setting \<Rightarrow> string \<Rightarrow> string \<Rightarrow> string \<Rightarrow> bytes \<Rightarrow> Group \<Rightarrow> bool" where
  "near_ok C name b key v g \<longleftrightarrow> healthy C name g \<and>
     (\<forall>t. cache_view (nearCache g) t (nearKey (epoch_at C b) key) \<in> {None, Some v})"

abbreviation routed :: "setting \<Rightarrow> string \<Rightarrow> string \<Rightarrow> Client \<Rightarrow> string \<Rightarrow> bool" where
  "routed C key owner c b \<equiv> owner \<noteq> [] \<and> c_addr c = owner \<and> PickOwner key (pickers C b) = (owner, ClientPeer (Some c), False, epoch_at C b, True)"

lemma near_lookup_ok:
  assumes "near_ok C name a key v g" "routed C key owner c a"
  obtains r g' n where "near_lookup (node_env C a) key owner (epoch_at C a) (g, w) = (r, g', w\<lparr>clk := n\<rparr>)"
    "r \<in> {None, Some v}" "g_name g' = name"
proof (cases "nearCache g = None")
  case True
  then show thesis using assms(1) by (intro that [of None g "clk w"]) (simp_all add: near_lookup_def near_ok_def healthy_def)
next
  case False
  have inv: "cache_inv (nearCache g)" and name: "g_name g = name" using assms(1) by (simp_all add: near_ok_def healthy_def)
  let ?k = "nearKey (epoch_at C a) key"
  obtain t c' w' where n: "near_Get (node_env C a) ?k (g, w) = (cache_view (nearCache g) t ?k, g\<lparr>nearCache := c'\<rparr>, w')"
    "w' = snd (e_now (node_env C a) w)"
    by (rule near_Get_effect [OF inv, of "node_env C a" ?k w]) (rule that)
  have "cache_view (nearCache g) t ?k \<in> {None, Some v}" using assms(1) by (simp add: near_ok_def)
  then show thesis
  proof
    assume "cache_view (nearCache g) t ?k = None"
    with n False name show thesis 
      by (intro that [of None "g\<lparr>nearCache := c', g_stats := (g_stats g)\<lparr>nearMisses := nearMisses (g_stats g) + 1\<rparr>\<rparr>" "clk w + 1"])
        (simp_all add: near_lookup_def del: not_None_eq)
  next
    assume "cache_view (nearCache g) t ?k \<in> {Some v}"
    with n False name assms(2) show thesis 
      by (intro that [of "Some v" "g\<lparr>nearCache := c', g_stats := (g_stats g)\<lparr>nearHits := nearHits (g_stats g) + 1\<rparr>\<rparr>" "clk w + 1"])
        (simp_all add: near_lookup_def del: not_None_eq)
  qed
qed

lemma peer_Get_ok:
  assumes "found name I w owner" "authoritative C name owner key v (grp_at I w owner)" "owned_by C key owner" "c_addr c = owner"
  obtains w' where "e_peer_Get (node_env C a) c name key (g, w) = (Inr v, g, w')"
proof -
  obtain g' n where "served C owner (server_Get (node_lenv C owner) \<lparr>r_group = name, r_key = key, r_value = []\<rparr>) w =
      (Inr v, (put_group I owner g' w)\<lparr>clk := n\<rparr>)"
    by (rule served_get [OF assms(1-3)]) (rule that)
  then show thesis using assms(4) by (intro that) (simp add: node_env_def Client_Get_def stub_of_def Let_def)
qed

lemma peer_Set_ok:
  assumes "found name I w owner" "healthy C name (grp_at I w owner)" "owned_by C key owner"
    "cache_room (mainCache (grp_at I w owner)) key v" "c_addr c = owner"
  obtains g' n where "e_peer_Set (node_env C a) c name key v (g, w) = (None, g, (put_group I owner g' w)\<lparr>clk := n\<rparr>)"
    "authoritative C name owner key v g'"
proof -
  obtain g' n where s: "served C owner (server_Set (node_lenv C owner) \<lparr>r_group = name, r_key = key, r_value = v\<rparr>) w =
      (Inr v, (put_group I owner g' w)\<lparr>clk := n\<rparr>)" "authoritative C name owner key v g'"
    by (rule served_set [OF assms(1-4)]) (rule that)
  then show thesis using assms(5) by (intro that [OF _ s(2)]) (simp add: node_env_def Client_Set_def stub_of_def Let_def)
qed

lemma dropped_near_ok:
  assumes "healthy C name g" "dropped C key b g g'"
  shows "near_ok C name b key v g'"
  using assms by (auto simp: near_ok_def healthy_def dropped_def near_dropped_def cache_inv_ops view_Delete)

lemma settled_clients:
  assumes "settled C M" "a \<in> M"
  shows "distinct (map fst (p_clients (pickers C a)))" "\<forall>e\<in>set (p_clients (pickers C a)). c_addr (snd e) = fst e"
    "fst ` set (p_clients (pickers C a)) = M - {a}"
proof -
  obtain n where n: "picker_reachable (pickers C a) n" and m: "set (p_members (pickers C a)) = M" "selfAddr (pickers C a) = a"
    "M - {a} \<subseteq> dom (gm_get (p_clients (pickers C a)))"
    using assms unfolding settled_def by blast
  then have inv: "filed (p_clients (pickers C a))" "fst ` set (p_clients (pickers C a)) \<subseteq> M - {a}"
    using picker_reachable_picker_inv [OF n] by (simp_all add: picker_inv_def)
  then show "distinct (map fst (p_clients (pickers C a)))" "\<forall>e\<in>set (p_clients (pickers C a)). c_addr (snd e) = fst e"
    by (simp_all add: filed_def)
  show "fst ` set (p_clients (pickers C a)) = M - {a}"
    using inv(2) m(3) by (simp add: dom_map_of_conv_image_fst subset_antisym)
qed

lemma Invalidate_effect:
  assumes "settled C M" "a \<in> M" "\<forall>b\<in>M - {a, owner}. found name I w b \<and> healthy C name (grp_at I w b)"
  obtains w' where "e_Invalidate (node_env C a) name key owner (g, w) = (None, g, w')"
    "\<And>b. found name I w' b = found name I w b"
    "\<And>b. b \<in> M - {a, owner} \<Longrightarrow> dropped C key b (grp_at I w b) (grp_at I w' b)"
    "\<And>b. b \<in> {a, owner} \<Longrightarrow> regs w' b = regs w b"
proof -
  let ?cs = "filter (\<lambda>e. fst e \<noteq> owner) (p_clients (pickers C a))"
  note cl = settled_clients [OF assms(1,2)]
  have addrs: "fst ` set ?cs = M - {a, owner}" using cl(3) by auto
  have d: "distinct (map fst ?cs)" using cl(1) by (rule distinct_map_filter)
  have "\<forall>e\<in>set ?cs. c_addr (snd e) = fst e \<and> found name I w (fst e) \<and> healthy C name (grp_at I w (fst e))"
    using cl(2) addrs assms(3) by (metis (no_types, lifting) filter_is_subset image_eqI subsetD)
  from invalidateAll_effect [OF d this, of "tm C (clk w)" key] obtain w' where
    w': "invalidateAll (\<lambda>c. Client_Invalidate (code_of C) (stub_of C c) (tm C (clk w)) c None name key) ?cs w = ([], w')"
      "\<forall>b. found name I w' b = found name I w b"
      "\<forall>b. if b \<in> fst ` set ?cs then dropped C key b (grp_at I w b) (grp_at I w' b) else regs w' b = regs w b" by blast
  have "e_Invalidate (node_env C a) name key owner (g, w) = (None, g, w')"
    by (simp add: node_env_def Picker_Invalidate_def w'(1) errors_Join_def)
  then show thesis
    by (rule that) (use w'(2,3) addrs in \<open>auto split: if_splits\<close>)
qed

section \<open>A written value is read everywhere\<close>

definition node_fresh :: "setting \<Rightarrow> string \<Rightarrow> string \<Rightarrow> string \<Rightarrow> bytes \<Rightarrow> string \<Rightarrow> Group \<Rightarrow> bool" where
  "node_fresh C name owner key v b g \<longleftrightarrow> (if b = owner then authoritative C name b key v g else near_ok C name b key v g)"

definition fresh :: "setting \<Rightarrow> string \<Rightarrow> (string \<Rightarrow> nat) \<Rightarrow> string set \<Rightarrow> string \<Rightarrow> string \<Rightarrow> bytes \<Rightarrow> cluster \<Rightarrow> bool" where
  "fresh C name I M owner key v w \<longleftrightarrow> (\<forall>b\<in>M. found name I w b \<and> node_fresh C name owner key v b (grp_at I w b))"

lemma cluster_Get_fresh:
  assumes "fresh C name I M owner key v w" "owner \<in> M" "a \<in> M" "key \<noteq> []" "owned_by C key owner"
    "a \<noteq> owner \<Longrightarrow> \<exists>c. routed C key owner c a"
  shows "fst (at_node a (I a) (Get (node_env C a) key) w) = Ok v"
proof -
  let ?g = "grp_at I w a"
  have a: "found name I w a" "node_fresh C name owner key v a ?g" and o': "found name I w owner" "authoritative C name owner key v (grp_at I w owner)"
    using assms(1-3) by (auto simp: fresh_def node_fresh_def split: if_splits)
  have g: "healthy C name ?g" using a(2) by (auto simp: node_fresh_def authoritative_def near_ok_def split: if_splits)
  have loop: "fst (Get_loop (node_env C a) key (Suc left) (?g, w)) = Ok v" for left
  proof (cases "a = owner")
    case True
    have own: "owns (node_env C owner) key (epoch_at C owner) ?g" using assms(5) g by (intro node_owns) (simp_all add: healthy_def)
    have "fst (getLocal (node_env C owner) key (?g, w)) = Ok v"
      by (rule getLocal_authoritative [OF own _ node_clocked(2), of name v w]) (use o'(2) True in simp_all)
    then show ?thesis using True assms(5) by (auto split: prod.splits result.splits)
  next
    case False
    then obtain c where c: "routed C key owner c a" using assms(6) by blast
    obtain r g' n where n: "near_lookup (node_env C a) key owner (epoch_at C a) (?g, w) = (r, g', w\<lparr>clk := n\<rparr>)"
      "r \<in> {None, Some v}" "g_name g' = name"
      by (rule near_lookup_ok [OF _ c, of name v ?g w]) (use a(2) False in \<open>simp add: node_fresh_def\<close>, rule that)
    have "found name I (w\<lparr>clk := n\<rparr>) owner" "authoritative C name owner key v (grp_at I (w\<lparr>clk := n\<rparr>) owner)"
      using o' by simp_all
    then obtain w' where "e_peer_Get (node_env C a) c name key (g', w\<lparr>clk := n\<rparr>) = (Inr v, g', w')"
      using peer_Get_ok [of name I "w\<lparr>clk := n\<rparr>" owner C key v c a g'] assms(5) c by metis
    with n c show ?thesis by (auto simp: Let_def)
  qed
  have "fst (Get (node_env C a) key (?g, w)) = Ok v"
    using loop [of 3] g assms(4) by (simp add: Get_def healthy_def)
  then show ?thesis by (auto simp: at_node_def split: prod.splits)
qed

text \<open>The invalidations that follow a mutation, on the node itself and on the others.\<close>

lemma invalidate_copies:
  assumes "settled C M" "a \<in> M" "\<forall>b\<in>M - {a, owner}. found name I w b \<and> healthy C name (grp_at I w b)"
    "healthy C name g" "if a = owner then owned_by C key a else \<exists>c. routed C key owner c a"
  obtains w' where "invalidatePeerCopies (node_env C a) key owner (invalidateLocalCopies (node_env C a) key (g, w)) =
      (g\<lparr>mainCache := (if a = owner then mainCache g else snd (Cache_Delete key (mainCache g))),
         nearCache := near_dropped (epoch_at C a) key g\<rparr>, w')"
    "\<And>b. found name I w' b = found name I w b"
    "\<And>b. b \<in> M - {a, owner} \<Longrightarrow> dropped C key b (grp_at I w b) (grp_at I w' b)"
    "\<And>b. b \<in> {a, owner} \<Longrightarrow> regs w' b = regs w b"
proof -
  let ?g2 = "g\<lparr>mainCache := (if a = owner then mainCache g else snd (Cache_Delete key (mainCache g))),
    nearCache := near_dropped (epoch_at C a) key g\<rparr>"
  have "invalidateNearKey (node_env C a) key (x, w) = (x\<lparr>nearCache := near_dropped (epoch_at C a) key x\<rparr>, w)" for x
    by (rule invalidateNearKey_eq) simp
  then have local: "invalidateLocalCopies (node_env C a) key (g, w) = (?g2, w)"
    using assms(4,5) by (auto simp: invalidateLocalCopies_def healthy_def near_dropped_def Let_def split: if_splits)
  obtain w' where inv: "e_Invalidate (node_env C a) name key owner (?g2, w) = (None, ?g2, w')"
    "\<And>b. found name I w' b = found name I w b" "\<And>b. b \<in> M - {a, owner} \<Longrightarrow> dropped C key b (grp_at I w b) (grp_at I w' b)"
    "\<And>b. b \<in> {a, owner} \<Longrightarrow> regs w' b = regs w b"
    by (rule Invalidate_effect [OF assms(1-3)]) (rule that)
  have "invalidatePeerCopies (node_env C a) key owner (?g2, w) = (?g2, w')"
    using assms(4) inv(1) by (simp add: invalidatePeerCopies_def healthy_def)
  with local show thesis by (intro that [OF _ inv(2-4)]) simp
qed

lemma Set_finish_fresh:
  assumes "settled C M" "a \<in> M" "\<forall>b\<in>M - {a, owner}. found name I w b \<and> healthy C name (grp_at I w b)"
    "if a = owner then authoritative C name a key v g else healthy C name g" "owner \<noteq> []"
    "if a = owner then owned_by C key a else \<exists>c. routed C key owner c a"
  obtains g' w' n where "Set_finish (node_env C a) key v owner (epoch_at C a) (g, w) = (g', w'\<lparr>clk := n\<rparr>)"
    "node_fresh C name owner key v a g'" "\<And>b. found name I w' b = found name I w b"
    "\<And>b. b \<in> M - {a, owner} \<Longrightarrow> near_ok C name b key v (grp_at I w' b)"
    "\<And>b. b \<in> {a, owner} \<Longrightarrow> regs w' b = regs w b"
proof -
  let ?g1 = "g\<lparr>g_stats := (g_stats g)\<lparr>sets := sets (g_stats g) + 1\<rparr>\<rparr>"
  let ?g2 = "?g1\<lparr>mainCache := (if a = owner then mainCache ?g1 else snd (Cache_Delete key (mainCache ?g1))),
    nearCache := near_dropped (epoch_at C a) key ?g1\<rparr>"
  have h: "healthy C name g" using assms(4) by (auto simp: authoritative_def split: if_splits)
  then have h1: "healthy C name ?g1" by (simp add: healthy_def)
  obtain w' where inv: "invalidatePeerCopies (node_env C a) key owner (invalidateLocalCopies (node_env C a) key (?g1, w)) = (?g2, w')"
    "\<And>b. found name I w' b = found name I w b" "\<And>b. b \<in> M - {a, owner} \<Longrightarrow> dropped C key b (grp_at I w b) (grp_at I w' b)"
    "\<And>b. b \<in> {a, owner} \<Longrightarrow> regs w' b = regs w b"
    by (rule invalidate_copies [OF assms(1-3) h1 assms(6)]) (rule that)
  have others: "near_ok C name b key v (grp_at I w' b)" if "b \<in> M - {a, owner}" for b
    using assms(3) that inv(3) [OF that] by (intro dropped_near_ok) auto
  have h2: "healthy C name ?g2" using h by (simp add: healthy_def cache_inv_ops near_dropped_inv)
  have none: "cache_view (nearCache ?g2) t (nearKey (epoch_at C a) key) = None" for t
    using h by (simp add: healthy_def near_dropped_def view_Delete)
  show thesis
  proof (cases "a \<noteq> owner \<and> nearCache ?g2 \<noteq> None")
    case False
    have "Set_finish (node_env C a) key v owner (epoch_at C a) (g, w) = (?g2, w'\<lparr>clk := clk w'\<rparr>)"
      using False assms(5,6) h inv(1) by (auto simp: Set_finish_def Let_def healthy_def split: if_splits)
    moreover have "node_fresh C name owner key v a ?g2"
      using assms(4) h2 none by (auto simp: node_fresh_def authoritative_def near_ok_def split: if_splits)
    ultimately show thesis by (rule that [OF _ _ inv(2) others inv(4)])
  next
    case True
    obtain c w'' where c: "add_near (node_env C a) (nearKey (epoch_at C a) key) v (?g2, w') = (?g2\<lparr>nearCache := c\<rparr>, w'')"
      "cache_inv c" "\<And>t. cache_view c t (nearKey (epoch_at C a) key) \<in> {None, Some v, cache_view (nearCache ?g2) t (nearKey (epoch_at C a) key)}"
      "w'' = ((\<lambda>w. snd (e_now (node_env C a) w)) ^^ 4) w'"
      by (rule add_near_effect [of ?g2 "node_env C a" "nearKey (epoch_at C a) key" v w']) (use h2 in \<open>simp add: healthy_def\<close>, rule that)
    have "w'' = w'\<lparr>clk := clk w' + 4\<rparr>" by (simp add: c(4) eval_nat_numeral)
    moreover have "Set_finish (node_env C a) key v owner (epoch_at C a) (g, w) = (?g2\<lparr>nearCache := c\<rparr>, w'')"
      using True assms(5,6) h inv(1) c(1) by (auto simp: Set_finish_def Let_def healthy_def)
    moreover have "cache_view c t (nearKey (epoch_at C a) key) \<in> {None, Some v}" for t using c(3) [of t] none [of t] by auto
    then have "node_fresh C name owner key v a (?g2\<lparr>nearCache := c\<rparr>)"
      using True h2 c(2) by (simp add: node_fresh_def near_ok_def healthy_def)
    ultimately show thesis using that [OF _ _ inv(2) others inv(4)] by metis
  qed
qed

text \<open>The loop of \<^verbatim>\<open>Set\<close> ends at its first attempt with the value at the owner.\<close>

lemma Set_loop_settled:
  assumes "found name I w a" "healthy C name (grp_at I w a)" "found name I w owner" "healthy C name (grp_at I w owner)"
    "owned_by C key owner" "a \<noteq> owner \<Longrightarrow> \<exists>c. routed C key owner c a" "cache_room (mainCache (grp_at I w owner)) key v"
  obtains g w' n where "Set_loop (node_env C a) key v (Suc left) [] 0 (grp_at I w a, w) = (Past owner (epoch_at C a), g, w'\<lparr>clk := n\<rparr>)"
    "if a = owner then authoritative C name a key v g \<and> w' = w
     else g = grp_at I w a \<and> (\<exists>g'. w' = put_group I owner g' w \<and> authoritative C name owner key v g')"
proof (cases "a = owner")
  case True
  let ?g = "grp_at I w a"
  have own: "owns (node_env C a) key (epoch_at C a) ?g" using assms(2,5) True by (intro node_owns) (simp_all add: healthy_def)
  obtain g' w' where s: "setLocal (node_env C a) key v (?g, w) = (None, g', w')" "authoritative C name a key v g'"
    by (rule setLocal_authoritative [OF own assms(2) _ node_clocked(2), of v w]) (use assms(7) True in simp, rule that)
  have "regs w' = regs w" using setLocal_regs(2) [of C a key v ?g w] s(1) by simp
  then have w': "w' = w\<lparr>clk := clk w'\<rparr>" by simp
  have "g_peers ?g" using assms(2) by (simp add: healthy_def)
  with s(1) assms(5) True have "Set_loop (node_env C a) key v (Suc left) [] 0 (?g, w) = (Past owner (epoch_at C a), g', w')"
    by (simp add: stable_def)
  with w' show thesis by (intro that [where g = g' and w' = w and n = "clk w'"]) (use s(2) True in simp_all)
next
  case False
  let ?g = "grp_at I w a"
  obtain c where c: "routed C key owner c a" using assms(6) False by blast
  obtain g' n where s: "e_peer_Set (node_env C a) c name key v (?g, w) = (None, ?g, (put_group I owner g' w)\<lparr>clk := n\<rparr>)"
    "authoritative C name owner key v g'"
    by (rule peer_Set_ok [OF assms(3-5,7), of c a ?g]) (use c in simp, rule that)
  have "g_peers ?g" "g_name ?g = name" using assms(2) by (simp_all add: healthy_def)
  with s(1) c have "Set_loop (node_env C a) key v (Suc left) [] 0 (?g, w) =
      (Past owner (epoch_at C a), ?g, (put_group I owner g' w)\<lparr>clk := n\<rparr>)" by (auto simp: stable_def)
  then show thesis by (intro that) (use s(2) False in auto)
qed

text \<open>A fact about every node, from the node that runs the operation, the owner and the others.\<close>

lemma every_node:
  assumes "\<forall>b\<in>M. found name I w b" "a \<in> M" "P a g" "a \<noteq> owner \<Longrightarrow> P owner (grp_at I w owner)"
    "\<And>b. b \<in> M - {a, owner} \<Longrightarrow> P b (grp_at I w b)"
  shows "\<forall>b\<in>M. found name I (put_group I a g w) b \<and> P b (grp_at I (put_group I a g w) b)"
proof
  fix b assume b: "b \<in> M"
  consider "b = a" | "b \<noteq> a" "b = owner" | "b \<in> M - {a, owner}" using b by blast
  then have "P b (if b = a then g else grp_at I w b)"
  proof cases
    case 1
    then show ?thesis using assms(3) by simp
  next
    case 2
    then show ?thesis using assms(4) by auto
  next
    case 3
    then show ?thesis using assms(5) [OF 3] by simp
  qed
  moreover have "found name I w a" using assms(1,2) by blast
  ultimately show "found name I (put_group I a g w) b \<and> P b (grp_at I (put_group I a g w) b)"
    using assms(1) b grp_at_put [of name I w a g b] by simp
qed

lemma cluster_Set_fresh:
  assumes "settled C M" "owner \<in> M" "a \<in> M" "key \<noteq> []" "v \<noteq> []" "owned_by C key owner"
    "a \<noteq> owner \<Longrightarrow> \<exists>c. routed C key owner c a"
    "\<forall>b\<in>M. found name I w b \<and> healthy C name (grp_at I w b)" "cache_room (mainCache (grp_at I w owner)) key v"
  shows "\<exists>w'. at_node a (I a) (Set (node_env C a) key v) w = (Ok (), w') \<and> fresh C name I M owner key v w'"
proof -
  have a: "found name I w a" "healthy C name (grp_at I w a)" and o': "found name I w owner" "healthy C name (grp_at I w owner)"
    using assms(2,3,8) by auto
  obtain g w1 n where L: "Set_loop (node_env C a) key v (Suc 3) [] 0 (grp_at I w a, w) = (Past owner (epoch_at C a), g, w1\<lparr>clk := n\<rparr>)"
    "if a = owner then authoritative C name a key v g \<and> w1 = w
     else g = grp_at I w a \<and> (\<exists>g'. w1 = put_group I owner g' w \<and> authoritative C name owner key v g')"
    by (rule Set_loop_settled [OF a o' assms(6,7,9)]) (assumption, rule that)
  have f1: "found name I w1 b = found name I w b" "b \<noteq> owner \<Longrightarrow> regs w1 b = regs w b" for b
    using L(2) by (auto split: if_splits)
  have o1: "a \<noteq> owner \<Longrightarrow> authoritative C name owner key v (grp_at I w1 owner)"
    using L(2) grp_at_put [OF o'(1)] by (auto split: if_splits)
  have pre: "\<forall>b\<in>M - {a, owner}. found name I (w1\<lparr>clk := n\<rparr>) b \<and> healthy C name (grp_at I (w1\<lparr>clk := n\<rparr>) b)"
    using assms(8) f1 by auto
  have mine: "if a = owner then authoritative C name a key v g else healthy C name g" using L(2) a(2) by (auto split: if_splits)
  have route: "if a = owner then owned_by C key a else \<exists>c. routed C key owner c a" using assms(6,7) by auto
  obtain g' w2 m where F: "Set_finish (node_env C a) key v owner (epoch_at C a) (g, w1\<lparr>clk := n\<rparr>) = (g', w2\<lparr>clk := m\<rparr>)"
    "node_fresh C name owner key v a g'" "\<And>b. found name I w2 b = found name I (w1\<lparr>clk := n\<rparr>) b"
    "\<And>b. b \<in> M - {a, owner} \<Longrightarrow> near_ok C name b key v (grp_at I w2 b)"
    "\<And>b. b \<in> {a, owner} \<Longrightarrow> regs w2 b = regs (w1\<lparr>clk := n\<rparr>) b"
    by (rule Set_finish_fresh [OF assms(1,3) pre mine _ route]) (use assms(6) in simp, rule that)
  have four: "(4 :: nat) = Suc 3" by simp
  have S: "Set (node_env C a) key v (grp_at I w a, w) = (Ok (), g', w2\<lparr>clk := m\<rparr>)"
    using a(2) assms(4,5) L(1) F(1) unfolding Set_def four by (simp add: healthy_def del: Set_loop.simps)
  let ?w = "put_group I a g' (w2\<lparr>clk := m\<rparr>)"
  have at: "at_node a (I a) (Set (node_env C a) key v) w = (Ok (), ?w)" by (simp add: at_node_def S put_group_def)
  have "\<forall>b\<in>M. found name I ?w b \<and> node_fresh C name owner key v b (grp_at I ?w b)"
    by (rule every_node [where P = "node_fresh C name owner key v" and owner = owner])
      (use assms(3,8) f1(1) F o1 in \<open>auto simp: node_fresh_def\<close>)
  then have "fresh C name I M owner key v ?w" unfolding fresh_def .
  with at show ?thesis by blast
qed

lemma read_after_write:
  assumes "settled C M" "a \<in> M" "c \<in> M" "key \<noteq> []" "v \<noteq> []"
    "\<And>b. b \<in> M \<Longrightarrow> found name I w b \<and> healthy C name (grp_at I w b) \<and> cache_room (mainCache (grp_at I w b)) key v"
  shows "\<exists>w'. at_node a (I a) (Set (node_env C a) key v) w = (Ok (), w') \<and>
    fst (at_node c (I c) (Get (node_env C c) key) w') = Ok v"
proof -
  have "M \<noteq> {}" using assms(2) by blast
  then obtain owner where o': "owner \<in> M" "owned_by C key owner" "\<And>b. b \<in> M \<Longrightarrow> b \<noteq> owner \<Longrightarrow> \<exists>c. routed C key owner c b"
    using settled_owner [OF assms(1) _ assms(4)] by metis
  obtain w' where "at_node a (I a) (Set (node_env C a) key v) w = (Ok (), w')" "fresh C name I M owner key v w'"
    using cluster_Set_fresh [OF assms(1) o'(1) assms(2,4,5) o'(2) o'(3) [OF assms(2)]] assms(6) o'(1) by blast
  with cluster_Get_fresh [OF _ o'(1) assms(3,4) o'(2) o'(3) [OF assms(3)]] show ?thesis by blast
qed

text \<open>
  C1. Read your writes, across the cluster. When the members agree on the membership and can reach each
  other, a value set through any node is what every node reads next, whether it owns the key, asks the
  owner or has a near cache, and however old the copies in the near caches were before the write. With a
  TTL this holds for as long as the value lives.
\<close>

theorem cluster_read_your_writes:
  assumes "settled C M" "a \<in> M" "c \<in> M" "key \<noteq> []" "v \<noteq> []"
    "\<And>b. b \<in> M \<Longrightarrow> found name I w b \<and> healthy C name (grp_at I w b) \<and> cache_room (mainCache (grp_at I w b)) key v"
  shows "\<exists>w'. at_node a (I a) (Set (node_env C a) key v) w = (Ok (), w') \<and>
    fst (at_node c (I c) (Get (node_env C c) key) w') = Ok v"
  by (rule read_after_write [OF assms(1-5)]) (rule assms(6))

section \<open>Instances\<close>

text \<open>Two nodes with the pickers given, each with a group \<open>g\<close> that has a TTL and a near cache.\<close>

definition duo :: "ClientPicker \<Rightarrow> ClientPicker \<Rightarrow> setting" where
  "duo p q = \<lparr>pickers = (\<lambda>b. if b = ''a:1'' then p else q), tm = (\<lambda>n. int (min n 20)), source = (\<lambda>key. LoadError (Text ''none'')),
     code_of = demo_code, transmit = demo_wire\<rparr>"

definition duo_world :: cluster where
  "duo_world = \<lparr>regs = (\<lambda>b. \<lparr>groups_map = [(''g'', 0)],
     groups_heap = [(fresh_group False True demo_cache)\<lparr>nearCache := Some demo_cache, nearTTL := 60, expiration := 30\<rparr>]\<rparr>), clk = 0\<rparr>"

lemma duo_world_ready:
  "found ''g'' (\<lambda>b. 0) duo_world b \<and> healthy (duo p q) ''g'' (grp_at (\<lambda>b. 0) duo_world b) \<and>
   cache_room (mainCache (grp_at (\<lambda>b. 0) duo_world b)) ''k'' [1]"
proof -
  have "int (min m 20) < int (min n 20) + 30" "m \<le> n \<Longrightarrow> min m 20 \<le> n" for m n :: nat by simp_all
  then show ?thesis using demo_cache_facts(1,3)
    by (simp add: found_def GetGroup_def duo_world_def healthy_def fresh_group_def within_ttl_def duo_def mono_def)
qed

lemma duo_settled:
  obtains p q where "settled (duo p q) {''a:1'', ''b:1''}"
proof (rule demo_picker_two [OF demo_addresses(1), of "''b:1''" "\<lambda>_. None"],
    rule_tac [3] demo_picker_two [OF demo_addresses(2), of "''a:1''" "\<lambda>_. None"])
  fix p n q n'
  assume p: "picker_reachable p n" "p_members p = [''a:1'', ''b:1'']" "hashReplicas p = 2" "selfAddr p = ''a:1''"
      "(\<forall>a :: string. (None :: error option) = None) \<longrightarrow> ''b:1'' \<in> dom (gm_get (p_clients p))"
    and q: "picker_reachable q n'" "p_members q = [''b:1'', ''a:1'']" "hashReplicas q = 2" "selfAddr q = ''b:1''"
      "(\<forall>a :: string. (None :: error option) = None) \<longrightarrow> ''a:1'' \<in> dom (gm_get (p_clients q))"
  have "settled (duo p q) {''a:1'', ''b:1''}"
    unfolding settled_def by (intro exI [of _ 2]) (use p q in \<open>auto simp: duo_def\<close>)
  then show thesis by (rule that)
qed simp_all

theorem cluster_read_your_writes_witness:
  "\<exists>p q w'. at_node ''a:1'' 0 (Set (node_env (duo p q) ''a:1'') ''k'' [1]) duo_world = (Ok (), w') \<and>
     fst (at_node ''b:1'' 0 (Get (node_env (duo p q) ''b:1'') ''k'') w') = Ok [1]"
proof -
  obtain p q where "settled (duo p q) {''a:1'', ''b:1''}" by (rule duo_settled)
  from cluster_read_your_writes [OF this, of "''a:1''" "''b:1''" "''k''" "[1]" "''g''" "\<lambda>b. 0" duo_world] duo_world_ready
  show ?thesis by (simp only: insert_iff simp_thms list.distinct not_False_eq_True) blast
qed

end
