(* ===== verification/Cluster_Delete.thy ===== *)
theory Cluster_Delete
  imports Cluster
begin

text \<open>
  Deletion across a cluster with settled membership: the key goes at the owner, and the copies go at every
  node, so that each node that reads next finds a miss. The groups have no getter, so nothing is loaded anew.
\<close>

section \<open>A key that no node holds\<close>

definition node_purged :: "setting \<Rightarrow> string \<Rightarrow> string \<Rightarrow> string \<Rightarrow> string \<Rightarrow> Group \<Rightarrow> bool" where
  "node_purged C name owner key b g \<longleftrightarrow> healthy C name g \<and> \<not> g_getter g \<and>
     (if b = owner then \<forall>t. cache_view (mainCache g) t key = None
      else \<forall>t. cache_view (nearCache g) t (nearKey (epoch_at C b) key) = None)"

lemma deleteLocal_purged:
  assumes "healthy C name g" "\<not> g_getter g" "\<And>s. e_Epoch env s = (epoch_at C b, s)"
  obtains r g' where "deleteLocal env key (g, w) = (r, g', w)" "node_purged C name b key b g'"
proof -
  obtain ks h where "deleteLocal env key (g, w) = (fst (Cache_Delete key (mainCache g)),
    g\<lparr>mainCache := snd (Cache_Delete key (mainCache g)), nearCache := near_dropped (epoch_at C b) key g, keyStates := ks, stateHeap := h\<rparr>, w)"
    by (rule deleteLocal_effect [of g env "epoch_at C b" key w]) (simp add: assms(3), rule that)
  then show thesis
    by (rule that) (use assms(1,2) in \<open>simp add: node_purged_def healthy_def cache_inv_ops near_dropped_inv view_Delete\<close>)
qed

lemma deleteOwnerLocal_purged:
  assumes "healthy C name g" "\<not> g_getter g" "owned_by C key b"
  obtains r g' where "deleteOwnerLocal (node_lenv C b) key (g, w) = (Inr r, g', w)" "node_purged C name b key b g'"
proof -
  have own: "owns (node_lenv C b) key (epoch_at C b) g" using assms(1,3) by (intro node_owns) (simp_all add: healthy_def)
  have "healthy C name (claim (epoch_at C b) g)" "\<not> g_getter (claim (epoch_at C b) g)"
    using assms(1,2) by (simp_all add: healthy_def claim_cache)
  then obtain r g' where d: "deleteLocal (node_lenv C b) key (claim (epoch_at C b) g, w) = (r, g', w)" "node_purged C name b key b g'"
    by (rule deleteLocal_purged [where env = "node_lenv C b" and b = b and C = C and w = w and key = key]) (simp, rule that)
  with assms(1) show thesis
    by (intro that [OF _ d(2)]) (simp add: deleteOwnerLocal_def healthy_def prepare_owns [OF own])
qed

section \<open>Calls\<close>

lemma served_delete_owner:
  assumes "found name I w b" "healthy C name (grp_at I w b)" "\<not> g_getter (grp_at I w b)" "owned_by C key b" "ctx_metadata ctx = []"
  obtains r g' where "served C b (server_Delete (node_lenv C b) ctx \<lparr>r_group = name, r_key = key, r_value = v\<rparr>) w =
      (Inr r, put_group I b g' w)" "node_purged C name b key b g'"
proof -
  obtain r g' where d: "deleteOwnerLocal (node_lenv C b) key (grp_at I w b, w) = (Inr r, g', w)" "node_purged C name b key b g'"
    by (rule deleteOwnerLocal_purged [OF assms(2-4), of w]) (rule that)
  then have "served C b (on_group name (\<lambda>s. if peerInvalidationMetadataKey \<in> fst ` set (ctx_metadata ctx)
       then (case deleteLocal (node_lenv C b) key s of (removed, s) \<Rightarrow> (Ok removed, s))
       else (case deleteOwnerLocal (node_lenv C b) key s of
               (Inl err, s) \<Rightarrow> (Err (the (mapGroupError (Some err))), s)
             | (Inr removed, s) \<Rightarrow> (Ok removed, s)))) w = (deliver C (Ok r), (put_group I b g' w)\<lparr>clk := clk w\<rparr>)"
    using assms(5) by (intro served_on_group [OF assms(1)]) simp_all
  then have "served C b (server_Delete (node_lenv C b) ctx \<lparr>r_group = name, r_key = key, r_value = v\<rparr>) w =
      (deliver C (Ok r), (put_group I b g' w)\<lparr>clk := clk w\<rparr>)"
    unfolding server_Delete_def Request.select_convs .
  then show thesis by (intro that [OF _ d(2)]) (simp add: put_group_def)
qed

lemma peer_Delete_ok:
  assumes "found name I w owner" "healthy C name (grp_at I w owner)" "\<not> g_getter (grp_at I w owner)" "owned_by C key owner" "c_addr c = owner"
  obtains r g' where "e_peer_Delete (node_env C a) c name key (g, w) = (Inr r, g, put_group I owner g' w)"
    "node_purged C name owner key owner g'"
proof -
  have "ctx_metadata (callContext (tm C (clk w)) c None) = []"
    by (simp add: callContext_def Background_def WithTimeout_def Let_def)
  then obtain r g' where s: "served C owner (server_Delete (node_lenv C owner) (callContext (tm C (clk w)) c None)
      \<lparr>r_group = name, r_key = key, r_value = []\<rparr>) w = (Inr r, put_group I owner g' w)" "node_purged C name owner key owner g'"
    by (rule served_delete_owner [OF assms(1-4)]) (rule that)
  then show thesis using assms(5) by (intro that [OF _ s(2)]) (simp add: node_env_def Client_Delete_def stub_of_def Let_def)
qed

lemma dropped_purged:
  assumes "healthy C name g" "\<not> g_getter g" "dropped C key b g g'" "b \<noteq> owner"
  shows "node_purged C name owner key b g'"
  using assms by (auto simp: node_purged_def healthy_def dropped_def near_dropped_def cache_inv_ops view_Delete)

section \<open>Delete\<close>

lemma Delete_loop_settled:
  assumes "found name I w a" "healthy C name (grp_at I w a)" "found name I w owner" "healthy C name (grp_at I w owner)"
    "\<not> g_getter (grp_at I w owner)" "owned_by C key owner" "a \<noteq> owner \<Longrightarrow> \<exists>c. routed C key owner c a"
  obtains g w' where "Delete_loop (node_env C a) key (Suc left) [] (grp_at I w a, w) = (Past owner 0, g, w')"
    "if a = owner then node_purged C name owner key a g \<and> w' = w
     else g = grp_at I w a \<and> (\<exists>g'. w' = put_group I owner g' w \<and> node_purged C name owner key owner g')"
proof (cases "a = owner")
  case True
  let ?g = "grp_at I w a"
  obtain r g' where s: "deleteLocal (node_env C a) key (?g, w) = (r, g', w)" "node_purged C name a key a g'"
    by (rule deleteLocal_purged [OF assms(2), of "node_env C a" a key w]) (use assms(5) True in simp, simp, rule that)
  have "g_peers ?g" using assms(2) by (simp add: healthy_def)
  with s(1) assms(6) True have "Delete_loop (node_env C a) key (Suc left) [] (?g, w) = (Past owner 0, g', w)"
    by (simp add: stable_def)
  then show thesis by (rule that) (use s(2) True in simp)
next
  case False
  let ?g = "grp_at I w a"
  obtain c where c: "routed C key owner c a" using assms(7) False by blast
  obtain r g' where s: "e_peer_Delete (node_env C a) c name key (?g, w) = (Inr r, ?g, put_group I owner g' w)"
    "node_purged C name owner key owner g'"
    by (rule peer_Delete_ok [OF assms(3-6), of c a ?g]) (use c in simp, rule that)
  have "g_peers ?g" "g_name ?g = name" using assms(2) by (simp_all add: healthy_def)
  with s(1) c have "Delete_loop (node_env C a) key (Suc left) [] (?g, w) = (Past owner 0, ?g, put_group I owner g' w)"
    by (auto simp: stable_def)
  then show thesis by (rule that) (use s(2) False in auto)
qed

lemma cluster_Delete_purged:
  assumes "settled C M" "owner \<in> M" "a \<in> M" "key \<noteq> []" "owned_by C key owner" "a \<noteq> owner \<Longrightarrow> \<exists>c. routed C key owner c a"
    "\<forall>b\<in>M. found name I w b \<and> healthy C name (grp_at I w b) \<and> \<not> g_getter (grp_at I w b)"
  shows "\<exists>w'. at_node a (I a) (Delete (node_env C a) key) w = (Ok (), w') \<and>
    (\<forall>b\<in>M. found name I w' b \<and> node_purged C name owner key b (grp_at I w' b))"
proof -
  have a: "found name I w a" "healthy C name (grp_at I w a)" "\<not> g_getter (grp_at I w a)"
    and o': "found name I w owner" "healthy C name (grp_at I w owner)" "\<not> g_getter (grp_at I w owner)"
    using assms(2,3,7) by auto
  obtain g w1 where L: "Delete_loop (node_env C a) key (Suc 3) [] (grp_at I w a, w) = (Past owner 0, g, w1)"
    "if a = owner then node_purged C name owner key a g \<and> w1 = w
     else g = grp_at I w a \<and> (\<exists>g'. w1 = put_group I owner g' w \<and> node_purged C name owner key owner g')"
    by (rule Delete_loop_settled [OF a(1,2) o' assms(5,6)]) (assumption, rule that)
  let ?g1 = "g\<lparr>g_stats := (g_stats g)\<lparr>deletes := deletes (g_stats g) + 1\<rparr>\<rparr>"
  have f1: "found name I w1 b = found name I w b" "b \<noteq> owner \<Longrightarrow> regs w1 b = regs w b" for b
    using L(2) by (auto split: if_splits)
  have o1: "a \<noteq> owner \<Longrightarrow> node_purged C name owner key owner (grp_at I w1 owner)"
    using L(2) grp_at_put [OF o'(1)] by (auto split: if_splits)
  have pre: "\<forall>b\<in>M - {a, owner}. found name I w1 b \<and> healthy C name (grp_at I w1 b)" using assms(7) f1 by auto
  have h1: "healthy C name ?g1" "\<not> g_getter g" using L(2) a(2,3) by (auto simp: healthy_def node_purged_def split: if_splits)
  have route: "if a = owner then owned_by C key a else \<exists>c. routed C key owner c a" using assms(5,6) by auto
  let ?g2 = "?g1\<lparr>mainCache := (if a = owner then mainCache ?g1 else snd (Cache_Delete key (mainCache ?g1))),
    nearCache := near_dropped (epoch_at C a) key ?g1\<rparr>"
  obtain w2 where F: "invalidatePeerCopies (node_env C a) key owner (invalidateLocalCopies (node_env C a) key (?g1, w1)) = (?g2, w2)"
    "\<And>b. found name I w2 b = found name I w1 b" "\<And>b. b \<in> M - {a, owner} \<Longrightarrow> dropped C key b (grp_at I w1 b) (grp_at I w2 b)"
    "\<And>b. b \<in> {a, owner} \<Longrightarrow> regs w2 b = regs w1 b"
    by (rule invalidate_copies [OF assms(1,3) pre h1(1) route]) (rule that)
  have four: "(4 :: nat) = Suc 3" by simp
  have "Delete (node_env C a) key (grp_at I w a, w) = (Ok (), ?g2, w2)"
    using a(2) assms(4) L(1) F(1) unfolding Delete_def four by (simp add: healthy_def Let_def del: Delete_loop.simps)
  then have at: "at_node a (I a) (Delete (node_env C a) key) w = (Ok (), put_group I a ?g2 w2)"
    by (simp add: at_node_def put_group_def)
  have mine: "node_purged C name owner key a ?g2"
    using L(2) h1 by (auto simp: node_purged_def healthy_def cache_inv_ops near_dropped_inv near_dropped_def view_Delete split: if_splits)
  have others: "node_purged C name owner key b (grp_at I w2 b)" if "b \<in> M - {a, owner}" for b
    using that F(3) [OF that] assms(7) f1(2) [of b] by (intro dropped_purged [of C name "grp_at I w1 b"]) auto
  have "\<forall>b\<in>M. found name I (put_group I a ?g2 w2) b \<and> node_purged C name owner key b (grp_at I (put_group I a ?g2 w2) b)"
    by (rule every_node [where P = "node_purged C name owner key" and owner = owner])
      (use assms(3,7) f1(1) F(2,4) mine others o1 in auto)
  with at show ?thesis by blast
qed

section \<open>Get\<close>

lemma getLocal_purged:
  assumes "node_purged C name b key b g" "owns env key (epoch_at C b) g"
  shows "fst (getLocal env key (g, w)) = Err (Sentinel ErrCacheMiss)"
proof -
  have g: "\<not> g_closed g" "\<not> g_getter g" "cache_inv (mainCache g)" and none: "cache_view (mainCache g) t key = None" for t
    using assms(1) by (simp_all add: node_purged_def healthy_def)
  have "cache_view (mainCache (claim (epoch_at C b) g)) t key = None" for t
    using claim_cache(2) [OF g(3), of "epoch_at C b" t key] none by auto
  then show ?thesis by (rule getLocal_miss [OF g(1,2) assms(2) g(3), of w]) simp
qed

text \<open>The miss of the owner as the client of another node sees it.\<close>

lemma peer_Get_purged:
  assumes "found name I w owner" "node_purged C name owner key owner (grp_at I w owner)" "owned_by C key owner" "c_addr c = owner"
    "\<And>e. code_of C (transmit C (Status NotFound e)) = NotFound"
  shows "\<exists>e w'. e_peer_Get (node_env C a) c name key (g, w) = (Inl e, g, w') \<and> errors_Is e ErrCacheMiss \<and> \<not> is_moved e"
proof -
  have "owns (node_lenv C owner) key (epoch_at C owner) (grp_at I w owner)"
    using assms(2,3) by (intro node_owns) (simp_all add: node_purged_def healthy_def)
  from getLocal_purged [OF assms(2) this, of w] assms(1)
  have "fst (served C owner (server_Get (node_lenv C owner) \<lparr>r_group = name, r_key = key, r_value = []\<rparr>) w) =
      Inl (transmit C (Status NotFound (Sentinel ErrCacheMiss)))"
    by (auto simp: server_Get_def served_def on_group_def found_def mapGroupError_def split: prod.splits result.splits)
  then obtain w' where "served C owner (server_Get (node_lenv C owner) \<lparr>r_group = name, r_key = key, r_value = []\<rparr>) w =
      (Inl (transmit C (Status NotFound (Sentinel ErrCacheMiss))), w')" by (metis prod.collapse)
  then show ?thesis using assms(4)
    by (simp add: node_env_def Client_Get_def stub_of_def Let_def errors_Is_rpc_error assms(5))
qed

lemma cluster_Get_purged:
  assumes "\<forall>b\<in>M. found name I w b \<and> node_purged C name owner key b (grp_at I w b)" "owner \<in> M" "a \<in> M" "key \<noteq> []"
    "owned_by C key owner" "a \<noteq> owner \<Longrightarrow> \<exists>c. routed C key owner c a" "\<And>e. code_of C (transmit C (Status NotFound e)) = NotFound"
  shows "\<exists>e. fst (at_node a (I a) (Get (node_env C a) key) w) = Err e \<and> errors_Is e ErrCacheMiss"
proof -
  let ?g = "grp_at I w a"
  have a: "node_purged C name owner key a ?g" and o': "found name I w owner" "node_purged C name owner key owner (grp_at I w owner)"
    using assms(1-3) by auto
  then have g: "healthy C name ?g" by (simp add: node_purged_def)
  have loop: "\<exists>e. fst (Get_loop (node_env C a) key (Suc left) (?g, w)) = Err e \<and> errors_Is e ErrCacheMiss" for left
  proof (cases "a = owner")
    case True
    then have "owns (node_env C owner) key (epoch_at C owner) ?g" using assms(5) g by (intro node_owns) (simp_all add: healthy_def)
    then have "fst (getLocal (node_env C owner) key (?g, w)) = Err (Sentinel ErrCacheMiss)"
      using a True by (intro getLocal_purged [of C name owner]) simp_all
    then show ?thesis using True assms(5) by (auto split: prod.splits result.splits)
  next
    case False
    then obtain c where c: "routed C key owner c a" using assms(6) by blast
    have ok: "near_ok C name a key [] ?g" using a False g by (simp add: node_purged_def near_ok_def)
    obtain r g' n where n: "near_lookup (node_env C a) key owner (epoch_at C a) (?g, w) = (r, g', w\<lparr>clk := n\<rparr>)" "g_name g' = name"
      by (rule near_lookup_ok [OF ok c, of w]) (rule that)
    have "r = None"
      using near_lookup_view [of ?g "node_env C a" key owner "epoch_at C a" w] n(1) a False g
      by (cases r) (auto simp: node_purged_def healthy_def)
    moreover obtain e w' where "e_peer_Get (node_env C a) c name key (g', w\<lparr>clk := n\<rparr>) = (Inl e, g', w')"
        "errors_Is e ErrCacheMiss" "\<not> is_moved e"
      using peer_Get_purged [of name I "w\<lparr>clk := n\<rparr>" owner C key c a g'] o' c assms(5,7) by auto
    ultimately show ?thesis using n c by (auto simp: Let_def)
  qed
  from loop [of 3] g assms(4) have "\<exists>e. fst (Get (node_env C a) key (?g, w)) = Err e \<and> errors_Is e ErrCacheMiss"
    by (simp add: Get_def healthy_def)
  then show ?thesis by (auto simp: at_node_def split: prod.splits)
qed


section \<open>Instances\<close>


end
