(* ===== verification/Multi_Node_Demo.thy ===== *)
theory Multi_Node_Demo
  imports Cluster_Delete
begin

text \<open>
  The program of \<^verbatim>\<open>src/example/multi_node_demo.go\<close>: a node with its server, picker and group, and an HTTP
  interface to the group. Flag parsing, log lines and the HTTP library are left out: a request comes with
  its method, the key of its query and what reading its body gives.
\<close>

section \<open>The source of truth\<close>

definition demo_source :: "(string, string) gomap" where
  "demo_source = [(''Tom'', ''630''), (''Jack'', ''589''), (''Sam'', ''567''), (''Alice'', ''710''), (''Bob'', ''420'')]"

definition loadSource :: "(string, string) gomap \<Rightarrow> string \<Rightarrow> loaded" where
  "loadSource m key =
     (case gm_get m key of
        None \<Rightarrow> LoadError (Errorf ''key %q not found'' [S key] None)
      | Some v \<Rightarrow> Loaded (bytes_of v))"

section \<open>Start\<close>

definition format_int :: "int \<Rightarrow> string" where
  "format_int n = (if n < 0 then ''-'' @ decimal (nat (- n)) else decimal (nat n))"

text \<open>
  The part of \<^verbatim>\<open>main\<close> before the server starts; \<open>Inl\<close> is \<^verbatim>\<open>log.Fatal\<close>. The other arguments are what the
  network interfaces, etcd and the connections answer.
\<close>

definition demo_main ::
    "error + net_addr list \<Rightarrow> error option \<Rightarrow> error option \<Rightarrow> (string \<Rightarrow> error option) \<Rightarrow>
     error + (string \<times> string) list \<times> int \<Rightarrow> int \<Rightarrow> net \<Rightarrow>
     (error + Server \<times> ClientPicker \<times> net \<times> nat \<times> groups) option" where
  "demo_main ifs etcdServer etcdPicker dial resp port n =
     (let listenAddr = ''localhost:'' @ format_int port;
          endpoints = [''localhost:2379'']
      in case fst (NewServer ifs etcdServer (\<lambda>_ _. None) listenAddr ''locache'' [WithEtcdEndpoints endpoints]) of
           Inl err \<Rightarrow> Some (Inl err)
         | Inr server \<Rightarrow>
             (case NewClientPicker ifs dial etcdPicker resp (Address server)
                     [WithServiceName ''locache'', WithPickerEtcdEndpoints endpoints] n of
                Inl err \<Rightarrow> Some (Inl err)
              | Inr (picker, nextRev, n) \<Rightarrow>
                  map_option (\<lambda>(i, G). Inr (server, picker, n, i, G))
                    (NewGroup ''scores'' (push_bit 20 2) True
                       [WithPeers True, WithExpiration (30 * second), WithNearCache (push_bit 10 256) (3 * second)] no_groups)))"

section \<open>The HTTP interface\<close>

text \<open>A body is text of the program's own or the text of an error.\<close>

datatype http_body = Plain string | ErrorText error

record HttpRequest =
  h_method :: string
  h_key :: string
  h_body :: "error + bytes"

record HttpResponse =
  h_status :: nat
  h_allow :: "string option"
  h_text :: http_body

definition http_Error :: "http_body \<Rightarrow> nat \<Rightarrow> HttpResponse" where
  "http_Error text status = \<lparr>h_status = status, h_allow = None, h_text = text\<rparr>"

definition http_OK :: "string \<Rightarrow> HttpResponse" where
  "http_OK text = \<lparr>h_status = 200, h_allow = None, h_text = Plain text\<rparr>"

definition api_cache :: "'w env \<Rightarrow> string \<Rightarrow> HttpRequest \<Rightarrow> Group \<times> 'w \<Rightarrow> HttpResponse result \<times> Group \<times> 'w" where
  "api_cache env addr r s =
     (let key = h_key r
      in if key = [] then (Ok (http_Error (Plain ''missing key'') 400), s)
         else if h_method r = ''GET'' then
           (case Get env key s of
              (Err err, s) \<Rightarrow> (Ok (http_Error (ErrorText err) 502), s)
            | (Panicked p, s) \<Rightarrow> (Panicked p, s)
            | (Ok view, s) \<Rightarrow>
                (Ok (http_OK (''node='' @ addr @ '' key='' @ key @ '' value='' @ string_of view @ ''\<newline>'')), s))
         else if h_method r = ''PUT'' then
           (if isl (h_body r) \<or> length (projr (h_body r)) = 0
            then (Ok (http_Error (Plain ''request body must contain value'') 400), s)
            else (case Set env key (projr (h_body r)) s of
                    (Err err, s) \<Rightarrow> (Ok (http_Error (ErrorText err) 502), s)
                  | (Panicked p, s) \<Rightarrow> (Panicked p, s)
                  | (Ok _, s) \<Rightarrow>
                      (Ok (http_OK (''cached key='' @ key @ '' value='' @ string_of (projr (h_body r)) @ ''\<newline>'')), s)))
         else if h_method r = ''DELETE'' then
           (case Delete env key s of
              (Err err, s) \<Rightarrow> (Ok (http_Error (ErrorText err) 502), s)
            | (Panicked p, s) \<Rightarrow> (Panicked p, s)
            | (Ok _, s) \<Rightarrow> (Ok (http_OK (''evicted key='' @ key @ ''\<newline>'')), s))
         else (Ok ((http_Error (Plain ''method not allowed'') 405)\<lparr>h_allow := Some ''GET, PUT, DELETE''\<rparr>), s))"

text \<open>A key is served from the source as its text.\<close>

lemma loadSource_text: "loadSource m key = Loaded b \<Longrightarrow> gm_get m key = Some (string_of b)"
  by (auto simp: loadSource_def split: option.splits)

section \<open>A started node\<close>

lemma WithNearCache_on:
  assumes "0 < sint m" "0 < ttl"
  obtains d where "WithNearCache m ttl g = Some (g\<lparr>nearCache := Some d, nearTTL := ttl\<rparr>)" "cache_inv (Some d)"
proof -
  obtain d where d: "NewCache (DefaultCacheOptions\<lparr>oMaxBytes := m\<rparr>) = Some d"
    using NewCache_returns [of "DefaultCacheOptions\<lparr>oMaxBytes := m\<rparr>"] by (auto simp: DefaultCacheOptions_def)
  then have "cache_inv (Some d)" by (rule NewCache_inv) (simp add: DefaultCacheOptions_def)
  with d assms show thesis by (intro that) (simp_all add: WithNearCache_def)
qed

text \<open>The group of the program in the registry.\<close>

definition scores_ready :: "nat \<Rightarrow> groups \<Rightarrow> bool" where
  "scores_ready i G \<longleftrightarrow> GetGroup ''scores'' G = Some i \<and> i < length (groups_heap G) \<and>
     (let g = groups_heap G ! i
      in g_name g = ''scores'' \<and> g_getter g \<and> g_peers g \<and> \<not> g_closed g \<and> expiration g = 30 * second \<and>
         nearCache g \<noteq> None \<and> nearTTL g = 3 * second \<and> cache_inv (mainCache g) \<and> cache_inv (nearCache g))"

lemma scores_created:
  "\<exists>i G. NewGroup ''scores'' (push_bit 20 2) True
     [WithPeers True, WithExpiration (30 * second), WithNearCache (push_bit 10 256) (3 * second)] no_groups = Some (i, G) \<and> scores_ready i G"
proof -
  let ?g = "\<lparr>g_name = ''scores'', g_getter = True, mainCache = None, nearCache = None, nearTTL = 0, g_peers = True,
    loader = \<lparr>sf_m = None, callHeap = []\<rparr>, expiration = 30 * second, g_closed = False, g_stats = zeroStats,
    ownerEpoch = 0, keyStates = [], stateHeap = []\<rparr>"
  have pos: "0 < sint (push_bit 10 256 :: int64)" "0 < sint (push_bit 20 2 :: int64)" by (simp_all add: push_bit_eq_mult)
  obtain d where d: "WithNearCache (push_bit 10 256) (3 * second) ?g = Some (?g\<lparr>nearCache := Some d, nearTTL := 3 * second\<rparr>)"
    "cache_inv (Some d)"
    by (rule WithNearCache_on [OF pos(1), of "3 * second" ?g]) (simp, rule that)
  obtain c where c: "NewCache (DefaultCacheOptions\<lparr>oMaxBytes := push_bit 20 2\<rparr>) = Some c"
    using NewCache_returns [of "DefaultCacheOptions\<lparr>oMaxBytes := push_bit 20 2\<rparr>"] by (auto simp: DefaultCacheOptions_def)
  then have "cache_inv (Some c)" by (rule NewCache_inv) (simp add: DefaultCacheOptions_def)
  with c d pos(2) show ?thesis
    by (simp add: NewGroup_def newGroupValue_def WithPeers_def WithExpiration_def no_groups_def scores_ready_def GetGroup_def Let_def)
qed

text \<open>The node always has an address, whatever the network interfaces are.\<close>

lemma localhost_address: "NormalizeAddress ifs (''localhost:'' @ format_int port) = Inr (''localhost:'' @ format_int port)"
proof -
  have digits: "c \<noteq> CHR '':'' \<and> c \<notin> brackets" if "c \<in> set (decimal m)" for c m
    using decimal_digits [OF that] by auto
  have "decimal m \<noteq> []" for m by (cases m rule: decimal.cases) simp
  then have port: "CHR '':'' \<notin> set (format_int port)" "set (format_int port) \<inter> brackets = {}" "format_int port \<noteq> []"
    using digits by (auto simp: format_int_def)
  have "SplitHostPort (JoinHostPort ''localhost'' (format_int port)) = Inr (''localhost'', format_int port)"
    by (rule SplitHostPort_JoinHostPort) (use port in simp_all)
  moreover have "JoinHostPort ''localhost'' (format_int port) = ''localhost:'' @ format_int port" by (simp add: JoinHostPort_def)
  moreover have "Trim ''localhost'' ''[]'' = ''localhost''" by (rule Trim_id) simp
  ultimately show ?thesis using port(3) by (simp add: NormalizeAddress_def wildcard_def)
qed

lemma demo_server:
  "\<exists>server. Address server = ''localhost:'' @ format_int port \<and>
     fst (NewServer ifs etcd (\<lambda>_ _. None) (''localhost:'' @ format_int port) ''locache'' [WithEtcdEndpoints eps]) =
       (case etcd of Some err \<Rightarrow> Inl (wrapped ''create etcd client: %w'' [] err) | None \<Rightarrow> Inr server)"
proof -
  have "\<exists>server. Address server = ''localhost:'' @ format_int port \<and>
     fst (NewServer ifs None (\<lambda>_ _. None) (''localhost:'' @ format_int port) ''locache'' [WithEtcdEndpoints eps]) = Inr server"
    using localhost_address [of ifs port] by (simp add: NewServer_def DefaultServerOptions_def WithEtcdEndpoints_def Address_def)
  moreover have "fst (NewServer ifs (Some err) (\<lambda>_ _. None) (''localhost:'' @ format_int port) ''locache'' [WithEtcdEndpoints eps]) =
     Inl (wrapped ''create etcd client: %w'' [] err)" for err
    using localhost_address [of ifs port] by (simp add: NewServer_def DefaultServerOptions_def WithEtcdEndpoints_def)
  ultimately show ?thesis by (cases etcd) auto
qed

lemma replaceMembership_members:
  assumes "distinct (p_members p)" "distinct desired"
  shows "selfAddr (fst (replaceMembership dial desired p n)) = selfAddr p"
    "set (p_members (fst (replaceMembership dial desired p n))) = set desired"
  using assms by (auto simp: replaceMembership_def Let_def sameMembers_iff split: prod.splits)

lemma demo_picker:
  assumes "NormalizeAddress ifs a = Inr a" "opts = [WithServiceName ''locache'', WithPickerEtcdEndpoints eps]"
  shows "NewClientPicker ifs dial (Some err) resp a opts n = Inl (wrapped ''create etcd client: %w'' [] err)"
    "NewClientPicker ifs dial None (Inl err) a opts n = Inl (wrapped ''fetch service snapshot: %w'' [] err)"
    "\<exists>p rv n'. NewClientPicker ifs dial None (Inr (kvs, revision)) a opts n = Inr (p, rv, n') \<and> selfAddr p = a \<and>
       set (p_members p) = insert a (kv_addr ''locache'' ` set kvs - {[]})"
proof -
  show "NewClientPicker ifs dial (Some err) resp a opts n = Inl (wrapped ''create etcd client: %w'' [] err)"
    "NewClientPicker ifs dial None (Inl err) a opts n = Inl (wrapped ''fetch service snapshot: %w'' [] err)"
    using assms by (simp_all add: NewClientPicker_def refreshSnapshot_def)
  obtain p where p: "selfAddr p = a" "p_members p = [a]"
    "NewClientPicker ifs dial None (Inr (kvs, revision)) a opts n =
      (case replaceMembership dial (desiredMembers ''locache'' [a] kvs) p n of (q, n') \<Rightarrow> Inr (q, revision + 1, n'))"
  proof
    let ?p = "\<lparr>selfAddr = a, svcName = ''locache'', p_ring = snd (ring_Add [a] (New [])), p_members = [a], p_clients = [],
      p_endpoints = (if eps = [] then Endpoints DefaultRegistryConfig else eps),
      dialTO = RegistryConfig.DialTimeout DefaultRegistryConfig,
      rpcTO = 3 * second, hashReplicas = Replicas DefaultConfig, p_epoch = 1, p_cancelled = False, p_closeOnce = False, etcdOpen = True\<rparr>"
    show "selfAddr ?p = a" "p_members ?p = [a]" by simp_all
    show "NewClientPicker ifs dial None (Inr (kvs, revision)) a opts n =
      (case replaceMembership dial (desiredMembers ''locache'' [a] kvs) ?p n of (q, n') \<Rightarrow> Inr (q, revision + 1, n'))"
      using assms by (simp add: NewClientPicker_def refreshSnapshot_def WithServiceName_def WithPickerEtcdEndpoints_def Let_def case_prod_beta)
  qed
  obtain q n' where q: "replaceMembership dial (desiredMembers ''locache'' [a] kvs) p n = (q, n')" by fastforce
  have "distinct (p_members p)" "distinct (desiredMembers ''locache'' [a] kvs)" by (simp_all add: p(2) desiredMembers_distinct)
  from replaceMembership_members [OF this, of dial n] p q
  show "\<exists>p rv n'. NewClientPicker ifs dial None (Inr (kvs, revision)) a opts n = Inr (p, rv, n') \<and> selfAddr p = a \<and>
       set (p_members p) = insert a (kv_addr ''locache'' ` set kvs - {[]})" by (simp add: desiredMembers_set)
qed

text \<open>
  C40. How a node of the demo starts is decided by etcd alone. If the client of the server or of the picker
  cannot be created, or the first snapshot fails, the program ends with that error. Otherwise the node is
  ready: the server advertises the local address and the port given, the picker knows the node by that
  address, is reachable and has exactly the node and the registered addresses as members, and the group is
  registered, open, has the picker and a getter, and its caches keep their invariants.
\<close>

theorem demo_main_ready:
  assumes "openConns n = []"
  shows "(\<forall>err. etcdServer = Some err \<longrightarrow>
      demo_main ifs etcdServer etcdPicker dial resp port n = Some (Inl (wrapped ''create etcd client: %w'' [] err))) \<and>
    (\<forall>err. etcdServer = None \<and> etcdPicker = Some err \<longrightarrow>
      demo_main ifs etcdServer etcdPicker dial resp port n = Some (Inl (wrapped ''create etcd client: %w'' [] err))) \<and>
    (\<forall>err. etcdServer = None \<and> etcdPicker = None \<and> resp = Inl err \<longrightarrow>
      demo_main ifs etcdServer etcdPicker dial resp port n = Some (Inl (wrapped ''fetch service snapshot: %w'' [] err))) \<and>
    (\<forall>kvs revision. etcdServer = None \<and> etcdPicker = None \<and> resp = Inr (kvs, revision) \<longrightarrow>
      (\<exists>server picker n' i G. demo_main ifs etcdServer etcdPicker dial resp port n = Some (Inr (server, picker, n', i, G)) \<and>
        Address server = ''localhost:'' @ format_int port \<and> selfAddr picker = Address server \<and> picker_reachable picker n' \<and>
        set (p_members picker) = insert (Address server) (kv_addr ''locache'' ` set kvs - {[]}) \<and> scores_ready i G))"
proof -
  let ?a = "''localhost:'' @ format_int port" and ?eps = "[''localhost:2379'']"
  let ?opts = "[WithServiceName ''locache'', WithPickerEtcdEndpoints ?eps]"
  obtain i G where G: "NewGroup ''scores'' (push_bit 20 2) True
     [WithPeers True, WithExpiration (30 * second), WithNearCache (push_bit 10 256) (3 * second)] no_groups = Some (i, G)"
    "scores_ready i G" using scores_created by blast
  obtain server where s: "Address server = ?a" "fst (NewServer ifs etcdServer (\<lambda>_ _. None) ?a ''locache'' [WithEtcdEndpoints ?eps]) =
      (case etcdServer of Some err \<Rightarrow> Inl (wrapped ''create etcd client: %w'' [] err) | None \<Rightarrow> Inr server)"
    using demo_server by blast
  note picker = demo_picker [OF localhost_address [of ifs port] refl, where dial = dial and n = n and eps = ?eps]
  have "\<exists>server picker n' i G. demo_main ifs etcdServer etcdPicker dial resp port n = Some (Inr (server, picker, n', i, G)) \<and>
        Address server = ?a \<and> selfAddr picker = Address server \<and> picker_reachable picker n' \<and>
        set (p_members picker) = insert (Address server) (kv_addr ''locache'' ` set kvs - {[]}) \<and> scores_ready i G"
    if ok: "etcdServer = None" "etcdPicker = None" "resp = Inr (kvs, revision)" for kvs revision
  proof -
    obtain p rv n' where p: "NewClientPicker ifs dial None (Inr (kvs, revision)) ?a ?opts n = Inr (p, rv, n')" "selfAddr p = ?a"
      "set (p_members p) = insert ?a (kv_addr ''locache'' ` set kvs - {[]})" using picker(3) by blast
    have "picker_reachable p n'" by (rule picker_reachable.new [OF p(1) _ assms]) (simp add: picker_options_def)
    with G s p ok show ?thesis by (intro exI [of _ server] exI [of _ p] exI [of _ n'] exI [of _ i] exI [of _ G]) (simp add: demo_main_def)
  qed
  then show ?thesis using s picker(1,2) by (auto simp: demo_main_def)
qed

theorem demo_main_ready_witness:
  "\<exists>server picker n i G. demo_main (Inr []) None None (\<lambda>_. None) (Inr ([(''/services/locache/b:1'', ''b:1'')], 5)) 8001
       \<lparr>nextConn = 0, openConns = []\<rparr> = Some (Inr (server, picker, n, i, G)) \<and>
     set (p_members picker) = {''localhost:'' @ format_int 8001, ''b:1''} \<and> picker_reachable picker n \<and> scores_ready i G"
  using demo_main_ready [of "\<lparr>nextConn = 0, openConns = []\<rparr>" None "Inr []" None "\<lambda>_. None" "Inr ([(''/services/locache/b:1'', ''b:1'')], 5)" 8001]
  by (auto simp: kv_addr_def)

section \<open>Requests\<close>

text \<open>A malformed request is refused and changes nothing.\<close>

lemma api_cache_refuses:
  assumes "h_key r = [] \<or> h_method r \<notin> {''GET'', ''PUT'', ''DELETE''} \<or> h_method r = ''PUT'' \<and> (\<forall>v. h_body r = Inr v \<longrightarrow> v = [])"
  shows "\<exists>resp. api_cache env addr r s = (Ok resp, s) \<and> h_status resp \<in> {400, 405}"
  using assms by (cases "h_body r") (auto simp: api_cache_def http_Error_def Let_def)

text \<open>A value put through one node is the answer of every node, over HTTP.\<close>

lemma demo_put_get:
  assumes "settled C M" "a \<in> M" "c \<in> M" "key \<noteq> []" "v \<noteq> []"
    "\<And>b. b \<in> M \<Longrightarrow> found name I w b \<and> healthy C name (grp_at I w b) \<and> cache_room (mainCache (grp_at I w b)) key v"
  shows "\<exists>w'. at_node a (I a) (api_cache (node_env C a) a \<lparr>h_method = ''PUT'', h_key = key, h_body = Inr v\<rparr>) w =
      (Ok (http_OK (''cached key='' @ key @ '' value='' @ string_of v @ ''\<newline>'')), w') \<and>
    fst (at_node c (I c) (api_cache (node_env C c) c \<lparr>h_method = ''GET'', h_key = key, h_body = Inr []\<rparr>) w') =
      Ok (http_OK (''node='' @ c @ '' key='' @ key @ '' value='' @ string_of v @ ''\<newline>''))"
proof -
  obtain w' where w': "at_node a (I a) (Set (node_env C a) key v) w = (Ok (), w')"
    "fst (at_node c (I c) (Get (node_env C c) key) w') = Ok v"
    using read_after_write [OF assms(1-5)] assms(6) by blast
  then show ?thesis using assms(4,5)
    by (intro exI [of _ w']) (auto simp: at_node_def api_cache_def Let_def split: prod.splits result.splits)
qed

end
