(* ===== verification/Spec2Isabelle.thy ===== *)
theory Spec2Isabelle
  imports Byteview Group_Interleaving Multi_Node_Demo
begin

text \<open>
  \<^bold>\<open>Locache: a distributed in-memory cache in Go.\<close>

  Each node runs a gRPC server, a peer picker and named cache groups. The picker learns the members of the
  service from etcd and places them on a consistent hash ring; every key has one owner on the ring. A group
  answers for the keys its node owns from its owner cache, loading missing values from a getter at most once
  at a time, and forwards other keys to their owner over gRPC, keeping copies for a short time in a near
  cache. Mutations go to the owner and then invalidate the copies on all other nodes.

  \<^bold>\<open>Theories and sources.\<close>

  \<^item> \<open>Prelude\<close>: Go types (64-bit integers as words, time in nanoseconds as integers, strings, bytes), Go maps
    as association lists, decimal formatting. \<open>Errors\<close>: Go errors as a datatype with \<^verbatim>\<open>errors.Is\<close>, \<^verbatim>\<open>errors.Join\<close>.
  \<^item> \<open>Byteview\<close>: \<^verbatim>\<open>src/byteview.go\<close>, with slices over an explicit heap of arrays so that aliasing shows.
  \<^item> \<open>Store_Base\<close>, \<open>Lru\<close>, \<open>Lru_Correct\<close>, \<open>Sharded_Lru\<close>, \<open>Store\<close>: \<^verbatim>\<open>src/store\<close>. An \<open>lruCache\<close> record has the
    element list, the index, the expiry map and the byte counter of the source; a sharded store is a list of
    these; the interface is their sum. The locale \<open>store_contract\<close> states what every store promises and is
    interpreted on the LRU cache, the sharded store and the sum.
  \<^item> \<open>Cache\<close>: \<^verbatim>\<open>src/cache.go\<close>, the wrapper with nil receivers, counters and closing, over the contract.
  \<^item> \<open>Con_Hash\<close>: \<^verbatim>\<open>src/consistenthash\<close>, ring construction, binary search and CRC-32. The locale \<open>hash_ring\<close> is
    what the picker uses of it.
  \<^item> \<open>Singleflight\<close>: \<^verbatim>\<open>src/singleflight/singleflight.go\<close>, with \<^verbatim>\<open>Do\<close> cut at its synchronisation points and a step
    relation that interleaves any number of callers.
  \<^item> \<open>Registry\<close>: \<^verbatim>\<open>src/registry/register.go\<close>, addresses and registrations. \<open>Client\<close>: \<^verbatim>\<open>src/client.go\<close>.
  \<^item> \<open>Peers\<close>, \<open>Peers_Correct\<close>: \<^verbatim>\<open>src/peers.go\<close>, the picker as a record, each operation under its mutex.
  \<^item> \<open>Group\<close>, \<open>Group_Correct\<close>, \<open>Group_Registry\<close>: \<^verbatim>\<open>src/group.go\<close>. The record \<open>Group\<close> has the fields of the
    struct; key mutation states are objects on a heap. \<open>Get\<close>, \<open>Set\<close> and \<open>Delete\<close> are the retry loops of the
    source with every early return; \<open>getLocal\<close>, \<open>setLocal\<close> and \<open>deleteLocal\<close> are the owner's part.
  \<^item> \<open>Group_Interleaving\<close>: the same local operations, cut at the picker, at every lock, at the getter and at the
    wait for a load (\<open>turn\<close>), with a step relation \<open>gi_step\<close> that interleaves any number of readers and
    writers with \<^verbatim>\<open>Clear\<close>, \<^verbatim>\<open>Close\<close> and expiry. A history of events records what happened. Run without
    interruption, the sections do what \<open>getLocal\<close>, \<open>setLocal\<close> and \<open>deleteOwnerLocal\<close> do.
  \<^item> \<open>Server\<close>: \<^verbatim>\<open>src/server.go\<close>, options, life cycle, error mapping and the three handlers.
  \<^item> \<open>Cluster\<close>, \<open>Cluster_Delete\<close>: these parts composed into a cluster of nodes whose clients reach the handlers
    of the other nodes. \<open>Multi_Node_Demo\<close>: \<^verbatim>\<open>src/example/multi_node_demo.go\<close>.

  \<^bold>\<open>Conventions.\<close> State is passed explicitly. An operation under a mutex is one function; where a goroutine gives
  up a lock or calls out, the model is cut. Clock readings and the answers of etcd, gRPC, TLS, the dialer and
  the network interfaces are arguments. A group calls the outside through the record \<open>env\<close>; each such call maps
  the group and the rest of the world to new ones, so that it covers what other goroutines do meanwhile. In
  particular a getter may be interleaved with any sequence of mutations of the key (\<open>mutations\<close>). Errors are
  values of \<open>error\<close>, panics are results \<open>Panicked\<close>.

  \<^bold>\<open>What is shown.\<close>

  \<^item> Cluster: a value set through any node is what every node reads next, and a key deleted through any node is
    a miss everywhere, near caches included, while the members agree on the membership and can reach each
    other and, with a TTL, while the value lives.
  \<^item> Groups: a load from the source never overrides a mutation that overlaps it; after a change of ownership
    nothing cached before is served; whatever happens to the near cache, a near copy is served for
    no longer than the near TTL after it was kept and only in its epoch; a read loads once; mutation states are shared and counted correctly under every interleaving; the
    registry names exactly the open groups. Two theorems show where \<^verbatim>\<open>Set\<close> reports a write that did not happen
    and where operations panic because a member without a client stays on the ring.
  \<^item> Interleaved callers: the owner cache holds only the value of the last mutation or fill since it was emptied;
    a reader answers with a value current while it ran or, if it joined a load, since the leader of that load
    entered; no load stores over a mutation; every caller returns. The bound for joined loads cannot be
    improved to the reader's own start: \<open>late_join_stale\<close> runs a reader that begins after a deletion and answers
    with the deleted value.
    \<open>late_fill_stale\<close> runs a load of an old epoch that stores its value after the cache was emptied for a new one.
  \<^item> Stores: index, list, expiry map and byte counter agree in every reachable state; reads and writes refine an
    abstract recency list, with exactly the longest newest part that fits kept; each removed entry is reported
    once; the order of iteration over a Go map does not matter for the sweep, which keeps exactly the live
    entries; shard budgets add up.
  \<^item> Ring and picker: lookup is the owner function of configuration and members, whatever the history; few keys
    move; pickers with the same members agree; the epoch changes exactly with the members; the watched
    membership follows the registry; clients and open connections match the members.
  \<^item> Single flight: one leader per key, the result of a call's own leader for all callers of the call, no joining of a call once removed, and
    every caller returns.
  \<^item> Wire and life cycle: the error classes of the owner survive the status codes, for errors without a
    status of their own in both directions; a lease is revoked exactly
    once; addresses normalise idempotently; the start of a demo node is characterised by the
    answers of etcd.

  \<^bold>\<open>Bounds and termination.\<close> The retry loops make the four attempts of the source. \<open>waitLoop\<close> recurses on the number
  of ticks before the context ends. \<open>evictLoop\<close> and the other loops over data recurse on the data.
  \<open>nextPowerOfTwo\<close> is a partial function: it returns up to \<open>2 ^ 62\<close> and diverges above. The generation of a key
  is 64 bits wide, so the theorem on overlapping loads assumes fewer than \<open>2 ^ 64\<close> mutations during one load, and
  the theorems on interleaved callers assume a history shorter than that. They terminate by the rank of the
  sections left.
  Byte counters are words; statements about budgets carry the bound under which the sum does not wrap.

  \<^bold>\<open>Not modelled.\<close> The generated code under \<^verbatim>\<open>src/pb\<close> (its messages appear as arguments of client and handlers);
  the etcd, gRPC, TLS and HTTP libraries beyond the calls named above, with message size limits and the health
  service; log lines and \<^verbatim>\<open>PrintPeers\<close>; functions that end their goroutine with \<^verbatim>\<open>runtime.Goexit\<close>;
  the panic of \<^verbatim>\<open>make\<close> for an enormous number of shards; in the demo
  program flags, deferred calls and the listener. The calls of \<^verbatim>\<open>Invalidate\<close> to different peers run one after the
  other, in the order of the map. In \<open>Cluster\<close> operations of the application run one at a time; in
  \<open>Group_Interleaving\<close> the local operations of one node are interleaved, with any answers of the picker, but not the
  retry loops around them, and \<^verbatim>\<open>Clear\<close> at a new epoch is one section, as it is for the LRU store; the sharded store
  clears one shard after the other. \<^verbatim>\<open>DestroyAllGroups\<close> closes the groups in the order of the list.
\<close>

end
